(* ===== verification/Zi_Prelude.thy ===== *)
theory Zi_Prelude
  imports Main "HOL-Library.Word"
begin

text \<open>
  Shared vocabulary of the development: the machine types of the C sources, the status codes of
  \<^verbatim>\<open>sdk/include/zizium/status.h\<close>, the result type of fallible operations, the collections of
  simplification rules the components add to, and the generic lemmas on words and lists.

  Conventions used by every component theory:
  \<^item> a \<^verbatim>\<open>uintN_t\<close> is a word of \<open>N\<close> bits; \<^verbatim>\<open>size_t\<close> values that only index or count
    elements of a modelled array are natural numbers;
  \<^item> an array or a pointed-to buffer is a list; a pointer into a buffer is the buffer with an offset;
  \<^item> a (pointer, size) pair that may be \<^verbatim>\<open>NULL\<close> is a \<open>list option\<close>: \<open>None\<close> is a \<^verbatim>\<open>NULL\<close>
    pointer with a non-zero size, and the empty view is \<open>Some []\<close>;
  \<^item> an out parameter that the source writes on success only is the \<open>Inr\<close> part of the result, and
    the failing status is the \<open>Inl\<close> part. A caller that passes a \<^verbatim>\<open>NULL\<close> out parameter where the
    source does not give it a meaning of its own is outside the model;
  \<^item> the executive spin locks are not part of the state: each operation is one atomic step.
\<close>

unbundle bit_operations_syntax

section \<open>Collections of simplification rules\<close>

named_theorems le_simps "reads and writes of little-endian fields in a buffer"

section \<open>Machine types\<close>

type_synonym byte = "8 word"
type_synonym u16 = "16 word"
type_synonym u32 = "32 word"
type_synonym u64 = "64 word"

type_synonym bytes = "byte list"

abbreviation UINT32_MAX :: u32 where
  "UINT32_MAX \<equiv> 0xffffffff"

abbreviation UINT64_MAX :: u64 where
  "UINT64_MAX \<equiv> 0xffffffffffffffff"

section \<open>Status codes\<close>

datatype (plugins only: code size) ZiStatus =
    ZI_STATUS_SUCCESS
  | ZI_STATUS_PENDING
  | ZI_STATUS_NOT_FOUND
  | ZI_STATUS_ACCESS_DENIED
  | ZI_STATUS_INVALID_HANDLE
  | ZI_STATUS_INVALID_ARGUMENT
  | ZI_STATUS_NO_MEMORY
  | ZI_STATUS_BAD_IMAGE_FORMAT
  | ZI_STATUS_INVALID_PATH
  | ZI_STATUS_CASE_MISMATCH
  | ZI_STATUS_NOT_IMPLEMENTED
  | ZI_STATUS_DEVICE_ERROR
  | ZI_STATUS_TIMEOUT
  | ZI_STATUS_BUFFER_TOO_SMALL
  | ZI_STATUS_INVALID_ENCODING
  | ZI_STATUS_CHECKSUM_MISMATCH
  | ZI_STATUS_CORRUPT_FILESYSTEM
  | ZI_STATUS_ALREADY_EXISTS
  | ZI_STATUS_INVALID_STATE
  | ZI_STATUS_OUT_OF_BOUNDS
  | ZI_STATUS_END_OF_FILE
  | ZI_STATUS_ADDRESS_CONFLICT
  | ZI_STATUS_PAGE_NOT_MAPPED
  | ZI_STATUS_MEMORY_CORRUPTION
  | ZI_STATUS_ALIGNMENT_ERROR
  | ZI_STATUS_RESOURCE_IN_USE
  | ZI_STATUS_INVALID_USER_BUFFER
  | ZI_STATUS_PROCESS_TERMINATED
  | ZI_STATUS_PRIVILEGE_VIOLATION
  | ZI_STATUS_IMAGE_RELOCATION_FAILED
  | ZI_STATUS_IMAGE_DEPENDENCY_CYCLE
  | ZI_STATUS_IMAGE_IMPORT_NOT_FOUND
  | ZI_STATUS_INVALID_PROCESS_PARAMETERS
  | ZI_STATUS_CANCELLED
  | ZI_STATUS_HANDLE_TABLE_FULL
  | ZI_STATUS_QUEUE_FULL
  | ZI_STATUS_PEER_CLOSED
  | ZI_STATUS_INVALID_MESSAGE
  | ZI_STATUS_RESOURCE_LEAK
  | ZI_STATUS_INVALID_SERVICE_MANIFEST
  | ZI_STATUS_SERVICE_DEPENDENCY_CYCLE
  | ZI_STATUS_SERVICE_RESTART_LIMIT
  | ZI_STATUS_READ_ONLY_FILESYSTEM
  | ZI_STATUS_RECOVERY_REQUIRED
  | ZI_STATUS_VOLUME_FULL
  | ZI_STATUS_JOURNAL_FULL

text \<open>The numeric value each macro expands to.\<close>

primrec status_code :: "ZiStatus \<Rightarrow> int" where
  "status_code ZI_STATUS_SUCCESS = 0"
| "status_code ZI_STATUS_PENDING = 1"
| "status_code ZI_STATUS_NOT_FOUND = -1"
| "status_code ZI_STATUS_ACCESS_DENIED = -2"
| "status_code ZI_STATUS_INVALID_HANDLE = -3"
| "status_code ZI_STATUS_INVALID_ARGUMENT = -4"
| "status_code ZI_STATUS_NO_MEMORY = -5"
| "status_code ZI_STATUS_BAD_IMAGE_FORMAT = -6"
| "status_code ZI_STATUS_INVALID_PATH = -7"
| "status_code ZI_STATUS_CASE_MISMATCH = -8"
| "status_code ZI_STATUS_NOT_IMPLEMENTED = -9"
| "status_code ZI_STATUS_DEVICE_ERROR = -10"
| "status_code ZI_STATUS_TIMEOUT = -11"
| "status_code ZI_STATUS_BUFFER_TOO_SMALL = -12"
| "status_code ZI_STATUS_INVALID_ENCODING = -13"
| "status_code ZI_STATUS_CHECKSUM_MISMATCH = -14"
| "status_code ZI_STATUS_CORRUPT_FILESYSTEM = -15"
| "status_code ZI_STATUS_ALREADY_EXISTS = -16"
| "status_code ZI_STATUS_INVALID_STATE = -17"
| "status_code ZI_STATUS_OUT_OF_BOUNDS = -18"
| "status_code ZI_STATUS_END_OF_FILE = -19"
| "status_code ZI_STATUS_ADDRESS_CONFLICT = -20"
| "status_code ZI_STATUS_PAGE_NOT_MAPPED = -21"
| "status_code ZI_STATUS_MEMORY_CORRUPTION = -22"
| "status_code ZI_STATUS_ALIGNMENT_ERROR = -23"
| "status_code ZI_STATUS_RESOURCE_IN_USE = -24"
| "status_code ZI_STATUS_INVALID_USER_BUFFER = -25"
| "status_code ZI_STATUS_PROCESS_TERMINATED = -26"
| "status_code ZI_STATUS_PRIVILEGE_VIOLATION = -27"
| "status_code ZI_STATUS_IMAGE_RELOCATION_FAILED = -28"
| "status_code ZI_STATUS_IMAGE_DEPENDENCY_CYCLE = -29"
| "status_code ZI_STATUS_IMAGE_IMPORT_NOT_FOUND = -30"
| "status_code ZI_STATUS_INVALID_PROCESS_PARAMETERS = -31"
| "status_code ZI_STATUS_CANCELLED = -32"
| "status_code ZI_STATUS_HANDLE_TABLE_FULL = -33"
| "status_code ZI_STATUS_QUEUE_FULL = -34"
| "status_code ZI_STATUS_PEER_CLOSED = -35"
| "status_code ZI_STATUS_INVALID_MESSAGE = -36"
| "status_code ZI_STATUS_RESOURCE_LEAK = -37"
| "status_code ZI_STATUS_INVALID_SERVICE_MANIFEST = -38"
| "status_code ZI_STATUS_SERVICE_DEPENDENCY_CYCLE = -39"
| "status_code ZI_STATUS_SERVICE_RESTART_LIMIT = -40"
| "status_code ZI_STATUS_READ_ONLY_FILESYSTEM = -41"
| "status_code ZI_STATUS_RECOVERY_REQUIRED = -42"
| "status_code ZI_STATUS_VOLUME_FULL = -43"
| "status_code ZI_STATUS_JOURNAL_FULL = -44"

definition ZiSucceeded :: "ZiStatus \<Rightarrow> bool" where
  "ZiSucceeded status \<longleftrightarrow> status_code status \<ge> status_code ZI_STATUS_SUCCESS"

definition ZiFailed :: "ZiStatus \<Rightarrow> bool" where
  "ZiFailed status \<longleftrightarrow> status_code status < status_code ZI_STATUS_SUCCESS"

text \<open>
  Exactly two codes are successes; every other code aborts its caller. The components reason with
  these two equations and never with the numbers.
\<close>

lemma ZiSucceeded_iff [simp]:
  "ZiSucceeded s \<longleftrightarrow> s = ZI_STATUS_SUCCESS \<or> s = ZI_STATUS_PENDING"
  by (cases s) (simp_all add: ZiSucceeded_def)

lemma ZiFailed_iff [simp]:
  "ZiFailed s \<longleftrightarrow> s \<noteq> ZI_STATUS_SUCCESS \<and> s \<noteq> ZI_STATUS_PENDING"
  by (cases s) (simp_all add: ZiFailed_def)

type_synonym 'a result = "ZiStatus + 'a"

section \<open>Words read as natural numbers\<close>

text \<open>Masks, shifts and disjoint unions of bit fields as arithmetic on \<^term>\<open>unat\<close>.\<close>

lemma unat_and_mask: "unat (w AND mask n :: 'a::len word) = unat w mod 2 ^ n"
  by (metis take_bit_eq_mask unsigned_take_bit_eq take_bit_nat_def)

lemma unat_or_add:
  fixes a b :: "'a::len word"
  assumes "unat b < 2 ^ k" and "2 ^ k dvd unat a"
  shows "unat (a OR b) = unat a + unat b"
proof -
  from assms(1) have b: "take_bit k (unat b) = unat b" by (simp add: take_bit_nat_eq_self)
  from assms(2) obtain q where a: "unat a = push_bit k q" by (auto simp: push_bit_eq_mult ac_simps)
  have "push_bit k q + take_bit k (unat b) = push_bit k q OR take_bit k (unat b)"
    by (rule disjunctive_add) (auto simp: bit_simps)
  with a b show ?thesis by (simp add: unsigned_or_eq)
qed

lemma unat_push_bit:
  fixes a :: "'a::len word"
  assumes "unat a * 2 ^ k < 2 ^ LENGTH('a)"
  shows "unat (push_bit k a) = unat a * 2 ^ k"
  using assms by (subst unsigned_push_bit_eq) (simp add: push_bit_eq_mult take_bit_nat_eq_self)

lemma unat_drop_bit: "unat (drop_bit n w) = unat w div 2 ^ n"
  by (simp add: unat_drop_bit_eq drop_bit_nat_def)

lemma unat_and_not_mask: "unat (w AND NOT (mask n) :: 'a::len word) = unat w div 2 ^ n * 2 ^ n"
proof -
  have "w AND NOT (mask n) = push_bit n (drop_bit n w)"
    by (rule bit_word_eqI) (auto simp: bit_simps)
  moreover have "unat w div 2 ^ n * 2 ^ n < 2 ^ LENGTH('a)"
    by (rule order_le_less_trans [OF div_times_less_eq_dividend]) simp
  ultimately show ?thesis by (simp add: unat_push_bit unat_drop_bit)
qed

text \<open>The guard \<open>b > UINT64_MAX - a\<close> of the sources: it holds exactly when the sum does not fit.\<close>

lemma unat_UINT64_MAX_minus: "unat (UINT64_MAX - a) = 2 ^ 64 - 1 - unat a" for a :: u64
proof -
  have "unat a < 2 ^ 64" using unsigned_less [of a] by simp
  then have "a \<le> UINT64_MAX" by (simp add: word_le_nat_alt)
  then show ?thesis by (simp add: unat_sub)
qed

lemma u64_sum_overflows: "UINT64_MAX - a < b \<longleftrightarrow> 2 ^ 64 \<le> unat a + unat b" for a b :: u64
proof -
  have "unat a < 2 ^ 64" using unsigned_less [of a] by simp
  then show ?thesis unfolding word_less_nat_alt unat_UINT64_MAX_minus by linarith
qed

lemma unat_u64_add: "unat a + unat b < 2 ^ 64 \<Longrightarrow> unat (a + b) = unat a + unat b" for a b :: u64
  by (subst unat_add_lem [THEN iffD1]) simp_all

text \<open>The guard \<open>w AND (w - 1)\<close> of the sources is the test for a power of two, and rounding up uses the mask below it.\<close>

lemma unat_power_of_two: "k < LENGTH('a) \<Longrightarrow> unat (2 ^ k :: 'a::len word) = 2 ^ k"
proof -
  assume "k < LENGTH('a)"
  then have "(2 :: nat) ^ k < 2 ^ LENGTH('a)" by simp
  then have "unat (of_nat (2 ^ k) :: 'a word) = 2 ^ k"
    unfolding unsigned_of_nat by (simp add: take_bit_nat_eq_self)
  then show ?thesis by simp
qed

lemma power_of_two_guard:
  fixes w :: "'a::len word"
  assumes "w \<noteq> 0" "w AND (w - 1) = 0"
  obtains k where "k < LENGTH('a)" "w = 2 ^ k" "unat w = 2 ^ k"
proof -
  have pos: "0 < unat w" using assms(1) by (simp add: unat_gt_0)
  obtain k where k: "2 ^ k \<le> unat w" "unat w < 2 ^ Suc k" using ex_power_ivl1 [of 2 "unat w"] pos by auto
  have "(2 :: nat) ^ k < 2 ^ LENGTH('a)" using k(1) unsigned_less [of w] by (rule le_less_trans)
  then have len: "k < LENGTH('a)" by simp
  have top: "bit v k" if "2 ^ k \<le> unat v" "unat v < 2 ^ Suc k" for v :: "'a word"
  proof -
    have "unat v div 2 ^ k = 1" using that by (intro div_nat_eqI) auto
    then have "bit (unat v) k" by (simp add: bit_iff_odd)
    then show ?thesis by (simp add: bit_unsigned_iff)
  qed
  have "unat w = 2 ^ k"
  proof (rule ccontr)
    assume ne: "unat w \<noteq> 2 ^ k"
    have minus: "unat (w - 1) = unat w - 1" using assms(1) by (rule unat_minus_one)
    have "bit (w - 1) k" "bit w k" using k ne minus by (auto intro!: top)
    then have "bit (w AND (w - 1)) k" by (simp add: bit_and_iff)
    with assms(2) show False by simp
  qed
  moreover from this have "w = 2 ^ k" using unat_power_of_two [OF len] by (simp add: word_unat_eq_iff)
  ultimately show ?thesis using len that by blast
qed

lemma align_up_least:
  fixes s c d :: nat
  assumes "0 < d"
  defines "up \<equiv> (s + (d - 1)) div d * d"
  shows "d dvd up" "s \<le> up" "d dvd c \<Longrightarrow> s \<le> c \<Longrightarrow> up \<le> c" "up \<le> s + (d - 1)"
proof -
  show "d dvd up" "up \<le> s + (d - 1)" by (simp_all add: up_def)
  have "s + (d - 1) < up + d" using assms(1) unfolding up_def by (metis add.commute div_mult_mod_eq mod_less_divisor nat_add_left_cancel_less)
  then show "s \<le> up" by linarith
  assume "d dvd c" "s \<le> c"
  then obtain q where q: "c = q * d" by (metis dvd_def mult.commute)
  have "(s + (d - 1)) div d < Suc q"
    using \<open>s \<le> c\<close> assms(1) by (subst div_less_iff_less_mult) (auto simp: q)
  then show "up \<le> c" unfolding up_def q by (intro mult_le_mono1) simp
qed

lemma unat_align_up:
  fixes w :: "'a::len word"
  assumes "unat w + (2 ^ k - 1) < 2 ^ LENGTH('a)" "k < LENGTH('a)"
  shows "unat ((w + (2 ^ k - 1)) AND NOT (2 ^ k - 1)) = (unat w + (2 ^ k - 1)) div 2 ^ k * 2 ^ k"
proof -
  have mask': "(2 ^ k - 1 :: 'a word) = mask k" by (simp add: mask_eq_exp_minus_1)
  have "unat (mask k :: 'a word) = 2 ^ k - 1"
    using unat_minus_one [of "2 ^ k :: 'a word"] assms(2) unat_power_of_two [OF assms(2)]
    unfolding mask' [symmetric] by (metis power_not_zero unat_0 zero_neq_numeral)
  with assms(1) have "unat (w + mask k) = unat w + (2 ^ k - 1)" by (subst unat_add_lem [THEN iffD1]) simp_all
  then show ?thesis by (simp add: mask' unat_and_not_mask)
qed

end
