(* ===== verification/Zi_Bytes.thy ===== *)
theory Zi_Bytes
  imports Zi_Prelude
begin

text \<open>
  The freestanding runtime: little-endian accessors and memory primitives of
  \<^verbatim>\<open>kernel/runtime/byte_order.c\<close>, and the bitwise CRC loops of \<^verbatim>\<open>crc32.c\<close> and \<^verbatim>\<open>crc32c.c\<close>.
  The locale \<open>le_word\<close> is the contract the on-disk codecs rely on (what a read returns after writes
  elsewhere); the locale \<open>checksum\<close> is the contract of a byte-wise checksum. Both are interpreted on
  the definitions of this theory.
\<close>

section \<open>Little-endian accessors\<close>

text \<open>A \<^verbatim>\<open>data\<close> pointer is a buffer with an offset; \<^verbatim>\<open>data[i]\<close> is the element at \<open>at + i\<close>.\<close>

definition zi_read_u16_le :: "bytes \<Rightarrow> nat \<Rightarrow> u16" where
  "zi_read_u16_le data at =
     (ucast (data ! at) :: u16) OR push_bit 8 (ucast (data ! (at + 1)))"

definition zi_read_u32_le :: "bytes \<Rightarrow> nat \<Rightarrow> u32" where
  "zi_read_u32_le data at =
     (ucast (data ! at) :: u32) OR push_bit 8 (ucast (data ! (at + 1)))
       OR push_bit 16 (ucast (data ! (at + 2))) OR push_bit 24 (ucast (data ! (at + 3)))"

definition zi_read_u64_le :: "bytes \<Rightarrow> nat \<Rightarrow> u64" where
  "zi_read_u64_le data at =
     (let low = (ucast (zi_read_u32_le data at) :: u64);
          high = ucast (zi_read_u32_le data (at + 4))
      in low OR push_bit 32 high)"

definition zi_write_u16_le :: "bytes \<Rightarrow> nat \<Rightarrow> u16 \<Rightarrow> bytes" where
  "zi_write_u16_le data at value =
     data[at := ucast (value AND 0xff), at + 1 := ucast (drop_bit 8 value AND 0xff)]"

definition zi_write_u32_le :: "bytes \<Rightarrow> nat \<Rightarrow> u32 \<Rightarrow> bytes" where
  "zi_write_u32_le data at value =
     data[at := ucast (value AND 0xff),
          at + 1 := ucast (drop_bit 8 value AND 0xff),
          at + 2 := ucast (drop_bit 16 value AND 0xff),
          at + 3 := ucast (drop_bit 24 value AND 0xff)]"

definition zi_write_u64_le :: "bytes \<Rightarrow> nat \<Rightarrow> u64 \<Rightarrow> bytes" where
  "zi_write_u64_le data at value =
     zi_write_u32_le
       (zi_write_u32_le data at (ucast (value AND 0xffffffff)))
       (at + 4) (ucast (drop_bit 32 value))"

section \<open>Memory primitives\<close>

function zi_memory_zero_loop :: "bytes \<Rightarrow> nat \<Rightarrow> nat \<Rightarrow> nat \<Rightarrow> bytes" where
  "zi_memory_zero_loop memory at len index =
     (if index < len then zi_memory_zero_loop (memory[at + index := 0]) at len (Suc index)
      else memory)"
  by pat_completeness auto
termination
  by (relation "measure (\<lambda>(memory, at, len, index). len - index)") auto

definition zi_memory_zero :: "bytes \<Rightarrow> nat \<Rightarrow> nat \<Rightarrow> bytes" where
  "zi_memory_zero memory at len = zi_memory_zero_loop memory at len 0"

function zi_memory_copy_loop :: "bytes \<Rightarrow> nat \<Rightarrow> bytes \<Rightarrow> nat \<Rightarrow> nat \<Rightarrow> nat \<Rightarrow> bytes" where
  "zi_memory_copy_loop destination dst source src len index =
     (if index < len
      then zi_memory_copy_loop (destination[dst + index := source ! (src + index)])
             dst source src len (Suc index)
      else destination)"
  by pat_completeness auto
termination
  by (relation "measure (\<lambda>(destination, dst, source, src, len, index). len - index)") auto

definition zi_memory_copy :: "bytes \<Rightarrow> nat \<Rightarrow> bytes \<Rightarrow> nat \<Rightarrow> nat \<Rightarrow> bytes" where
  "zi_memory_copy destination dst source src len =
     zi_memory_copy_loop destination dst source src len 0"

function zi_memory_compare_loop :: "bytes \<Rightarrow> bytes \<Rightarrow> nat \<Rightarrow> nat \<Rightarrow> int" where
  "zi_memory_compare_loop left right len index =
     (if index < len
      then if left ! index < right ! index then -1
           else if left ! index > right ! index then 1
           else zi_memory_compare_loop left right len (Suc index)
      else 0)"
  by pat_completeness auto
termination
  by (relation "measure (\<lambda>(left, right, len, index). len - index)") auto

definition zi_memory_compare :: "bytes \<Rightarrow> bytes \<Rightarrow> nat \<Rightarrow> int" where
  "zi_memory_compare left right len = zi_memory_compare_loop left right len 0"

declare zi_memory_zero_loop.simps [simp del]
declare zi_memory_copy_loop.simps [simp del]
declare zi_memory_compare_loop.simps [simp del]

section \<open>CRC-32 and CRC-32C\<close>

definition crc32_bit :: "u32 \<Rightarrow> u32" where
  "crc32_bit crc = (let mask = - (crc AND 1) in drop_bit 1 crc XOR (0xedb88320 AND mask))"

definition crc32_byte :: "u32 \<Rightarrow> byte \<Rightarrow> u32" where
  "crc32_byte crc b = (crc32_bit ^^ 8) (crc XOR ucast b)"

definition zi_crc32 :: "u32 \<Rightarrow> bytes option \<Rightarrow> u32" where
  "zi_crc32 seed data =
     (case data of None \<Rightarrow> 0 | Some bs \<Rightarrow> NOT (foldl crc32_byte (NOT seed) bs))"

definition crc32c_bit :: "u32 \<Rightarrow> u32" where
  "crc32c_bit crc = (let mask = 0 - (crc AND 1) in drop_bit 1 crc XOR (0x82f63b78 AND mask))"

definition crc32c_byte :: "u32 \<Rightarrow> byte \<Rightarrow> u32" where
  "crc32c_byte crc b = (crc32c_bit ^^ 8) (crc XOR ucast b)"

definition zi_crc32c :: "u32 \<Rightarrow> bytes \<Rightarrow> u32" where
  "zi_crc32c initial_value data = NOT (foldl crc32c_byte (NOT initial_value) data)"

section \<open>The contract of the accessors\<close>

text \<open>A writer of a fixed number of bytes keeps the buffer's length and every byte outside its field.\<close>

locale le_region =
  fixes wr :: "bytes \<Rightarrow> nat \<Rightarrow> 'w \<Rightarrow> bytes" and n :: nat
  assumes length_wr: "length (wr bs k v) = length bs"
    and nth_wr_outside: "i < k \<or> k + n \<le> i \<Longrightarrow> wr bs k v ! i = bs ! i"

text \<open>A codec adds a reader of the same field that depends on the field's bytes only.\<close>

locale le_word = le_region wr n
  for wr :: "bytes \<Rightarrow> nat \<Rightarrow> 'w \<Rightarrow> bytes" and n :: nat +
  fixes rd :: "bytes \<Rightarrow> nat \<Rightarrow> 'w"
  assumes rd_wr: "k + n \<le> length bs \<Longrightarrow> rd (wr bs k v) k = v"
    and rd_cong: "(\<And>i. i < n \<Longrightarrow> as ! (j + i) = bs ! (k + i)) \<Longrightarrow> rd as j = rd bs k"
begin

lemma rd_other:
  assumes "le_region wr' n'" and "k + n \<le> j \<or> j + n' \<le> k"
  shows "rd (wr' bs j v) k = rd bs k"
proof (rule rd_cong)
  fix i assume "i < n"
  with assms(2) have "k + i < j \<or> j + n' \<le> k + i" by linarith
  with assms(1) show "wr' bs j v ! (k + i) = bs ! (k + i)"
    by (rule le_region.nth_wr_outside)
qed

lemma rd_take:
  assumes "k + n \<le> m"
  shows "rd (take m bs) k = rd bs k"
  by (rule rd_cong) (use assms in simp)

end

lemma ucast_low_byte [simp]:
  "(ucast (v AND 0xff :: u16) :: byte) = ucast v"
  "(ucast (w AND 0xff :: u32) :: byte) = ucast w"
proof -
  have ff: "(0xff :: u16) = mask 8" "(0xff :: u32) = mask 8" by (simp_all add: mask_eq_exp_minus_1)
  show "(ucast (v AND 0xff :: u16) :: byte) = ucast v"
    unfolding ff by (rule bit_word_eqI) (auto simp: bit_simps)
  show "(ucast (w AND 0xff :: u32) :: byte) = ucast w"
    unfolding ff by (rule bit_word_eqI) (auto simp: bit_simps)
qed

lemma ucast_low_half [simp]: "(ucast (v AND 0xffffffff :: u64) :: u32) = ucast v"
proof -
  have ff: "(0xffffffff :: u64) = mask 32" by (simp add: mask_eq_exp_minus_1)
  show ?thesis unfolding ff by (rule bit_word_eqI) (auto simp: bit_simps)
qed

lemma word_bytes_16: "(ucast (ucast v :: byte) :: u16) OR push_bit 8 (ucast (ucast (drop_bit 8 v) :: byte)) = v"
proof (rule bit_word_eqI)
  fix i assume "i < LENGTH(16)"
  then show "bit ((ucast (ucast v :: byte) :: u16) OR push_bit 8 (ucast (ucast (drop_bit 8 v) :: byte))) i = bit v i"
    by (cases "i < 8") (auto simp: bit_simps)
qed

lemma word_bytes_32: "(ucast (ucast v :: byte) :: u32) OR
    push_bit 8 (ucast (ucast (drop_bit 8 v) :: byte)) OR
    push_bit 16 (ucast (ucast (drop_bit 16 v) :: byte)) OR
    push_bit 24 (ucast (ucast (drop_bit 24 v) :: byte)) = v"
proof (rule bit_word_eqI)
  fix i assume "i < LENGTH(32)"
  then consider "i < 8" | "8 \<le> i" "i < 16" | "16 \<le> i" "i < 24" | "24 \<le> i" "i < 32"
    by fastforce
  then show "bit ((ucast (ucast v :: byte) :: u32) OR
    push_bit 8 (ucast (ucast (drop_bit 8 v) :: byte)) OR
    push_bit 16 (ucast (ucast (drop_bit 16 v) :: byte)) OR
    push_bit 24 (ucast (ucast (drop_bit 24 v) :: byte))) i = bit v i"
    by cases (auto simp: bit_simps)
qed

lemma word_halves_64: "(ucast (ucast v :: u32) :: u64) OR
    push_bit 32 (ucast (ucast (drop_bit 32 v) :: u32)) = v"
proof (rule bit_word_eqI)
  fix i assume "i < LENGTH(64)"
  then show "bit ((ucast (ucast v :: u32) :: u64) OR
    push_bit 32 (ucast (ucast (drop_bit 32 v) :: u32))) i = bit v i"
    by (cases "i < 32") (auto simp: bit_simps)
qed

interpretation u16_le: le_word zi_write_u16_le 2 zi_read_u16_le
proof
  fix bs k i and v :: u16
  show "length (zi_write_u16_le bs k v) = length bs" by (simp add: zi_write_u16_le_def)
  show "i < k \<or> k + 2 \<le> i \<Longrightarrow> zi_write_u16_le bs k v ! i = bs ! i"
    by (auto simp: zi_write_u16_le_def)
  show "k + 2 \<le> length bs \<Longrightarrow> zi_read_u16_le (zi_write_u16_le bs k v) k = v"
    by (simp add: zi_write_u16_le_def zi_read_u16_le_def word_bytes_16)
next
  fix as bs j k
  assume "\<And>i. i < 2 \<Longrightarrow> as ! (j + i) = (bs ! (k + i) :: byte)"
  from this [of 0] this [of 1] show "zi_read_u16_le as j = zi_read_u16_le bs k"
    by (simp add: zi_read_u16_le_def)
qed

interpretation u32_le: le_word zi_write_u32_le 4 zi_read_u32_le
proof
  fix bs k i and v :: u32
  show "length (zi_write_u32_le bs k v) = length bs" by (simp add: zi_write_u32_le_def)
  show "i < k \<or> k + 4 \<le> i \<Longrightarrow> zi_write_u32_le bs k v ! i = bs ! i"
    by (auto simp: zi_write_u32_le_def)
  show "k + 4 \<le> length bs \<Longrightarrow> zi_read_u32_le (zi_write_u32_le bs k v) k = v"
    by (simp add: zi_write_u32_le_def zi_read_u32_le_def word_bytes_32)
next
  fix as bs j k
  assume "\<And>i. i < 4 \<Longrightarrow> as ! (j + i) = (bs ! (k + i) :: byte)"
  from this [of 0] this [of 1] this [of 2] this [of 3]
  show "zi_read_u32_le as j = zi_read_u32_le bs k"
    by (simp add: zi_read_u32_le_def)
qed

interpretation u64_le: le_word zi_write_u64_le 8 zi_read_u64_le
proof
  fix bs k i and v :: u64
  show "length (zi_write_u64_le bs k v) = length bs"
    by (simp add: zi_write_u64_le_def u32_le.length_wr)
  show "i < k \<or> k + 8 \<le> i \<Longrightarrow> zi_write_u64_le bs k v ! i = bs ! i"
    by (auto simp: zi_write_u64_le_def u32_le.nth_wr_outside)
  show "k + 8 \<le> length bs \<Longrightarrow> zi_read_u64_le (zi_write_u64_le bs k v) k = v"
    by (simp add: zi_write_u64_le_def zi_read_u64_le_def u32_le.rd_wr u32_le.length_wr
        u32_le.rd_other [OF u32_le.le_region_axioms] word_halves_64)
next
  fix as bs j k
  assume eq: "\<And>i. i < 8 \<Longrightarrow> as ! (j + i) = (bs ! (k + i) :: byte)"
  have "zi_read_u32_le as j = zi_read_u32_le bs k"
    by (rule u32_le.rd_cong) (use eq in simp)
  moreover have "zi_read_u32_le as (j + 4) = zi_read_u32_le bs (k + 4)"
    by (rule u32_le.rd_cong) (use eq [of "4 + _"] in \<open>simp add: add.assoc\<close>)
  ultimately show "zi_read_u64_le as j = zi_read_u64_le bs k"
    by (simp add: zi_read_u64_le_def)
qed

text \<open>The rewrite rules every codec proof uses.\<close>

lemmas le_length [le_simps] = u16_le.length_wr u32_le.length_wr u64_le.length_wr

lemmas le_same [le_simps] = u16_le.rd_wr u32_le.rd_wr u64_le.rd_wr

lemmas le_other [le_simps] =
  u16_le.rd_other [OF u16_le.le_region_axioms] u16_le.rd_other [OF u32_le.le_region_axioms]
  u16_le.rd_other [OF u64_le.le_region_axioms]
  u32_le.rd_other [OF u16_le.le_region_axioms] u32_le.rd_other [OF u32_le.le_region_axioms]
  u32_le.rd_other [OF u64_le.le_region_axioms]
  u64_le.rd_other [OF u16_le.le_region_axioms] u64_le.rd_other [OF u32_le.le_region_axioms]
  u64_le.rd_other [OF u64_le.le_region_axioms]

lemmas le_nth [le_simps] =
  u16_le.nth_wr_outside u32_le.nth_wr_outside u64_le.nth_wr_outside

section \<open>Memory primitives meet their descriptions\<close>

lemma length_zi_memory_zero_loop: "length (zi_memory_zero_loop bs k len i) = length bs"
  by (induction bs k len i rule: zi_memory_zero_loop.induct) (subst zi_memory_zero_loop.simps, simp)

lemma nth_zi_memory_zero_loop:
  "zi_memory_zero_loop bs k len i ! j =
     (if k + i \<le> j \<and> j < k + len \<and> j < length bs then 0 else bs ! j)"
proof (induction bs k len i rule: zi_memory_zero_loop.induct)
  case (1 bs k len i)
  then show ?case
    by (subst zi_memory_zero_loop.simps) (auto simp: nth_list_update list_update_beyond)
qed

lemma length_zi_memory_zero [le_simps]: "length (zi_memory_zero bs k len) = length bs"
  by (simp add: zi_memory_zero_def length_zi_memory_zero_loop)

lemma nth_zi_memory_zero:
  "zi_memory_zero bs k len ! j =
     (if k \<le> j \<and> j < k + len \<and> j < length bs then 0 else bs ! j)"
  by (simp add: zi_memory_zero_def nth_zi_memory_zero_loop)

lemma length_zi_memory_copy_loop:
  "length (zi_memory_copy_loop d k src m len i) = length d"
  by (induction d k src m len i rule: zi_memory_copy_loop.induct)
    (subst zi_memory_copy_loop.simps, simp)

lemma nth_zi_memory_copy_loop:
  "zi_memory_copy_loop d k src m len i ! j =
     (if k + i \<le> j \<and> j < k + len \<and> j < length d then src ! (m + (j - k)) else d ! j)"
proof (induction d k src m len i rule: zi_memory_copy_loop.induct)
  case (1 d k src m len i)
  show ?case
  proof (cases "j = k + i")
    case True
    with 1 show ?thesis
      by (subst zi_memory_copy_loop.simps) (auto simp: nth_list_update list_update_beyond)
  next
    case False
    with 1 show ?thesis
      by (subst zi_memory_copy_loop.simps) auto
  qed
qed

lemma length_zi_memory_copy [le_simps]: "length (zi_memory_copy d k src m len) = length d"
  by (simp add: zi_memory_copy_def length_zi_memory_copy_loop)

lemma nth_zi_memory_copy:
  "zi_memory_copy d k src m len ! j =
     (if k \<le> j \<and> j < k + len \<and> j < length d then src ! (m + (j - k)) else d ! j)"
  by (simp add: zi_memory_copy_def nth_zi_memory_copy_loop)

lemma zi_memory_copy_field:
  assumes "k + len \<le> length d" and "m + len \<le> length src"
  shows "take len (drop k (zi_memory_copy d k src m len)) = take len (drop m src)"
  by (rule nth_equalityI) (use assms in \<open>auto simp: nth_zi_memory_copy le_simps\<close>)

text \<open>The comparison loop returns at the first difference, with the sign of that difference.\<close>

lemma zi_memory_compare_loop_0:
  "zi_memory_compare_loop l r len i = 0 \<longleftrightarrow> (\<forall>j. i \<le> j \<and> j < len \<longrightarrow> l ! j = r ! j)"
proof (induction l r len i rule: zi_memory_compare_loop.induct)
  case (1 l r len i)
  show ?case
  proof (cases "i < len \<and> l ! i = r ! i")
    case True
    then have "(\<forall>j. i \<le> j \<and> j < len \<longrightarrow> l ! j = r ! j) \<longleftrightarrow>
        (\<forall>j. Suc i \<le> j \<and> j < len \<longrightarrow> l ! j = r ! j)"
      by (metis Suc_leD not_less_eq_eq le_antisym)
    with True "1.IH" show ?thesis
      by (subst zi_memory_compare_loop.simps) simp
  next
    case False
    then show ?thesis
      by (subst zi_memory_compare_loop.simps) (auto simp: not_less_iff_gr_or_eq)
  qed
qed

lemma zi_memory_compare_loop_neg:
  "zi_memory_compare_loop r l len i = - zi_memory_compare_loop l r len i"
proof (induction l r len i rule: zi_memory_compare_loop.induct)
  case (1 l r len i)
  then show ?case
    by (subst (1 2) zi_memory_compare_loop.simps) auto
qed

lemma zi_memory_compare_loop_range: "zi_memory_compare_loop l r len i \<in> {-1, 0, 1}"
proof (induction l r len i rule: zi_memory_compare_loop.induct)
  case (1 l r len i)
  then show ?case
    by (subst zi_memory_compare_loop.simps) auto
qed

lemma zi_memory_compare_loop_less:
  "zi_memory_compare_loop l r len i = -1 \<longleftrightarrow>
     (\<exists>k. i \<le> k \<and> k < len \<and> l ! k < r ! k \<and> (\<forall>j. i \<le> j \<and> j < k \<longrightarrow> l ! j = r ! j))"
  proof (induction l r len i rule: zi_memory_compare_loop.induct)
  case (1 l r len i)
  let ?R = "\<lambda>i. \<exists>k. i \<le> k \<and> k < len \<and> l ! k < r ! k \<and> (\<forall>j. i \<le> j \<and> j < k \<longrightarrow> l ! j = r ! j)"
  consider "\<not> i < len" | "i < len" "l ! i < r ! i" | "i < len" "r ! i < l ! i"
    | (eq) "i < len" "l ! i = r ! i"
    using linorder_less_linear by blast
  then show ?case
  proof cases
    case eq
    have "?R i \<longleftrightarrow> ?R (Suc i)"
    proof
      assume "?R i"
      then obtain k where k: "i \<le> k" "k < len" "l ! k < r ! k" "\<forall>j. i \<le> j \<and> j < k \<longrightarrow> l ! j = r ! j"
        by blast
      with eq have "Suc i \<le> k" by (metis le_neq_implies_less Suc_leI less_irrefl)
      with k show "?R (Suc i)" by (meson Suc_leD)
    next
      assume "?R (Suc i)"
      then obtain k where k: "Suc i \<le> k" "k < len" "l ! k < r ! k"
        "\<forall>j. Suc i \<le> j \<and> j < k \<longrightarrow> l ! j = r ! j" by blast
      with eq have "\<forall>j. i \<le> j \<and> j < k \<longrightarrow> l ! j = r ! j"
        by (metis le_neq_implies_less Suc_leI)
      with k show "?R i" by (meson Suc_leD)
    qed
    with eq "1.IH" show ?thesis
      by (subst zi_memory_compare_loop.simps) simp
  next
    assume "i < len" and gt: "r ! i < l ! i"
    then have "\<not> ?R i" by (metis le_neq_implies_less order_refl less_irrefl order_less_asym)
    with \<open>i < len\<close> gt show ?thesis
      by (subst zi_memory_compare_loop.simps) auto
  qed (subst zi_memory_compare_loop.simps, fastforce)+
qed

section \<open>Checksums\<close>

text \<open>
  What the storage code relies on: a checksum can be continued over a second region, and no change
  of a single byte goes unnoticed.
\<close>

locale checksum =
  fixes step :: "u32 \<Rightarrow> byte \<Rightarrow> u32" and total :: "u32 \<Rightarrow> bytes \<Rightarrow> u32"
  assumes total_fold: "total s bs = NOT (foldl step (NOT s) bs)"
    and step_state: "step c b = step d b \<Longrightarrow> c = d"
    and step_byte: "step c a = step c b \<Longrightarrow> a = b"
begin

lemma total_append: "total (total s as) bs = total s (as @ bs)"
  by (simp add: total_fold)

lemma foldl_state: "foldl step c bs = foldl step d bs \<Longrightarrow> c = d"
  by (induction bs arbitrary: c d) (auto dest: step_state)

lemma total_detects:
  assumes "i < length bs" and "b \<noteq> bs ! i"
  shows "total s (bs[i := b]) \<noteq> total s bs"
proof
  assume "total s (bs[i := b]) = total s bs"
  moreover have "bs = take i bs @ bs ! i # drop (Suc i) bs"
    using assms(1) by (rule id_take_nth_drop)
  moreover have "bs[i := b] = take i bs @ b # drop (Suc i) bs"
    using assms(1) by (rule upd_conv_take_nth_drop)
  ultimately have "foldl step (NOT s) (take i bs @ b # drop (Suc i) bs) =
      foldl step (NOT s) (take i bs @ bs ! i # drop (Suc i) bs)"
    by (metis total_fold bit.double_compl)
  then have "step (foldl step (NOT s) (take i bs)) b = step (foldl step (NOT s) (take i bs)) (bs ! i)"
    by (auto dest: foldl_state)
  with assms(2) show False by (auto dest: step_byte)
qed

end

lemma xor_cancel_left: "(c :: 'a::len word) XOR x = c XOR y \<Longrightarrow> x = y"
  by (metis xor.assoc xor_self_eq xor.left_neutral)

lemma xor_cancel_right: "(x :: 'a::len word) XOR c = y XOR c \<Longrightarrow> x = y"
  by (metis xor_cancel_left xor.commute)

text \<open>One bit of either CRC loop loses nothing, because the top bit of the polynomial is set.\<close>

lemma crc_bit_inj:
  fixes c d poly :: u32
  assumes poly: "bit poly 31"
    and eq: "drop_bit 1 c XOR (poly AND - (c AND 1)) = drop_bit 1 d XOR (poly AND - (d AND 1))"
  shows "c = d"
proof -
  have mask: "- (x AND 1) = (if odd x then -1 else 0)" for x :: u32
    by (simp add: and_one_eq odd_iff_mod_2_eq_one even_iff_mod_2_eq_zero)
  have top: "bit (drop_bit 1 x XOR (poly AND - (x AND 1))) 31 = odd x" for x :: u32
    using poly by (auto simp: mask bit_simps dest: bit_imp_le_length)
  from top [of c] top [of d] eq have parity: "odd c = odd d" by simp
  with eq have "drop_bit 1 c = drop_bit 1 d" by (auto simp: mask split: if_splits dest: xor_cancel_right)
  then have "bit c (Suc i) = bit d (Suc i)" for i
    by (metis bit_drop_bit_eq comp_apply plus_1_eq_Suc)
  with parity have "bit c i = bit d i" for i
    by (cases i) (simp_all add: bit_0)
  then show ?thesis by (simp add: bit_eq_iff)
qed

lemma inj_funpow_eq:
  fixes f :: "'a \<Rightarrow> 'a"
  assumes "\<And>x y. f x = f y \<Longrightarrow> x = y" and "(f ^^ n) x = (f ^^ n) y"
  shows "x = y"
  using assms(2)
proof (induction n)
  case (Suc n)
  then have "f ((f ^^ n) x) = f ((f ^^ n) y)" by simp
  then have "(f ^^ n) x = (f ^^ n) y" by (rule assms(1))
  then show ?case by (rule Suc.IH)
qed simp

lemma crc32_bit_inj: "crc32_bit c = crc32_bit d \<Longrightarrow> c = d"
  by (rule crc_bit_inj [of "0xedb88320"]) (simp_all add: crc32_bit_def)

lemma crc32c_bit_inj: "crc32c_bit c = crc32c_bit d \<Longrightarrow> c = d"
  by (rule crc_bit_inj [of "0x82f63b78"]) (simp_all add: crc32c_bit_def)

lemma ucast_byte_inj:
  assumes "(ucast (a :: byte) :: u32) = ucast b"
  shows "a = b"
proof -
  have cast: "(ucast (ucast x :: u32) :: byte) = x" for x
    by (rule bit_word_eqI) (auto simp: bit_simps)
  from assms have "(ucast (ucast a :: u32) :: byte) = ucast (ucast b :: u32)" by simp
  then show ?thesis by (simp only: cast)
qed

interpretation crc32: checksum crc32_byte "\<lambda>s bs. zi_crc32 s (Some bs)"
proof
  show "zi_crc32 s (Some bs) = NOT (foldl crc32_byte (NOT s) bs)" for s bs
    by (simp add: zi_crc32_def)
  show "crc32_byte c b = crc32_byte d b \<Longrightarrow> c = d" for c d b
    unfolding crc32_byte_def
    by (rule xor_cancel_right, rule inj_funpow_eq [OF crc32_bit_inj])
  show "crc32_byte c a = crc32_byte c b \<Longrightarrow> a = b" for c a b
    unfolding crc32_byte_def
    by (rule ucast_byte_inj, rule xor_cancel_left, rule inj_funpow_eq [OF crc32_bit_inj])
qed

interpretation crc32c: checksum crc32c_byte zi_crc32c
proof
  show "zi_crc32c s bs = NOT (foldl crc32c_byte (NOT s) bs)" for s bs
    by (simp add: zi_crc32c_def)
  show "crc32c_byte c b = crc32c_byte d b \<Longrightarrow> c = d" for c d b
    unfolding crc32c_byte_def
    by (rule xor_cancel_right, rule inj_funpow_eq [OF crc32c_bit_inj])
  show "crc32c_byte c a = crc32c_byte c b \<Longrightarrow> a = b" for c a b
    unfolding crc32c_byte_def
    by (rule ucast_byte_inj, rule xor_cancel_left, rule inj_funpow_eq [OF crc32c_bit_inj])
qed

section \<open>Fields of buffers\<close>

lemma take_write_u32 [simp]: "m \<le> k \<Longrightarrow> take m (zi_write_u32_le bs k v) = take m bs"
  by (rule nth_equalityI) (auto simp: le_simps)

lemma drop_write_u32 [simp]: "k + 4 \<le> m \<Longrightarrow> drop m (zi_write_u32_le bs k v) = drop m bs"
  by (rule nth_equalityI) (auto simp: le_simps)

lemma zi_memory_compare_0: "zi_memory_compare l r len = 0 \<longleftrightarrow> (\<forall>i<len. l ! i = r ! i)"
  unfolding zi_memory_compare_def using zi_memory_compare_loop_0 [of l r len 0] by simp

text \<open>Reading a field outside a copied region is not affected by the copy.\<close>

lemma read_copy_other [simp]:
  "j + 2 \<le> k \<or> k + len \<le> j \<Longrightarrow> zi_read_u16_le (zi_memory_copy bs k src m len) j = zi_read_u16_le bs j"
  "j + 4 \<le> k \<or> k + len \<le> j \<Longrightarrow> zi_read_u32_le (zi_memory_copy bs k src m len) j = zi_read_u32_le bs j"
  "j + 8 \<le> k \<or> k + len \<le> j \<Longrightarrow> zi_read_u64_le (zi_memory_copy bs k src m len) j = zi_read_u64_le bs j"
  by ((rule u16_le.rd_cong u32_le.rd_cong u64_le.rd_cong; auto simp: nth_zi_memory_copy))+

end
