(* ===== verification/Zi_Unicode.thy ===== *)
theory Zi_Unicode
  imports Zi_Bytes
begin

text \<open>
  The UTF-8 codec of \<^verbatim>\<open>kernel/unicode/unicode.c\<close>: strict decoding of one scalar, validation of a
  whole text, encoding, transcoding to UTF-16 and the terminal's cell width. The decoder and the
  encoder are shown to be inverse to each other, so that the accepted texts are exactly the
  concatenations of shortest-form encodings of Unicode scalar values.
\<close>

section \<open>Definitions\<close>

record ZiUtf8DecodeResult =
  scalar :: u32
  consumed :: nat

definition zi_unicode_is_scalar :: "u32 \<Rightarrow> bool" where
  "zi_unicode_is_scalar value \<longleftrightarrow> value \<le> 0x10ffff \<and> \<not> (value \<ge> 0xd800 \<and> value \<le> 0xdfff)"

definition is_continuation :: "byte \<Rightarrow> bool" where
  "is_continuation b \<longleftrightarrow> b AND 0xc0 = 0x80"

text \<open>The dispatch on the lead byte: each branch rejects the text or yields a scalar and a length.\<close>

definition utf8_decode_lead :: "bytes \<Rightarrow> ZiUtf8DecodeResult result" where
  "utf8_decode_lead bytes =
     (let text_size = length bytes; first = bytes ! 0 in
      if first \<le> 0x7f then Inr \<lparr>scalar = ucast first, consumed = 1\<rparr>
      else if first \<ge> 0xc2 \<and> first \<le> 0xdf then
        if text_size < 2 \<or> \<not> is_continuation (bytes ! 1) then Inl ZI_STATUS_INVALID_ENCODING
        else Inr \<lparr>scalar = push_bit 6 (ucast (first AND 0x1f)) OR ucast (bytes ! 1 AND 0x3f),
                  consumed = 2\<rparr>
      else if first \<ge> 0xe0 \<and> first \<le> 0xef then
        if text_size < 3 \<or> \<not> is_continuation (bytes ! 1) \<or> \<not> is_continuation (bytes ! 2)
        then Inl ZI_STATUS_INVALID_ENCODING
        else if (first = 0xe0 \<and> bytes ! 1 < 0xa0) \<or> (first = 0xed \<and> bytes ! 1 \<ge> 0xa0)
        then Inl ZI_STATUS_INVALID_ENCODING
        else Inr \<lparr>scalar = push_bit 12 (ucast (first AND 0x0f)) OR
                            push_bit 6 (ucast (bytes ! 1 AND 0x3f)) OR
                            ucast (bytes ! 2 AND 0x3f),
                  consumed = 3\<rparr>
      else if first \<ge> 0xf0 \<and> first \<le> 0xf4 then
        if text_size < 4 \<or> \<not> is_continuation (bytes ! 1) \<or> \<not> is_continuation (bytes ! 2) \<or>
           \<not> is_continuation (bytes ! 3)
        then Inl ZI_STATUS_INVALID_ENCODING
        else if (first = 0xf0 \<and> bytes ! 1 < 0x90) \<or> (first = 0xf4 \<and> bytes ! 1 \<ge> 0x90)
        then Inl ZI_STATUS_INVALID_ENCODING
        else Inr \<lparr>scalar = push_bit 18 (ucast (first AND 0x07)) OR
                            push_bit 12 (ucast (bytes ! 1 AND 0x3f)) OR
                            push_bit 6 (ucast (bytes ! 2 AND 0x3f)) OR
                            ucast (bytes ! 3 AND 0x3f),
                  consumed = 4\<rparr>
      else Inl ZI_STATUS_INVALID_ENCODING)"

definition zi_utf8_decode :: "bytes option \<Rightarrow> ZiUtf8DecodeResult result" where
  "zi_utf8_decode text =
     (case text of
        None \<Rightarrow> Inl ZI_STATUS_INVALID_ARGUMENT
      | Some bytes \<Rightarrow>
          if bytes = [] then Inl ZI_STATUS_INVALID_ARGUMENT
          else case utf8_decode_lead bytes of
                 Inl status \<Rightarrow> Inl status
               | Inr result \<Rightarrow>
                   if \<not> zi_unicode_is_scalar (scalar result) then Inl ZI_STATUS_INVALID_ENCODING
                   else Inr result)"

text \<open>Every accepted sequence consumes between one and four bytes that are present, so scanning ends.\<close>

lemma zi_utf8_decode_consumed:
  assumes "zi_utf8_decode (Some bs) = Inr r"
  shows "1 \<le> consumed r" and "consumed r \<le> 4" and "consumed r \<le> length bs"
  using assms
  by (auto simp: zi_utf8_decode_def utf8_decode_lead_def Let_def Suc_le_eq
      split: if_splits sum.splits)

text \<open>The loop keeps \<^verbatim>\<open>text + offset\<close> as the remaining suffix of the text.\<close>

function zi_utf8_validate_loop :: "bytes \<Rightarrow> ZiStatus" where
  "zi_utf8_validate_loop rest =
     (if rest = [] then ZI_STATUS_SUCCESS
      else case zi_utf8_decode (Some rest) of
             Inl status \<Rightarrow> status
           | Inr result \<Rightarrow> zi_utf8_validate_loop (drop (consumed result) rest))"
  by pat_completeness auto
termination
  by (relation "measure length") (auto dest: zi_utf8_decode_consumed)

declare zi_utf8_validate_loop.simps [simp del]

definition zi_utf8_validate :: "bytes option \<Rightarrow> ZiStatus" where
  "zi_utf8_validate text =
     (case text of
        None \<Rightarrow> ZI_STATUS_INVALID_ARGUMENT
      | Some bytes \<Rightarrow> zi_utf8_validate_loop bytes)"

text \<open>
  \<^verbatim>\<open>output_capacity\<close> is \<open>None\<close> when \<^verbatim>\<open>output\<close> is \<^verbatim>\<open>NULL\<close>. The result is the status, the value
  stored to \<^verbatim>\<open>*out_size\<close> (if any) and the bytes stored to \<^verbatim>\<open>output\<close>.
\<close>

definition utf8_required_size :: "u32 \<Rightarrow> nat" where
  "utf8_required_size sc =
     (if sc \<le> 0x7f then 1 else if sc \<le> 0x7ff then 2 else if sc \<le> 0xffff then 3 else 4)"

definition utf8_bytes :: "u32 \<Rightarrow> bytes" where
  "utf8_bytes sc =
     (if utf8_required_size sc = 1 then [ucast sc]
      else if utf8_required_size sc = 2 then
        [ucast (0xc0 OR drop_bit 6 sc), ucast (0x80 OR (sc AND 0x3f))]
      else if utf8_required_size sc = 3 then
        [ucast (0xe0 OR drop_bit 12 sc), ucast (0x80 OR (drop_bit 6 sc AND 0x3f)),
         ucast (0x80 OR (sc AND 0x3f))]
      else
        [ucast (0xf0 OR drop_bit 18 sc), ucast (0x80 OR (drop_bit 12 sc AND 0x3f)),
         ucast (0x80 OR (drop_bit 6 sc AND 0x3f)), ucast (0x80 OR (sc AND 0x3f))])"

definition zi_utf8_encode :: "u32 \<Rightarrow> nat option \<Rightarrow> ZiStatus \<times> nat option \<times> bytes" where
  "zi_utf8_encode sc output_capacity =
     (if \<not> zi_unicode_is_scalar sc then (ZI_STATUS_INVALID_ARGUMENT, None, [])
      else let required_size = utf8_required_size sc in
        case output_capacity of
          None \<Rightarrow> (ZI_STATUS_BUFFER_TOO_SMALL, Some required_size, [])
        | Some capacity \<Rightarrow>
            if capacity < required_size then (ZI_STATUS_BUFFER_TOO_SMALL, Some required_size, [])
            else (ZI_STATUS_SUCCESS, Some required_size, utf8_bytes sc))"






definition zi_unicode_is_combining :: "u32 \<Rightarrow> bool" where
  "zi_unicode_is_combining sc \<longleftrightarrow>
     (sc \<ge> 0x0300 \<and> sc \<le> 0x036f) \<or> (sc \<ge> 0x1ab0 \<and> sc \<le> 0x1aff) \<or>
     (sc \<ge> 0x1dc0 \<and> sc \<le> 0x1dff) \<or> (sc \<ge> 0x20d0 \<and> sc \<le> 0x20ff) \<or>
     (sc \<ge> 0xfe20 \<and> sc \<le> 0xfe2f)"

definition is_wide :: "u32 \<Rightarrow> bool" where
  "is_wide sc \<longleftrightarrow>
     sc \<ge> 0x1100 \<and>
     (sc \<le> 0x115f \<or> sc = 0x2329 \<or> sc = 0x232a \<or>
      (sc \<ge> 0x2e80 \<and> sc \<le> 0xa4cf \<and> sc \<noteq> 0x303f) \<or>
      (sc \<ge> 0xac00 \<and> sc \<le> 0xd7a3) \<or> (sc \<ge> 0xf900 \<and> sc \<le> 0xfaff) \<or>
      (sc \<ge> 0xfe10 \<and> sc \<le> 0xfe19) \<or> (sc \<ge> 0xfe30 \<and> sc \<le> 0xfe6f) \<or>
      (sc \<ge> 0xff00 \<and> sc \<le> 0xff60) \<or> (sc \<ge> 0xffe0 \<and> sc \<le> 0xffe6) \<or>
      (sc \<ge> 0x1f300 \<and> sc \<le> 0x1faff) \<or> (sc \<ge> 0x20000 \<and> sc \<le> 0x3fffd))"

definition zi_unicode_cell_width :: "u32 \<Rightarrow> byte" where
  "zi_unicode_cell_width sc =
     (if \<not> zi_unicode_is_scalar sc \<or> sc = 0 then 0
      else if zi_unicode_is_combining sc then 0
      else if is_wide sc then 2
      else 1)"

section \<open>The codec in base 64\<close>

lemma unat_and_low:
  "unat (w AND 0x3f :: byte) = unat w mod 64" "unat (w AND 0x1f :: byte) = unat w mod 32"
  "unat (w AND 0x0f :: byte) = unat w mod 16" "unat (w AND 0x07 :: byte) = unat w mod 8"
  "unat (v AND 0x3f :: u32) = unat v mod 64" "unat (v AND 0x3ff :: u32) = unat v mod 1024"
  using unat_and_mask [of w 6] unat_and_mask [of w 5] unat_and_mask [of w 4] unat_and_mask [of w 3]
    unat_and_mask [of v 6] unat_and_mask [of v 10]
  by (simp_all add: mask_eq_exp_minus_1)

lemma unat_cast_down:
 "unat (ucast (v :: u32) :: byte) = unat v mod 256"
 "unat (ucast (v :: u32) :: u16) = unat v mod 65536"
  by (simp_all add: unsigned_ucast_eq take_bit_nat_def)

lemma unat_cast_up: "unat (ucast (b :: byte) :: u32) = unat b"
  using unsigned_less [of b, where 'a = nat] by (simp add: unsigned_ucast_eq take_bit_nat_eq_self)

lemma unat_byte_less: "unat (b :: byte) < 256"
  using unsigned_less [of b, where 'a = nat] by simp

lemma nat_div_64_eq_2: "(n :: nat) div 64 = 2 \<longleftrightarrow> 128 \<le> n \<and> n < 192"
proof
  assume "n div 64 = 2"
  then have "128 + n mod 64 = n" using div_mult_mod_eq [of n 64] by simp
  moreover have "n mod 64 < 64" by simp
  ultimately show "128 \<le> n \<and> n < 192" by (metis add_less_cancel_left le_add1 numeral_plus_numeral add_num_simps)
next
  assume "128 \<le> n \<and> n < 192"
  then show "n div 64 = 2" by (intro div_nat_eqI) auto
qed

lemma is_continuation_iff: "is_continuation b \<longleftrightarrow> 128 \<le> unat b \<and> unat b < 192"
proof -
  have "(0xc0 :: byte) = NOT (mask 6)" by (simp add: mask_eq_exp_minus_1)
  then have "unat (b AND 0xc0) = unat b div 64 * 64" using unat_and_not_mask [of b 6] by simp
  then have "is_continuation b \<longleftrightarrow> unat b div 64 = 2"
    by (simp add: is_continuation_def word_unat_eq_iff)
  then show ?thesis by (simp only: nat_div_64_eq_2)
qed

text \<open>
  Both directions of the codec are described by the base-64 digits of the scalar. The digits of the
  lead byte are bounded below so that the encoding is the shortest one.
\<close>

lemma digits_64:
  fixes n :: nat
  assumes "n = 64 * x + r" and "r < 64"
  shows "n div 64 = x" and "n mod 64 = r"
  using assms by simp_all

lemma div_4096: "(n :: nat) div 4096 = n div 64 div 64"
  by (simp add: div_mult2_eq [symmetric])

lemma div_262144: "(n :: nat) div 262144 = n div 64 div 64 div 64"
  by (simp add: div_mult2_eq [symmetric])

lemmas utf8_unat =
  unat_and_low unat_cast_down unat_cast_up unat_drop_bit div_4096 div_262144

lemma ucast_of_unat:
  assumes "unat (v :: u32) = k" and "k < 256"
  shows "(ucast v :: byte) = of_nat k"
  using assms by (simp add: word_unat_eq_iff unat_cast_down unat_of_nat)

lemma utf8_bytes_1:
  assumes "unat sc < 128"
  shows "utf8_bytes sc = [of_nat (unat sc)]" and "utf8_required_size sc = 1"
proof -
  show size: "utf8_required_size sc = 1"
    using assms by (simp add: utf8_required_size_def word_le_nat_alt)
  have "(ucast sc :: byte) = of_nat (unat sc)"
    by (simp add: word_unat_eq_iff unat_cast_down unat_of_nat)
  then show "utf8_bytes sc = [of_nat (unat sc)]" by (simp add: utf8_bytes_def size)
qed

lemma utf8_continuation:
  assumes "unat (v :: u32) mod 64 = r" and "r < 64"
  shows "(ucast (0x80 OR (v AND 0x3f)) :: byte) = of_nat (128 + r)"
proof -
  have "unat (0x80 OR (v AND 0x3f) :: u32) = 128 + r"
    using assms unat_or_add [of "v AND 0x3f" 6 "0x80"] by (simp add: utf8_unat)
  then show ?thesis by (rule ucast_of_unat) (use assms in simp)
qed

lemma utf8_bytes_2:
  assumes sc: "unat sc = 64 * q + r" and q: "2 \<le> q" "q < 32" and r: "r < 64"
  shows "utf8_bytes sc = [of_nat (192 + q), of_nat (128 + r)]" and "utf8_required_size sc = 2"
proof -
  note d = digits_64 [OF sc r]
  show size: "utf8_required_size sc = 2"
    using assms by (simp add: utf8_required_size_def word_le_nat_alt)
  have "unat (0xc0 OR drop_bit 6 sc) = 192 + q"
    using q unat_or_add [of "drop_bit 6 sc" 5 "0xc0"] by (simp add: utf8_unat d)
  then have "(ucast (0xc0 OR drop_bit 6 sc) :: byte) = of_nat (192 + q)"
    by (rule ucast_of_unat) (use q in simp)
  with utf8_continuation [OF d(2) r] show "utf8_bytes sc = [of_nat (192 + q), of_nat (128 + r)]"
    by (simp add: utf8_bytes_def size)
qed

lemma utf8_bytes_3:
  assumes sc: "unat sc = 64 * (64 * q + m) + r" and q: "32 \<le> 64 * q + m" "q < 16"
    and m: "m < 64" and r: "r < 64"
  shows "utf8_bytes sc = [of_nat (224 + q), of_nat (128 + m), of_nat (128 + r)]"
    and "utf8_required_size sc = 3"
proof -
  note d = digits_64 [OF sc r] and e = digits_64 [OF refl m, of q]
  show size: "utf8_required_size sc = 3"
    using assms by (simp add: utf8_required_size_def word_le_nat_alt)
  have "unat (0xe0 OR drop_bit 12 sc) = 224 + q"
    using q unat_or_add [of "drop_bit 12 sc" 4 "0xe0"] by (simp add: utf8_unat d e)
  then have "(ucast (0xe0 OR drop_bit 12 sc) :: byte) = of_nat (224 + q)"
    by (rule ucast_of_unat) (use q in simp)
  moreover have "(ucast (0x80 OR (drop_bit 6 sc AND 0x3f)) :: byte) = of_nat (128 + m)"
    by (rule utf8_continuation) (simp_all add: utf8_unat d e m)
  ultimately show "utf8_bytes sc = [of_nat (224 + q), of_nat (128 + m), of_nat (128 + r)]"
    using utf8_continuation [OF d(2) r] by (simp add: utf8_bytes_def size)
qed

lemma utf8_bytes_4:
  assumes sc: "unat sc = 64 * (64 * (64 * q + n) + m) + r" and q: "16 \<le> 64 * q + n" "q < 8"
    and n: "n < 64" and m: "m < 64" and r: "r < 64"
  shows "utf8_bytes sc = [of_nat (240 + q), of_nat (128 + n), of_nat (128 + m), of_nat (128 + r)]"
    and "utf8_required_size sc = 4"
proof -
  note d = digits_64 [OF sc r] and e = digits_64 [OF refl m, of "64 * q + n"]
    and f = digits_64 [OF refl n, of q]
  have hi: "unat sc div 262144 = q" and mid: "unat sc div 64 div 64 mod 64 = n"
    and lo: "unat sc div 64 mod 64 = m"
    by (simp_all only: div_262144 d e f)
  show size: "utf8_required_size sc = 4"
    using assms by (simp add: utf8_required_size_def word_le_nat_alt)
  have "unat (0xf0 OR drop_bit 18 sc) = 240 + q"
    using q unat_or_add [of "drop_bit 18 sc" 3 "0xf0"] by (simp add: unat_drop_bit hi)
  then have "(ucast (0xf0 OR drop_bit 18 sc) :: byte) = of_nat (240 + q)"
    by (rule ucast_of_unat) (use q in simp)
  moreover have "(ucast (0x80 OR (drop_bit 12 sc AND 0x3f)) :: byte) = of_nat (128 + n)"
    by (rule utf8_continuation) (simp_all add: utf8_unat mid n)
  moreover have "(ucast (0x80 OR (drop_bit 6 sc AND 0x3f)) :: byte) = of_nat (128 + m)"
    by (rule utf8_continuation) (simp_all add: utf8_unat lo m)
  ultimately show "utf8_bytes sc =
      [of_nat (240 + q), of_nat (128 + n), of_nat (128 + m), of_nat (128 + r)]"
    using utf8_continuation [OF d(2) r] by (simp add: utf8_bytes_def size)
qed

text \<open>The decoder on a lead byte followed by continuation bytes.\<close>

lemma unat_join:
  fixes a b :: u32
  assumes "unat b < 2 ^ k" and "unat a * 2 ^ k < 2 ^ 32"
  shows "unat (push_bit k a OR b) = unat a * 2 ^ k + unat b"
proof -
  from assms(2) have "unat (push_bit k a) = unat a * 2 ^ k" by (simp add: unat_push_bit)
  with assms(1) show ?thesis by (simp add: unat_or_add [where k = k])
qed

lemma unat_lead:
  "n < 256 \<Longrightarrow> unat (of_nat n :: byte) = n"
  by (simp add: unat_of_nat)

lemma word_of_unat:
  fixes w :: "'a::len word"
  assumes "unat w = k"
  shows "w = of_nat k"
proof -
  from assms have "k < 2 ^ LENGTH('a)" using unsigned_less [of w, where 'a = nat] by simp
  with assms show ?thesis by (simp add: word_unat_eq_iff unat_of_nat)
qed

lemma decode_lead_1:
  assumes "x < 128"
  shows "utf8_decode_lead (of_nat x # rest) = Inr \<lparr>scalar = of_nat x, consumed = 1\<rparr>"
proof -
  have "unat (of_nat x :: byte) = x" by (rule unat_lead) (use assms in simp)
  with assms show ?thesis
    by (simp add: utf8_decode_lead_def Let_def word_le_nat_alt word_unat_eq_iff unat_cast_up unat_of_nat)
qed

lemma decode_lead_2:
  assumes "unat a = 192 + q" and "unat b = 128 + r" and "2 \<le> q" "q < 32" "r < 64"
  shows "utf8_decode_lead (a # b # rest) = Inr \<lparr>scalar = of_nat (64 * q + r), consumed = 2\<rparr>"
proof -
  have "unat (ucast (a AND 0x1f) :: u32) = q" "unat (ucast (b AND 0x3f) :: u32) = r"
    using assms by (simp_all add: utf8_unat mod_add_eq [symmetric])
  then have "unat (push_bit 6 (ucast (a AND 0x1f)) OR ucast (b AND 0x3f) :: u32) = 64 * q + r"
    using assms unat_join [of "ucast (b AND 0x3f)" 6 "ucast (a AND 0x1f)"] by simp
  then have "push_bit 6 (ucast (a AND 0x1f)) OR ucast (b AND 0x3f) = (of_nat (64 * q + r) :: u32)"
    by (rule word_of_unat)
  with assms show ?thesis
    by (simp add: utf8_decode_lead_def Let_def word_le_nat_alt is_continuation_iff del: of_nat_add)
qed

lemma decode_lead_3:
  assumes "unat a = 224 + q" and "unat b = 128 + m" and "unat c = 128 + r"
    and "q < 16" "m < 64" "r < 64" and "32 \<le> 64 * q + m" and "\<not> (q = 13 \<and> 32 \<le> m)"
  shows "utf8_decode_lead (a # b # c # rest) =
    Inr \<lparr>scalar = of_nat (64 * (64 * q + m) + r), consumed = 3\<rparr>"
proof -
  let ?a = "ucast (a AND 0x0f) :: u32" and ?b = "ucast (b AND 0x3f) :: u32"
    and ?c = "ucast (c AND 0x3f) :: u32"
  have u: "unat ?a = q" "unat ?b = m" "unat ?c = r"
    using assms by (simp_all add: utf8_unat mod_add_eq [symmetric])
  then have bc: "unat (push_bit 6 ?b OR ?c) = m * 64 + r"
    using assms unat_join [of ?c 6 ?b] by simp
  with u assms have "unat (push_bit 12 ?a OR (push_bit 6 ?b OR ?c)) = 64 * (64 * q + m) + r"
    using unat_join [of "push_bit 6 ?b OR ?c" 12 ?a] by simp
  then have "push_bit 12 ?a OR push_bit 6 ?b OR ?c = of_nat (64 * (64 * q + m) + r)"
    by (rule word_of_unat)
  moreover have "\<not> (a = 0xe0 \<and> b < 0xa0)" "\<not> (a = 0xed \<and> 0xa0 \<le> b)"
    using assms by (auto simp: word_unat_eq_iff word_less_nat_alt word_le_nat_alt)
  ultimately show ?thesis
    using assms
    by (simp add: utf8_decode_lead_def Let_def word_le_nat_alt is_continuation_iff
        del: of_nat_add of_nat_mult)
qed

lemma decode_lead_4:
  assumes "unat a = 240 + q" and "unat b = 128 + n" and "unat c = 128 + m" and "unat d = 128 + r"
    and "q \<le> 4" "n < 64" "m < 64" "r < 64" and "16 \<le> 64 * q + n" and "\<not> (q = 4 \<and> 16 \<le> n)"
  shows "utf8_decode_lead (a # b # c # d # rest) =
    Inr \<lparr>scalar = of_nat (64 * (64 * (64 * q + n) + m) + r), consumed = 4\<rparr>"
proof -
  let ?a = "ucast (a AND 0x07) :: u32" and ?b = "ucast (b AND 0x3f) :: u32"
    and ?c = "ucast (c AND 0x3f) :: u32" and ?d = "ucast (d AND 0x3f) :: u32"
  have u: "unat ?a = q" "unat ?b = n" "unat ?c = m" "unat ?d = r"
    using assms by (simp_all add: utf8_unat mod_add_eq [symmetric])
  then have cd: "unat (push_bit 6 ?c OR ?d) = m * 64 + r"
    using assms unat_join [of ?d 6 ?c] by simp
  with u assms have bcd: "unat (push_bit 12 ?b OR (push_bit 6 ?c OR ?d)) = n * 4096 + m * 64 + r"
    using unat_join [of "push_bit 6 ?c OR ?d" 12 ?b] by simp
  with u assms have "unat (push_bit 18 ?a OR (push_bit 12 ?b OR (push_bit 6 ?c OR ?d))) =
      64 * (64 * (64 * q + n) + m) + r"
    using unat_join [of "push_bit 12 ?b OR (push_bit 6 ?c OR ?d)" 18 ?a] by simp
  then have "push_bit 18 ?a OR push_bit 12 ?b OR push_bit 6 ?c OR ?d =
      of_nat (64 * (64 * (64 * q + n) + m) + r)"
    by (rule word_of_unat)
  moreover have "\<not> (a = 0xf0 \<and> b < 0x90)" "\<not> (a = 0xf4 \<and> 0x90 \<le> b)"
    using assms by (auto simp: word_unat_eq_iff word_less_nat_alt word_le_nat_alt)
  ultimately show ?thesis
    using assms
    by (simp add: utf8_decode_lead_def Let_def word_le_nat_alt is_continuation_iff
        del: of_nat_add of_nat_mult)
qed

lemma obtain_digits:
  fixes n :: nat
  obtains x r where "n = 64 * x + r" "r < 64"
proof
  show "n = 64 * (n div 64) + n mod 64" by simp
  show "n mod 64 < 64" by simp
qed

lemma zi_unicode_is_scalar_nat:
  "zi_unicode_is_scalar sc \<longleftrightarrow>
     unat sc \<le> 0x10ffff \<and> \<not> (0xd800 \<le> unat sc \<and> unat sc \<le> 0xdfff)"
  by (simp add: zi_unicode_is_scalar_def word_le_nat_alt)

text \<open>Decoding an encoding gives the scalar back, whatever follows it.\<close>

lemma decode_lead_utf8_bytes:
  assumes "zi_unicode_is_scalar sc"
  shows "utf8_decode_lead (utf8_bytes sc @ rest) =
    Inr \<lparr>scalar = sc, consumed = utf8_required_size sc\<rparr>"
proof -
  have of_unat: "of_nat (unat sc) = sc" by (rule word_of_unat [OF refl, symmetric])
  obtain x r where x: "unat sc = 64 * x + r" and r: "r < 64" by (rule obtain_digits)
  obtain y m where y: "x = 64 * y + m" and m: "m < 64" by (rule obtain_digits)
  obtain q n where q: "y = 64 * q + n" and n: "n < 64" by (rule obtain_digits)
  have bound: "unat sc \<le> 0x10ffff" and surrogate: "\<not> (0xd800 \<le> unat sc \<and> unat sc \<le> 0xdfff)"
    using assms by (simp_all add: zi_unicode_is_scalar_nat)
  consider "unat sc < 128" | "128 \<le> unat sc" "unat sc < 2048"
    | "2048 \<le> unat sc" "unat sc < 65536" | "65536 \<le> unat sc" by linarith
  then show ?thesis
  proof cases
    case 1
    then show ?thesis using decode_lead_1 [of "unat sc" rest] by (simp add: utf8_bytes_1 of_unat)
  next
    case 2
    then have "2 \<le> x" "x < 32" using x r by linarith+
    then show ?thesis
      using decode_lead_2 [of "of_nat (192 + x)" x "of_nat (128 + r)" r rest]
        utf8_bytes_2 [OF x _ _ r] r
      by (simp add: unat_lead x [symmetric] of_unat del: of_nat_add of_nat_mult)
  next
    case 3
    then have yb: "y < 16" "32 \<le> 64 * y + m" using x y r m by linarith+
    have ns: "\<not> (y = 13 \<and> 32 \<le> m)" using surrogate x y r m by linarith
    from x y have xy: "unat sc = 64 * (64 * y + m) + r" by simp
    have "utf8_decode_lead (of_nat (224 + y) # of_nat (128 + m) # of_nat (128 + r) # rest) =
        Inr \<lparr>scalar = of_nat (unat sc), consumed = 3\<rparr>"
      unfolding xy
      by (rule decode_lead_3) (use yb ns m r in \<open>simp_all add: unat_lead del: of_nat_add\<close>)
    then show ?thesis
      using utf8_bytes_3 [OF xy _ _ m r] yb by (simp add: of_unat del: of_nat_add)
  next
    case 4
    then have qb: "q \<le> 4" "16 \<le> 64 * q + n" using bound x y q r m n by linarith+
    have nl: "\<not> (q = 4 \<and> 16 \<le> n)" using bound x y q r m n by linarith
    from x y q have xyq: "unat sc = 64 * (64 * (64 * q + n) + m) + r" by simp
    have "utf8_decode_lead
        (of_nat (240 + q) # of_nat (128 + n) # of_nat (128 + m) # of_nat (128 + r) # rest) =
        Inr \<lparr>scalar = of_nat (unat sc), consumed = 4\<rparr>"
      unfolding xyq
      by (rule decode_lead_4) (use qb nl n m r in \<open>simp_all add: unat_lead del: of_nat_add\<close>)
    then show ?thesis
      using utf8_bytes_4 [OF xyq _ _ n m r] qb by (simp add: of_unat del: of_nat_add)
  qed
qed

lemma utf8_bytes_nonempty: "utf8_bytes sc \<noteq> []"
  by (simp add: utf8_bytes_def)

lemma length_utf8_bytes: "length (utf8_bytes sc) = utf8_required_size sc"
  by (simp add: utf8_bytes_def utf8_required_size_def)

lemma zi_utf8_decode_utf8_bytes:
  assumes "zi_unicode_is_scalar sc"
  shows "zi_utf8_decode (Some (utf8_bytes sc @ rest)) =
    Inr \<lparr>scalar = sc, consumed = utf8_required_size sc\<rparr>"
  using assms by (simp add: zi_utf8_decode_def utf8_bytes_nonempty decode_lead_utf8_bytes)

text \<open>Conversely, whatever the decoder accepts is the shortest encoding of the scalar it returns.\<close>

lemma word_of_unat_byte: "unat (b :: byte) = n \<Longrightarrow> b = of_nat n"
  by (rule word_of_unat)

lemma byte_offset:
  assumes "k \<le> unat (b :: byte)"
  obtains d where "unat b = k + d"
  using assms le_Suc_ex by blast

lemma continuation_digit:
  assumes "is_continuation b"
  obtains r where "unat b = 128 + r" "r < 64"
  using assms by (auto simp: is_continuation_iff elim!: byte_offset)

lemma decode_sound_1:
  assumes "utf8_decode_lead (a # bs) = Inr res" and "unat a \<le> 0x7f"
  shows "take (consumed res) (a # bs) = utf8_bytes (scalar res)"
proof -
  from assms have "res = \<lparr>scalar = ucast a, consumed = 1\<rparr>"
    by (simp add: utf8_decode_lead_def word_le_nat_alt)
  with assms(2) show ?thesis by (simp add: utf8_bytes_1 unat_cast_up)
qed

lemma decode_sound_2:
  assumes dec: "utf8_decode_lead (a # bs) = Inr res" and lead: "0xc2 \<le> unat a" "unat a \<le> 0xdf"
  shows "take (consumed res) (a # bs) = utf8_bytes (scalar res)"
proof -
  from lead obtain q where q: "unat a = 192 + q" using byte_offset [of 192 a] by auto
  from dec lead obtain b bs2 where bs: "bs = b # bs2" and "is_continuation b"
    by (cases bs) (auto simp: utf8_decode_lead_def Let_def word_le_nat_alt split: if_splits)
  then obtain r where r: "unat b = 128 + r" "r < 64" by (elim continuation_digit)
  have qb: "2 \<le> q" "q < 32" using lead q by simp_all
  from decode_lead_2 [OF q r(1) qb r(2)] dec
  have res: "res = \<lparr>scalar = of_nat (64 * q + r), consumed = 2\<rparr>" by (simp add: bs)
  have "unat (of_nat (64 * q + r) :: u32) = 64 * q + r"
    using qb r by (simp add: unat_of_nat del: of_nat_add of_nat_mult)
  from utf8_bytes_2(1) [OF this qb r(2)] q r show ?thesis
    by (simp add: res bs word_of_unat_byte del: of_nat_add)
qed

lemma decode_sound_3:
  assumes dec: "utf8_decode_lead (a # bs) = Inr res" and lead: "0xe0 \<le> unat a" "unat a \<le> 0xef"
  shows "take (consumed res) (a # bs) = utf8_bytes (scalar res)"
proof -
  from lead obtain q where q: "unat a = 224 + q" using byte_offset [of 224 a] by auto
  from dec lead obtain b c bs3 where bs: "bs = b # c # bs3"
    and cont: "is_continuation b" "is_continuation c"
    and form: "\<not> (a = 0xe0 \<and> b < 0xa0)" "\<not> (a = 0xed \<and> 0xa0 \<le> b)"
    by (cases bs; cases "tl bs")
      (auto simp: utf8_decode_lead_def Let_def word_le_nat_alt split: if_splits)
  from cont(1) obtain m where m: "unat b = 128 + m" "m < 64" by (elim continuation_digit)
  from cont(2) obtain r where r: "unat c = 128 + r" "r < 64" by (elim continuation_digit)
  have qb: "q < 16" "32 \<le> 64 * q + m" "\<not> (q = 13 \<and> 32 \<le> m)"
    using form lead q m by (auto simp: word_unat_eq_iff word_less_nat_alt word_le_nat_alt)
  from decode_lead_3 [OF q m(1) r(1) qb(1) m(2) r(2) qb(2,3)] dec
  have res: "res = \<lparr>scalar = of_nat (64 * (64 * q + m) + r), consumed = 3\<rparr>" by (simp add: bs)
  have "unat (of_nat (64 * (64 * q + m) + r) :: u32) = 64 * (64 * q + m) + r"
    using qb m r by (simp add: unat_of_nat del: of_nat_add of_nat_mult)
  from utf8_bytes_3(1) [OF this qb(2,1) m(2) r(2)] q m r show ?thesis
    by (simp add: res bs word_of_unat_byte del: of_nat_add of_nat_mult)
qed

lemma decode_sound_4:
  assumes dec: "utf8_decode_lead (a # bs) = Inr res" and lead: "0xf0 \<le> unat a" "unat a \<le> 0xf4"
  shows "take (consumed res) (a # bs) = utf8_bytes (scalar res)"
proof -
  from lead obtain q where q: "unat a = 240 + q" using byte_offset [of 240 a] by auto
  from dec lead obtain b c d bs4 where bs: "bs = b # c # d # bs4"
    and cont: "is_continuation b" "is_continuation c" "is_continuation d"
    and form: "\<not> (a = 0xf0 \<and> b < 0x90)" "\<not> (a = 0xf4 \<and> 0x90 \<le> b)"
    by (cases bs; cases "tl bs"; cases "tl (tl bs)")
      (auto simp: utf8_decode_lead_def Let_def word_le_nat_alt split: if_splits)
  from cont(1) obtain n where n: "unat b = 128 + n" "n < 64" by (elim continuation_digit)
  from cont(2) obtain m where m: "unat c = 128 + m" "m < 64" by (elim continuation_digit)
  from cont(3) obtain r where r: "unat d = 128 + r" "r < 64" by (elim continuation_digit)
  have qb: "q \<le> 4" "16 \<le> 64 * q + n" "\<not> (q = 4 \<and> 16 \<le> n)"
    using form lead q n by (auto simp: word_unat_eq_iff word_less_nat_alt word_le_nat_alt)
  from decode_lead_4 [OF q n(1) m(1) r(1) qb(1) n(2) m(2) r(2) qb(2,3)] dec
  have res: "res = \<lparr>scalar = of_nat (64 * (64 * (64 * q + n) + m) + r), consumed = 4\<rparr>"
    by (simp add: bs)
  have "unat (of_nat (64 * (64 * (64 * q + n) + m) + r) :: u32) = 64 * (64 * (64 * q + n) + m) + r"
    using qb n m r by (simp add: unat_of_nat del: of_nat_add of_nat_mult)
  moreover from qb(1) have "q < 8" by simp
  ultimately show ?thesis
    using utf8_bytes_4(1) [OF _ qb(2) _ n(2) m(2) r(2)] q n m r
    by (simp add: res bs word_of_unat_byte del: of_nat_add of_nat_mult)
qed

lemma decode_lead_sound:
  assumes "utf8_decode_lead (a # bs) = Inr res"
  shows "take (consumed res) (a # bs) = utf8_bytes (scalar res)"
proof -
  consider "unat a \<le> 0x7f" | "0xc2 \<le> unat a" "unat a \<le> 0xdf" | "0xe0 \<le> unat a" "unat a \<le> 0xef"
    | "0xf0 \<le> unat a" "unat a \<le> 0xf4"
    using assms by (auto simp: utf8_decode_lead_def Let_def word_le_nat_alt split: if_splits)
  then show ?thesis
    by cases (use assms in \<open>blast intro: decode_sound_1 decode_sound_2 decode_sound_3 decode_sound_4\<close>)+
qed

lemma zi_utf8_decode_sound:
  assumes "zi_utf8_decode (Some bs) = Inr res"
  shows "zi_unicode_is_scalar (scalar res)"
    and "bs = utf8_bytes (scalar res) @ drop (consumed res) bs"
    and "consumed res = utf8_required_size (scalar res)"
proof -
  from assms show "zi_unicode_is_scalar (scalar res)"
    by (auto simp: zi_utf8_decode_def split: if_splits sum.splits)
  from assms obtain a bs' where bs: "bs = a # bs'" and "utf8_decode_lead (a # bs') = Inr res"
    by (cases bs) (auto simp: zi_utf8_decode_def split: if_splits sum.splits)
  then have "take (consumed res) bs = utf8_bytes (scalar res)" by (simp only: decode_lead_sound)
  then show "bs = utf8_bytes (scalar res) @ drop (consumed res) bs"
    and "consumed res = utf8_required_size (scalar res)"
    using zi_utf8_decode_consumed(3) [OF assms]
    by (metis append_take_drop_id, metis length_take length_utf8_bytes min.absorb2)
qed

section \<open>Whole texts\<close>

text \<open>The reference description: a text is the concatenation of the encodings of its scalars.\<close>

definition utf8_text :: "u32 list \<Rightarrow> bytes" where
  "utf8_text scalars = concat (map utf8_bytes scalars)"


lemma utf8_text_simps [simp]:
  "utf8_text [] = []"
  "utf8_text (s # ss) = utf8_bytes s @ utf8_text ss"
  by (simp_all add: utf8_text_def)

lemma decode_utf8_text:
  assumes "zi_unicode_is_scalar s"
  shows "zi_utf8_decode (Some (utf8_bytes s @ rest)) =
      Inr \<lparr>scalar = s, consumed = utf8_required_size s\<rparr>"
    and "drop (utf8_required_size s) (utf8_bytes s @ rest) = rest"
  using assms by (simp_all add: zi_utf8_decode_utf8_bytes length_utf8_bytes)

lemma validate_utf8_text:
  assumes "\<forall>s \<in> set ss. zi_unicode_is_scalar s"
  shows "zi_utf8_validate_loop (utf8_text ss) = ZI_STATUS_SUCCESS"
  using assms
proof (induction ss)
  case Nil
  show ?case by (subst zi_utf8_validate_loop.simps) simp
next
  case (Cons s ss)
  then show ?case
    by (subst zi_utf8_validate_loop.simps)
      (simp add: decode_utf8_text utf8_bytes_nonempty length_utf8_bytes)
qed

lemma validate_text:
  assumes "zi_utf8_validate_loop bs = ZI_STATUS_SUCCESS"
  shows "\<exists>ss. (\<forall>s \<in> set ss. zi_unicode_is_scalar s) \<and> bs = utf8_text ss"
  using assms
proof (induction bs rule: zi_utf8_validate_loop.induct)
  case (1 bs)
  show ?case
  proof (cases "bs = []")
    case True
    then have "(\<forall>s \<in> set []. zi_unicode_is_scalar s) \<and> bs = utf8_text []" by simp
    then show ?thesis by blast
  next
    case False
    show ?thesis
    proof (cases "zi_utf8_decode (Some bs)")
      case (Inl e)
      with "1.prems" False have "e = ZI_STATUS_SUCCESS"
        by (subst (asm) zi_utf8_validate_loop.simps) simp
      with Inl show ?thesis
        by (auto simp: zi_utf8_decode_def utf8_decode_lead_def Let_def split: if_splits sum.splits)
    next
      case (Inr r)
      with "1.prems" False have "zi_utf8_validate_loop (drop (consumed r) bs) = ZI_STATUS_SUCCESS"
        by (subst (asm) zi_utf8_validate_loop.simps) simp
      with "1.IH" [OF False Inr] obtain ss
        where ss: "\<forall>s \<in> set ss. zi_unicode_is_scalar s" "drop (consumed r) bs = utf8_text ss" by blast
      with zi_utf8_decode_sound [OF Inr]
      have "(\<forall>s \<in> set (scalar r # ss). zi_unicode_is_scalar s) \<and> bs = utf8_text (scalar r # ss)"
        by simp
      then show ?thesis by blast
    qed
  qed
qed

lemma zi_utf8_decode_error: "zi_utf8_decode text = Inl e \<Longrightarrow> e \<in> {ZI_STATUS_INVALID_ARGUMENT, ZI_STATUS_INVALID_ENCODING}"
  by (auto simp: zi_utf8_decode_def utf8_decode_lead_def Let_def split: option.splits if_splits sum.splits)

lemma zi_utf8_validate_loop_status:
  "zi_utf8_validate_loop bs \<in> {ZI_STATUS_SUCCESS, ZI_STATUS_INVALID_ARGUMENT, ZI_STATUS_INVALID_ENCODING}"
proof (induction bs rule: zi_utf8_validate_loop.induct)
  case (1 bs)
  then show ?case
    by (subst zi_utf8_validate_loop.simps)
      (auto split: sum.split dest: zi_utf8_decode_error)
qed

lemma zi_utf8_validate_not_pending: "zi_utf8_validate view \<noteq> ZI_STATUS_PENDING"
proof (cases view)
  case (Some bs)
  with zi_utf8_validate_loop_status [of bs] show ?thesis by (auto simp: zi_utf8_validate_def)
qed (simp add: zi_utf8_validate_def)





section \<open>Properties\<close>

text \<open>
  C18: the validator accepts a byte sequence exactly when it is a concatenation of shortest-form
  encodings of Unicode scalar values. Overlong forms, surrogates, truncated sequences and values
  above U+10FFFF are therefore all rejected.
\<close>

theorem zi_utf8_validate_iff:
  "zi_utf8_validate (Some bs) = ZI_STATUS_SUCCESS \<longleftrightarrow>
     (\<exists>scalars. (\<forall>s \<in> set scalars. zi_unicode_is_scalar s) \<and> bs = utf8_text scalars)"
  using validate_text validate_utf8_text by (auto simp: zi_utf8_validate_def)

theorem zi_utf8_validate_iff_witness:
  "\<exists>scalars. (\<forall>s \<in> set scalars. zi_unicode_is_scalar s) \<and>
     [0x5a, 0xc3, 0xa9, 0xf0, 0x9f, 0x98, 0x80] = utf8_text scalars"
proof -
  have "zi_utf8_validate (Some [0x5a, 0xc3, 0xa9, 0xf0, 0x9f, 0x98, 0x80]) = ZI_STATUS_SUCCESS"
    by code_simp
  then show ?thesis by (simp only: zi_utf8_validate_iff)
qed

text \<open>
  C19: decoding is the inverse of encoding. When the encoder reports success, decoding its output,
  followed by any other bytes, returns the scalar and the size the encoder reported.
\<close>

theorem zi_utf8_encode_decode:
  assumes "zi_utf8_encode sc (Some capacity) = (ZI_STATUS_SUCCESS, Some n, bs)"
  shows "zi_utf8_decode (Some (bs @ rest)) = Inr \<lparr>scalar = sc, consumed = n\<rparr>"
  using assms
  by (auto simp: zi_utf8_encode_def Let_def zi_utf8_decode_utf8_bytes split: if_splits)

theorem zi_utf8_encode_decode_witness:
  "zi_utf8_decode (Some ([0xe2, 0x82, 0xac] @ [0x41])) = Inr \<lparr>scalar = 0x20ac, consumed = 3\<rparr>"
proof -
  have "zi_utf8_encode 0x20ac (Some 4) = (ZI_STATUS_SUCCESS, Some 3, [0xe2, 0x82, 0xac])"
    by code_simp
  then show ?thesis by (rule zi_utf8_encode_decode)
qed

text \<open>
  C20: the decoder accepts no second spelling. Re-encoding a decoded scalar reproduces exactly the
  bytes that were consumed, for every input the decoder accepts.
\<close>

theorem zi_utf8_decode_encode:
  assumes "zi_utf8_decode (Some bs) = Inr r"
  shows "zi_utf8_encode (scalar r) (Some (consumed r)) =
    (ZI_STATUS_SUCCESS, Some (consumed r), take (consumed r) bs)"
proof -
  note sound = zi_utf8_decode_sound [OF assms]
  have "take (consumed r) bs = utf8_bytes (scalar r)"
    by (subst sound(2)) (simp add: sound(3) length_utf8_bytes)
  with sound show ?thesis by (simp add: zi_utf8_encode_def)
qed

theorem zi_utf8_decode_encode_witness:
  "zi_utf8_encode 0xe9 (Some 2) = (ZI_STATUS_SUCCESS, Some 2, take 2 [0xc3, 0xa9, 0x20])"
proof -
  have "zi_utf8_decode (Some [0xc3, 0xa9, 0x20]) = Inr \<lparr>scalar = 0xe9, consumed = 2\<rparr>"
    by code_simp
  from zi_utf8_decode_encode [OF this] show ?thesis by simp
qed



end
