(* ===== verification/Zi_Path.thy ===== *)
theory Zi_Path
  imports Zi_Unicode
begin

text \<open>
  The absolute-path grammar of \<^verbatim>\<open>kernel/fs/vfs/path.c\<close>: a drive letter, a colon, a backslash and
  non-empty components separated by single backslashes. A \<^verbatim>\<open>ZiStringView\<close> into the path is the
  byte sequence it denotes. The parser is shown to be the exact inverse of printing a path.
\<close>

section \<open>Definitions\<close>

record ZiParsedPath =
  drive_letter :: byte
  components :: "bytes list"

definition is_ascii_letter :: "byte \<Rightarrow> bool" where
  "is_ascii_letter character \<longleftrightarrow>
     (character \<ge> 0x41 \<and> character \<le> 0x5a) \<or> (character \<ge> 0x61 \<and> character \<le> 0x7a)"

definition is_dot_component :: "bytes \<Rightarrow> bool" where
  "is_dot_component data \<longleftrightarrow>
     (length data = 1 \<and> data ! 0 = 0x2e) \<or>
     (length data = 2 \<and> data ! 0 = 0x2e \<and> data ! 1 = 0x2e)"

text \<open>The component loop, with \<^verbatim>\<open>component_storage[0 .. component_count)\<close> as a list.\<close>

function path_component_loop :: "bytes \<Rightarrow> nat \<Rightarrow> nat \<Rightarrow> nat \<Rightarrow> bytes list \<Rightarrow> bytes list result" where
  "path_component_loop path component_capacity index component_start stored =
     (if length path < index then Inr stored
      else
        let at_end = (index = length path) in
        if \<not> at_end \<and> path ! index \<noteq> 0x5c
        then path_component_loop path component_capacity (Suc index) component_start stored
        else
          let component_size = index - component_start;
              component = take component_size (drop component_start path) in
          if component_size = 0 then
            if at_end \<and> component_start = 3 then Inr stored
            else Inl ZI_STATUS_INVALID_PATH
          else if is_dot_component component then Inl ZI_STATUS_INVALID_PATH
          else if length stored \<ge> component_capacity then Inl ZI_STATUS_BUFFER_TOO_SMALL
          else path_component_loop path component_capacity (Suc index) (index + 1)
                 (stored @ [component]))"
  by pat_completeness auto
termination
  by (relation "measure (\<lambda>(path, component_capacity, index, component_start, stored).
        Suc (length path) - index)") auto

declare path_component_loop.simps [simp del]

definition zi_path_parse_absolute :: "bytes option \<Rightarrow> nat \<Rightarrow> ZiParsedPath result" where
  "zi_path_parse_absolute path_view component_capacity =
     (case path_view of
        None \<Rightarrow> Inl ZI_STATUS_INVALID_ARGUMENT
      | Some path \<Rightarrow>
          if length path < 3 then Inl ZI_STATUS_INVALID_ARGUMENT
          else if \<not> is_ascii_letter (path ! 0) \<or> path ! 1 \<noteq> 0x3a \<or> path ! 2 \<noteq> 0x5c
          then Inl ZI_STATUS_INVALID_PATH
          else if ZiFailed (zi_utf8_validate (Some path)) then Inl (zi_utf8_validate (Some path))
          else if list_ex (\<lambda>c. c = 0 \<or> c = 0x2f) path then Inl ZI_STATUS_INVALID_PATH
          else case path_component_loop path component_capacity 3 3 [] of
                 Inl status \<Rightarrow> Inl status
               | Inr comps \<Rightarrow> Inr \<lparr>drive_letter = path ! 0, components = comps\<rparr>)"

definition zi_path_compare_component :: "bytes option \<Rightarrow> bytes option \<Rightarrow> int result" where
  "zi_path_compare_component left_view right_view =
     (case (left_view, right_view) of
        (Some left, Some right) \<Rightarrow>
          if ZiFailed (zi_utf8_validate (Some left)) then Inl (zi_utf8_validate (Some left))
          else if ZiFailed (zi_utf8_validate (Some right)) then Inl (zi_utf8_validate (Some right))
          else
            let common_size = (if length left < length right then length left else length right);
                comparison = zi_memory_compare left right common_size in
            if comparison = 0 then
              if length left < length right then Inr (-1)
              else if length left > length right then Inr 1
              else Inr comparison
            else Inr comparison
      | _ \<Rightarrow> Inl ZI_STATUS_INVALID_ARGUMENT)"

section \<open>The printed form of a path\<close>

fun join_components :: "bytes list \<Rightarrow> bytes" where
  "join_components [] = []"
| "join_components [c] = c"
| "join_components (c # cs) = c @ 0x5c # join_components cs"

definition path_text :: "byte \<Rightarrow> bytes list \<Rightarrow> bytes" where
  "path_text drive cs = drive # 0x3a # 0x5c # join_components cs"

definition component_ok :: "bytes \<Rightarrow> bool" where
  "component_ok c \<longleftrightarrow> c \<noteq> [] \<and> c \<noteq> [0x2e] \<and> c \<noteq> [0x2e, 0x2e] \<and> 0x5c \<notin> set c"

lemma is_dot_component_iff: "is_dot_component c \<longleftrightarrow> c = [0x2e] \<or> c = [0x2e, 0x2e]"
  by (auto simp: is_dot_component_def length_Suc_conv numeral_2_eq_2)

lemma join_components_Cons: "cs \<noteq> [] \<Longrightarrow> join_components (c # cs) = c @ 0x5c # join_components cs"
  by (cases cs) simp_all

section \<open>The component loop\<close>

lemma path_component_loop_scan:
  assumes "\<forall>j. i \<le> j \<and> j < k \<longrightarrow> path ! j \<noteq> 0x5c" and "i \<le> k" and "k \<le> length path"
  shows "path_component_loop path cap i start stored = path_component_loop path cap k start stored"
  using assms
proof (induction "k - i" arbitrary: i)
  case 0
  then show ?case by simp
next
  case (Suc d)
  then have "i < k" "path ! i \<noteq> 0x5c" "i \<noteq> length path" by auto
  then have "path_component_loop path cap i start stored =
      path_component_loop path cap (Suc i) start stored"
    using Suc.prems by (subst path_component_loop.simps) simp
  also have "\<dots> = path_component_loop path cap k start stored"
    using Suc by (intro Suc.hyps(1)) auto
  finally show ?case .
qed

text \<open>Reaching a separator or the end of the path closes the component that began at \<open>start\<close>.\<close>

lemma path_component_loop_close:
  assumes "i < length path" and "path ! i = 0x5c \<or> i = length path"
  shows "path_component_loop path cap i start stored =
    (let c = take (i - start) (drop start path) in
     if i - start = 0 then Inl ZI_STATUS_INVALID_PATH
     else if is_dot_component c then Inl ZI_STATUS_INVALID_PATH
     else if cap \<le> length stored then Inl ZI_STATUS_BUFFER_TOO_SMALL
     else path_component_loop path cap (Suc i) (Suc i) (stored @ [c]))"
  using assms by (subst path_component_loop.simps) (simp add: Let_def)

lemma path_component_loop_end:
  assumes "start \<le> length path"
  shows "path_component_loop path cap (length path) start stored =
    (let c = drop start path in
     if c = [] then if start = 3 then Inr stored else Inl ZI_STATUS_INVALID_PATH
     else if is_dot_component c then Inl ZI_STATUS_INVALID_PATH
     else if cap \<le> length stored then Inl ZI_STATUS_BUFFER_TOO_SMALL
     else Inr (stored @ [c]))"
  using assms
  by (subst path_component_loop.simps)
    (auto simp: Let_def path_component_loop.simps [of path cap "Suc (length path)"])

lemma path_component_loop_sound:
  assumes "path_component_loop path cap i start stored = Inr comps"
    and "start \<le> i" "i \<le> length path" "3 \<le> start"
    and "\<forall>j. start \<le> j \<and> j < i \<longrightarrow> path ! j \<noteq> 0x5c" and "length stored \<le> cap"
  shows "\<exists>cs. comps = stored @ cs \<and> drop start path = join_components cs \<and>
    (\<forall>c \<in> set cs. component_ok c) \<and> length comps \<le> cap \<and> (cs = [] \<longrightarrow> start = 3)"
  using assms
proof (induction path cap i start stored rule: path_component_loop.induct)
  case (1 path cap i start stored)
  let ?c = "take (i - start) (drop start path)"
  have no_sep: "0x5c \<notin> set ?c"
    using "1.prems" by (auto simp: in_set_conv_nth)
  consider (fin) "i = length path" | (sep) "i < length path" "path ! i = 0x5c"
    | (scan) "i < length path" "path ! i \<noteq> 0x5c"
    using "1.prems"(3) by linarith
  then show ?case
  proof cases
    case fin
    then have c: "?c = drop start path" by simp
    with no_sep "1.prems"(1,4,6) show ?thesis
      unfolding fin path_component_loop_end [OF "1.prems"(2) [unfolded fin]]
      by (auto simp: Let_def component_ok_def is_dot_component_iff split: if_splits
          intro: exI [of _ "[]"] exI [of _ "[drop start path]"])
  next
    case scan
    then have "path_component_loop path cap (Suc i) start stored = Inr comps"
      using "1.prems"(1) by (subst (asm) path_component_loop.simps) simp
    moreover have "\<forall>j. start \<le> j \<and> j < Suc i \<longrightarrow> path ! j \<noteq> 0x5c"
      using "1.prems"(5) scan(2) by (auto simp: less_Suc_eq)
    ultimately show ?thesis
      using "1.IH"(1) [OF _ refl] scan "1.prems" by simp
  next
    case sep
    have ok: "component_ok ?c" "length stored < cap" and i: "start < i"
      and rest: "path_component_loop path cap (Suc i) (Suc i) (stored @ [?c]) = Inr comps"
      using "1.prems"(1) no_sep sep path_component_loop_close [of i path cap start stored]
      by (auto simp: Let_def component_ok_def is_dot_component_iff split: if_splits)
    have "\<forall>j. Suc i \<le> j \<and> j < Suc i \<longrightarrow> path ! j \<noteq> 0x5c" by auto
    with ok i rest obtain cs where cs: "comps = (stored @ [?c]) @ cs"
      "drop (Suc i) path = join_components cs" "\<forall>c \<in> set cs. component_ok c" "length comps \<le> cap"
      "cs \<noteq> []"
      using "1.IH"(2) [OF _ refl _ refl refl] sep "1.prems"(4)
      by (auto simp: is_dot_component_iff component_ok_def)
    have "drop start path = ?c @ drop i path"
      using i by (metis append_take_drop_id drop_drop le_add_diff_inverse2 less_imp_le_nat)
    also have "drop i path = 0x5c # drop (Suc i) path"
      using sep by (simp add: Cons_nth_drop_Suc [symmetric])
    finally have "drop start path = join_components (?c # cs)"
      using cs by (simp add: join_components_Cons)
    with cs ok show ?thesis by (intro exI [of _ "?c # cs"]) auto
  qed
qed

text \<open>Where the first of several components ends in the text.\<close>

lemma component_bounds:
  assumes "drop start path = join_components (c # cs)" "0x5c \<notin> set c" "start \<le> length path"
  shows "start + length c \<le> length path"
    and "\<forall>j. start \<le> j \<and> j < start + length c \<longrightarrow> path ! j \<noteq> 0x5c"
    and "take (length c) (drop start path) = c"
    and "cs = [] \<Longrightarrow> start + length c = length path"
    and "cs \<noteq> [] \<Longrightarrow> start + length c < length path \<and> path ! (start + length c) = 0x5c \<and>
      drop (Suc (start + length c)) path = join_components cs"
proof -
  let ?i = "start + length c"
  obtain rest where split: "drop start path = c @ rest"
    and rest: "rest = (if cs = [] then [] else 0x5c # join_components cs)"
    using assms(1) by (cases "cs = []") (auto simp: join_components_Cons)
  have len: "?i + length rest = length path" using arg_cong [OF split, of length] assms(3) by simp
  then show "?i \<le> length path" by simp
  have at: "path ! (start + j) = (c @ rest) ! j" for j by (metis split nth_drop assms(3))
  show "\<forall>j. start \<le> j \<and> j < ?i \<longrightarrow> path ! j \<noteq> 0x5c"
  proof (intro allI impI)
    fix j assume j: "start \<le> j \<and> j < ?i"
    then have lt: "j - start < length c" by linarith
    with j have "path ! j = c ! (j - start)" using at [of "j - start"] by (simp add: nth_append)
    moreover have "c ! (j - start) \<in> set c" using lt by simp
    ultimately show "path ! j \<noteq> 0x5c" using assms(2) by auto
  qed
  show "take (length c) (drop start path) = c" by (simp add: split)
  show "?i = length path" if "cs = []" using that rest len by simp
  show "?i < length path \<and> path ! ?i = 0x5c \<and> drop (Suc ?i) path = join_components cs" if "cs \<noteq> []"
    using that rest len at [of "length c"] arg_cong [OF split, of "drop (Suc (length c))"] by (simp add: add.commute)
qed

lemma path_component_loop_complete:
  assumes "drop start path = join_components cs" and "\<forall>c \<in> set cs. component_ok c"
    and "start \<le> length path" and "length stored + length cs \<le> cap"
    and "cs = [] \<longrightarrow> start = 3"
  shows "path_component_loop path cap start start stored = Inr (stored @ cs)"
  using assms
proof (induction cs arbitrary: start stored)
  case Nil
  then have "start = length path" "start = 3" by simp_all
  then show ?case using path_component_loop_end [of start path cap stored] by simp
next
  case (Cons c cs)
  let ?i = "start + length c"
  from Cons.prems(2) have ok: "component_ok c" by simp
  have "0x5c \<notin> set c" using ok by (simp add: component_ok_def)
  note b = component_bounds [OF Cons.prems(1) this Cons.prems(3)]
  have scan: "path_component_loop path cap start start stored = path_component_loop path cap ?i start stored"
    by (rule path_component_loop_scan) (use b in simp_all)
  have dot: "\<not> is_dot_component c" and ne: "c \<noteq> []"
    using ok by (auto simp: component_ok_def is_dot_component_iff)
  show ?case
  proof (cases "cs = []")
    case True
    have "drop start path = c" using b(3) b(4) [OF True] by (simp add: take_all)
    with scan dot ne Cons.prems(3,4) True b(4) [OF True] show ?thesis
      by (simp add: path_component_loop_end)
  next
    case False
    note sep = b(5) [OF False]
    have "path_component_loop path cap ?i start stored =
        path_component_loop path cap (Suc ?i) (Suc ?i) (stored @ [c])"
      using path_component_loop_close [of ?i path cap start stored] sep dot ne b(3) Cons.prems(4) by simp
    also have "\<dots> = Inr ((stored @ [c]) @ cs)"
      by (rule Cons.IH) (use Cons.prems False sep in simp_all)
    finally show ?thesis using scan by simp
  qed
qed

section \<open>Properties\<close>

text \<open>
  C22: the path parser is the inverse of printing. It returns a drive letter and components exactly
  when the input is the printed form of a letter and components that are non-empty, are not a dot
  name and contain no separator, when the components fit the storage, and when the text is valid
  UTF-8 with neither NUL nor a forward slash.
\<close>

theorem zi_path_parse_absolute_iff:
  "zi_path_parse_absolute (Some path) capacity = Inr \<lparr>drive_letter = d, components = cs\<rparr> \<longleftrightarrow>
     path = path_text d cs \<and> is_ascii_letter d \<and> (\<forall>c \<in> set cs. component_ok c) \<and>
     length cs \<le> capacity \<and> zi_utf8_validate (Some path) = ZI_STATUS_SUCCESS \<and>
     0 \<notin> set path \<and> 0x2f \<notin> set path"
  (is "?parsed \<longleftrightarrow> ?described")
proof
  assume parsed: ?parsed
  then have loop: "path_component_loop path capacity 3 3 [] = Inr cs"
    and head: "3 \<le> length path" "is_ascii_letter (path ! 0)" "path ! 0 = d" "path ! 1 = 0x3a" "path ! 2 = 0x5c"
    and enc: "\<not> ZiFailed (zi_utf8_validate (Some path))" "0 \<notin> set path" "0x2f \<notin> set path"
    by (auto simp: zi_path_parse_absolute_def list_ex_iff split: if_splits sum.splits)
  have "\<forall>j. 3 \<le> j \<and> j < 3 \<longrightarrow> path ! j \<noteq> 0x5c" by auto
  with path_component_loop_sound [OF loop] head(1)
  have cs: "drop 3 path = join_components cs" "\<forall>c \<in> set cs. component_ok c" "length cs \<le> capacity"
    by auto
  have "path = path ! 0 # path ! 1 # path ! 2 # drop 3 path"
    using head(1) by (cases path; cases "tl path"; cases "tl (tl path)") auto
  with head cs(1) have "path = path_text d cs" by (simp add: path_text_def)
  moreover from enc(1) have "zi_utf8_validate (Some path) = ZI_STATUS_SUCCESS"
    using zi_utf8_validate_not_pending by auto
  ultimately show ?described using head cs enc by simp
next
  assume described: ?described
  then have "zi_utf8_validate (Some path) = ZI_STATUS_SUCCESS" and letter: "is_ascii_letter d" by blast+
  then have valid: "\<not> ZiFailed (zi_utf8_validate (Some path))" by simp
  from described have path: "path = d # 0x3a # 0x5c # join_components cs" by (simp add: path_text_def)
  have "path_component_loop path capacity 3 3 [] = Inr ([] @ cs)"
    by (rule path_component_loop_complete) (use described in \<open>simp_all add: path_text_def\<close>)
  moreover have "3 \<le> length path" "path ! 0 = d" "path ! 1 = 0x3a" "path ! 2 = 0x5c"
    unfolding path by simp_all
  moreover from described have "0 \<notin> set path" "0x2f \<notin> set path" by blast+
  then have "\<not> list_ex (\<lambda>b. b = 0 \<or> b = 0x2f) path" by (auto simp: list_ex_iff)
  ultimately show ?parsed
    using valid letter by (simp add: zi_path_parse_absolute_def)
qed

theorem zi_path_parse_absolute_iff_witness:
  "zi_path_parse_absolute (Some [0x43, 0x3a, 0x5c, 0x61, 0x62, 0x5c, 0x63]) 2 =
     Inr \<lparr>drive_letter = 0x43, components = [[0x61, 0x62], [0x63]]\<rparr> \<and>
   zi_path_parse_absolute (Some [0x43, 0x3a, 0x5c, 0x61, 0x62, 0x5c, 0x63]) 1 \<noteq>
     Inr \<lparr>drive_letter = 0x43, components = [[0x61, 0x62], [0x63]]\<rparr>"
  unfolding zi_path_parse_absolute_iff by code_simp

text \<open>
  C23: component comparison is exact and total. On valid components it returns -1, 0 or 1 according
  to the lexicographic order of the bytes, and 0 for equal components only, so names differing in
  case are different names.
\<close>

theorem zi_path_compare_component_order:
  assumes "zi_utf8_validate (Some left) = ZI_STATUS_SUCCESS"
    and "zi_utf8_validate (Some right) = ZI_STATUS_SUCCESS"
  shows "zi_path_compare_component (Some left) (Some right) =
    Inr (if (left, right) \<in> lexord {(a, b). a < b} then -1 else if left = right then 0 else 1)"
proof -
  let ?n = "min (length left) (length right)"
  let ?cmp = "zi_memory_compare left right ?n"
  have n: "(if length left < length right then length left else length right) = ?n" by simp
  have zero: "?cmp = 0 \<longleftrightarrow> take ?n left = take ?n right"
    by (auto simp: zi_memory_compare_def zi_memory_compare_loop_0 list_eq_iff_nth_eq)
  have less: "?cmp = -1 \<longleftrightarrow> (\<exists>k < ?n. take k left = take k right \<and> left ! k < right ! k)"
    by (auto simp: zi_memory_compare_def zi_memory_compare_loop_less list_eq_iff_nth_eq)
  have range: "?cmp \<in> {-1, 0, 1}"
    unfolding zi_memory_compare_def by (rule zi_memory_compare_loop_range)
  have lex: "(left, right) \<in> lexord {(a, b). a < b} \<longleftrightarrow>
      length left < length right \<and> take ?n left = take ?n right \<or> ?cmp = -1"
    unfolding less lexord_take_index_conv by (auto simp: min_def)
  consider "length left < length right" | "length left = length right" | "length right < length left"
    by linarith
  then show ?thesis
    using assms range zero unfolding lex
    by cases (auto simp: zi_path_compare_component_def n Let_def)
qed

theorem zi_path_compare_component_order_witness:
  "zi_path_compare_component (Some [0x61]) (Some [0x61, 0x62]) = Inr (- 1) \<and>
   zi_path_compare_component (Some [0x62]) (Some [0x61, 0x62]) = Inr 1"
proof -
  have valid: "zi_utf8_validate (Some [0x61]) = ZI_STATUS_SUCCESS"
    "zi_utf8_validate (Some [0x62]) = ZI_STATUS_SUCCESS"
    "zi_utf8_validate (Some [0x61, 0x62]) = ZI_STATUS_SUCCESS" by code_simp+
  show ?thesis
    by (simp add: zi_path_compare_component_order valid)
qed

end
