(* ===== verification/Zi_Security.thy ===== *)
theory Zi_Security
  imports Zi_Prelude
begin

text \<open>
  The security reference monitor of \<^verbatim>\<open>kernel/executive/security/access_check.c\<close>, over the
  structures of \<^verbatim>\<open>zi/security.h\<close>.

  A pointer that may be \<^verbatim>\<open>NULL\<close> is an option. An array with its count is a list, with \<^term>\<open>None\<close>
  for a null array with a non-zero count. The \<^verbatim>\<open>struct_size\<close> fields are kept; the sizes they are
  compared with are those of the x64 ABI, whose pointers and \<^verbatim>\<open>size_t\<close> have eight bytes. The result
  of an access check is its status and what it stored through \<^verbatim>\<open>out_granted_access\<close>, \<^term>\<open>None\<close> when it
  stored nothing.
\<close>

unbundle bit_operations_syntax

type_synonym ZiAccessMask = u32

record ZiSecurityId =
  sid_authority :: u32
  sid_value :: u32

record ZiAce =
  ace_type :: byte
  ace_inheritance_flags :: byte
  ace_reserved :: u16
  ace_access_mask :: ZiAccessMask
  ace_trustee :: ZiSecurityId

record ZiAcl =
  acl_struct_size :: u32
  acl_version :: u32
  acl_entries :: "ZiAce list option"

record ZiSecurityDescriptor =
  sd_struct_size :: u32
  sd_version :: u32
  sd_owner :: ZiSecurityId
  sd_primary_group :: ZiSecurityId
  sd_dacl :: "ZiAcl option"
  sd_control_flags :: u32

record ZiAccessToken =
  token_struct_size :: u32
  token_version :: u32
  token_user :: ZiSecurityId
  token_groups :: "ZiSecurityId list option"
  token_privileges :: u64

definition ZI_ACCESS_FULL_CONTROL :: ZiAccessMask where
  "ZI_ACCESS_FULL_CONTROL = 0xff"

definition ZI_SECURITY_MAXIMUM_ACES :: nat where
  "ZI_SECURITY_MAXIMUM_ACES = 64"

definition ZI_SECURITY_MAXIMUM_TOKEN_GROUPS :: nat where
  "ZI_SECURITY_MAXIMUM_TOKEN_GROUPS = 16"

definition ZI_ACE_INHERIT_ONLY :: byte where
  "ZI_ACE_INHERIT_ONLY = 4"

definition ZI_ACE_INHERIT_SUPPORTED :: byte where
  "ZI_ACE_INHERIT_SUPPORTED = 0xf"

abbreviation (input) ZI_ACE_DENY :: byte where
  "ZI_ACE_DENY \<equiv> 0"

abbreviation (input) ZI_ACE_ALLOW :: byte where
  "ZI_ACE_ALLOW \<equiv> 1"

abbreviation (input) ZI_SECURITY_AUTHORITY_SYSTEM :: u32 where
  "ZI_SECURITY_AUTHORITY_SYSTEM \<equiv> 1"

abbreviation (input) ZI_SECURITY_AUTHORITY_GROUP :: u32 where
  "ZI_SECURITY_AUTHORITY_GROUP \<equiv> 2"

abbreviation (input) ZI_SECURITY_AUTHORITY_SERVICE :: u32 where
  "ZI_SECURITY_AUTHORITY_SERVICE \<equiv> 4"

abbreviation (input) sizeof_ZiAcl :: u32 where
  "sizeof_ZiAcl \<equiv> 24"

abbreviation (input) sizeof_ZiSecurityDescriptor :: u32 where
  "sizeof_ZiSecurityDescriptor \<equiv> 40"

abbreviation (input) sizeof_ZiAccessToken :: u32 where
  "sizeof_ZiAccessToken \<equiv> 40"

section \<open>Validation\<close>

definition zi_security_id_equal :: "ZiSecurityId \<Rightarrow> ZiSecurityId \<Rightarrow> bool" where
  "zi_security_id_equal left right \<longleftrightarrow>
     sid_authority left = sid_authority right \<and> sid_value left = sid_value right"

definition zi_security_id_validate :: "ZiSecurityId \<Rightarrow> ZiStatus" where
  "zi_security_id_validate sid =
     (if sid_value sid \<noteq> 0 \<and> ZI_SECURITY_AUTHORITY_SYSTEM \<le> sid_authority sid \<and>
         sid_authority sid \<le> ZI_SECURITY_AUTHORITY_SERVICE
      then ZI_STATUS_SUCCESS else ZI_STATUS_INVALID_ARGUMENT)"

text \<open>
  The loop over the groups of a token; \<^term>\<open>previous\<close> holds the groups already visited, which the
  inner loop compares with.
\<close>

fun token_groups_loop :: "ZiSecurityId list \<Rightarrow> ZiSecurityId list \<Rightarrow> ZiStatus" where
  "token_groups_loop previous [] = ZI_STATUS_SUCCESS"
| "token_groups_loop previous (entry # groups) =
     (if ZiFailed (zi_security_id_validate entry) \<or> sid_authority entry \<noteq> ZI_SECURITY_AUTHORITY_GROUP
      then ZI_STATUS_INVALID_ARGUMENT
      else if list_ex (\<lambda>p. zi_security_id_equal p entry) previous then ZI_STATUS_INVALID_ARGUMENT
      else token_groups_loop (previous @ [entry]) groups)"

definition zi_security_token_validate :: "ZiAccessToken option \<Rightarrow> ZiStatus" where
  "zi_security_token_validate token_view =
     (case token_view of
        None \<Rightarrow> ZI_STATUS_INVALID_ARGUMENT
      | Some token \<Rightarrow>
          if token_struct_size token \<noteq> sizeof_ZiAccessToken \<or> token_version token \<noteq> 1 \<or>
             ZiFailed (zi_security_id_validate (token_user token)) \<or>
             sid_authority (token_user token) = ZI_SECURITY_AUTHORITY_GROUP
          then ZI_STATUS_INVALID_ARGUMENT
          else case token_groups token of
                 None \<Rightarrow> ZI_STATUS_INVALID_ARGUMENT
               | Some groups \<Rightarrow>
                   if length groups > ZI_SECURITY_MAXIMUM_TOKEN_GROUPS then ZI_STATUS_INVALID_ARGUMENT
                   else token_groups_loop [] groups)"

fun dacl_entries_loop :: "ZiAce list \<Rightarrow> ZiStatus" where
  "dacl_entries_loop [] = ZI_STATUS_SUCCESS"
| "dacl_entries_loop (entry # entries) =
     (if (ace_type entry \<noteq> ZI_ACE_DENY \<and> ace_type entry \<noteq> ZI_ACE_ALLOW) \<or> ace_reserved entry \<noteq> 0 \<or>
         ace_inheritance_flags entry AND NOT ZI_ACE_INHERIT_SUPPORTED \<noteq> 0 \<or>
         ace_access_mask entry = 0 \<or> ace_access_mask entry AND NOT ZI_ACCESS_FULL_CONTROL \<noteq> 0 \<or>
         ZiFailed (zi_security_id_validate (ace_trustee entry))
      then ZI_STATUS_INVALID_ARGUMENT
      else dacl_entries_loop entries)"

definition zi_security_descriptor_validate :: "ZiSecurityDescriptor option \<Rightarrow> ZiStatus" where
  "zi_security_descriptor_validate descriptor_view =
     (case descriptor_view of
        None \<Rightarrow> ZI_STATUS_INVALID_ARGUMENT
      | Some descriptor \<Rightarrow>
          if sd_struct_size descriptor \<noteq> sizeof_ZiSecurityDescriptor \<or> sd_version descriptor \<noteq> 1 \<or>
             ZiFailed (zi_security_id_validate (sd_owner descriptor)) \<or>
             ZiFailed (zi_security_id_validate (sd_primary_group descriptor)) \<or>
             sd_control_flags descriptor \<noteq> 0
          then ZI_STATUS_INVALID_ARGUMENT
          else case sd_dacl descriptor of
                 None \<Rightarrow> ZI_STATUS_SUCCESS
               | Some dacl \<Rightarrow>
                   if acl_struct_size dacl \<noteq> sizeof_ZiAcl \<or> acl_version dacl \<noteq> 1
                   then ZI_STATUS_INVALID_ARGUMENT
                   else case acl_entries dacl of
                          None \<Rightarrow> ZI_STATUS_INVALID_ARGUMENT
                        | Some entries \<Rightarrow>
                            if length entries > ZI_SECURITY_MAXIMUM_ACES then ZI_STATUS_INVALID_ARGUMENT
                            else dacl_entries_loop entries)"

section \<open>The access check\<close>

definition token_contains_id :: "ZiAccessToken \<Rightarrow> ZiSecurityId \<Rightarrow> bool" where
  "token_contains_id token sid \<longleftrightarrow>
     zi_security_id_equal (token_user token) sid \<or>
     (case token_groups token of
        None \<Rightarrow> False
      | Some groups \<Rightarrow> list_ex (\<lambda>entry. zi_security_id_equal entry sid) groups)"

fun access_check_loop ::
  "ZiAccessToken \<Rightarrow> ZiAccessMask \<Rightarrow> ZiAccessMask \<Rightarrow> ZiAce list \<Rightarrow> ZiStatus \<times> ZiAccessMask option" where
  "access_check_loop token remaining_access granted_access [] =
     (ZI_STATUS_ACCESS_DENIED, Some granted_access)"
| "access_check_loop token remaining_access granted_access (entry # entries) =
     (if ace_inheritance_flags entry AND ZI_ACE_INHERIT_ONLY \<noteq> 0 \<or>
         \<not> token_contains_id token (ace_trustee entry)
      then access_check_loop token remaining_access granted_access entries
      else
        let relevant_access = ace_access_mask entry AND remaining_access in
        if relevant_access = 0 then access_check_loop token remaining_access granted_access entries
        else if ace_type entry = ZI_ACE_DENY then (ZI_STATUS_ACCESS_DENIED, Some 0)
        else if ace_type entry \<noteq> ZI_ACE_ALLOW then (ZI_STATUS_INVALID_ARGUMENT, Some 0)
        else
          let granted = granted_access OR relevant_access;
              remaining = remaining_access AND NOT relevant_access in
          if remaining = 0 then (ZI_STATUS_SUCCESS, Some granted)
          else access_check_loop token remaining granted entries)"

definition zi_security_access_check ::
  "ZiSecurityDescriptor option \<Rightarrow> ZiAccessToken option \<Rightarrow> ZiAccessMask \<Rightarrow>
   ZiStatus \<times> ZiAccessMask option" where
  "zi_security_access_check descriptor_view token_view requested_access =
     (case (descriptor_view, token_view) of
        (Some descriptor, Some token) \<Rightarrow>
          if requested_access AND NOT ZI_ACCESS_FULL_CONTROL \<noteq> 0 \<or>
             ZiFailed (zi_security_descriptor_validate descriptor_view) \<or>
             ZiFailed (zi_security_token_validate token_view)
          then (ZI_STATUS_INVALID_ARGUMENT, None)
          else if requested_access = 0 then (ZI_STATUS_SUCCESS, Some 0)
          else (case sd_dacl descriptor of
                  None \<Rightarrow> (ZI_STATUS_ACCESS_DENIED, Some 0)
                | Some dacl \<Rightarrow>
                    (case acl_entries dacl of
                       None \<Rightarrow> (ZI_STATUS_ACCESS_DENIED, Some 0)
                     | Some entries \<Rightarrow>
                         if entries = [] then (ZI_STATUS_ACCESS_DENIED, Some 0)
                         else access_check_loop token requested_access 0 entries))
      | _ \<Rightarrow> (ZI_STATUS_INVALID_ARGUMENT, None))"

section \<open>The decision for one access bit\<close>

text \<open>
  What a discretionary list means: an entry applies to a token that holds its trustee unless it is
  there for inheritance only, and a bit is decided by the first applicable entry whose mask has it.
\<close>

definition ace_applies :: "ZiAccessToken \<Rightarrow> ZiAce \<Rightarrow> bool" where
  "ace_applies token entry \<longleftrightarrow>
     ace_inheritance_flags entry AND ZI_ACE_INHERIT_ONLY = 0 \<and> token_contains_id token (ace_trustee entry)"

definition dacl_allows :: "ZiAccessToken \<Rightarrow> ZiAce list \<Rightarrow> nat \<Rightarrow> bool" where
  "dacl_allows token entries b \<longleftrightarrow>
     (case find (\<lambda>entry. ace_applies token entry \<and> bit (ace_access_mask entry) b) entries of
        None \<Rightarrow> False
      | Some entry \<Rightarrow> ace_type entry = ZI_ACE_ALLOW)"

definition descriptor_entries :: "ZiSecurityDescriptor \<Rightarrow> ZiAce list" where
  "descriptor_entries descriptor =
     (case sd_dacl descriptor of
        None \<Rightarrow> []
      | Some dacl \<Rightarrow> (case acl_entries dacl of None \<Rightarrow> [] | Some entries \<Rightarrow> entries))"

lemma dacl_allows_Nil [simp]: "\<not> dacl_allows token [] b"
  by (simp add: dacl_allows_def)

lemma dacl_allows_Cons:
  "dacl_allows token (entry # entries) b \<longleftrightarrow>
     (if ace_applies token entry \<and> bit (ace_access_mask entry) b then ace_type entry = ZI_ACE_ALLOW
      else dacl_allows token entries b)"
  by (simp add: dacl_allows_def)

lemma dacl_entries_loop_types:
  "dacl_entries_loop entries = ZI_STATUS_SUCCESS \<Longrightarrow>
   entry \<in> set entries \<Longrightarrow> ace_type entry = ZI_ACE_DENY \<or> ace_type entry = ZI_ACE_ALLOW"
  by (induction entries) (auto split: if_splits)

lemma dacl_entries_loop_range:
  "dacl_entries_loop entries \<in> {ZI_STATUS_SUCCESS, ZI_STATUS_INVALID_ARGUMENT}"
  by (induction entries) auto

lemma token_groups_loop_range:
  "token_groups_loop previous groups \<in> {ZI_STATUS_SUCCESS, ZI_STATUS_INVALID_ARGUMENT}"
  by (induction groups arbitrary: previous) auto

lemma zi_security_descriptor_validate_range:
  "zi_security_descriptor_validate d \<in> {ZI_STATUS_SUCCESS, ZI_STATUS_INVALID_ARGUMENT}"
  using dacl_entries_loop_range
  by (auto simp: zi_security_descriptor_validate_def split: option.splits)

lemma zi_security_token_validate_range:
  "zi_security_token_validate t \<in> {ZI_STATUS_SUCCESS, ZI_STATUS_INVALID_ARGUMENT}"
  using token_groups_loop_range
  by (auto simp: zi_security_token_validate_def split: option.splits)

lemma word_nonzero_bit: "w \<noteq> 0 \<longleftrightarrow> (\<exists>b. bit w b)" for w :: "'a::len word"
  using bit_eqI [of w 0] by auto

lemma access_check_loop_spec:
  assumes "\<forall>entry \<in> set entries. ace_type entry = ZI_ACE_DENY \<or> ace_type entry = ZI_ACE_ALLOW"
    and "remaining \<noteq> 0"
  shows "if \<forall>b. bit remaining b \<longrightarrow> dacl_allows token entries b
    then access_check_loop token remaining granted entries = (ZI_STATUS_SUCCESS, Some (granted OR remaining))
    else \<exists>partial. access_check_loop token remaining granted entries = (ZI_STATUS_ACCESS_DENIED, Some partial)"
  using assms
proof (induction entries arbitrary: remaining granted)
  case Nil
  then show ?case by (simp add: word_nonzero_bit)
next
  case (Cons entry entries)
  let ?relevant = "ace_access_mask entry AND remaining"
  let ?rest = "remaining AND NOT ?relevant"
  have types: "\<forall>e \<in> set entries. ace_type e = ZI_ACE_DENY \<or> ace_type e = ZI_ACE_ALLOW"
    using Cons.prems(1) by simp
  note IH = Cons.IH [OF types]
  consider (skip) "\<not> ace_applies token entry \<or> ?relevant = 0"
    | (deny) "ace_applies token entry" "?relevant \<noteq> 0" "ace_type entry = ZI_ACE_DENY"
    | (allow) "ace_applies token entry" "?relevant \<noteq> 0" "ace_type entry = ZI_ACE_ALLOW"
    using Cons.prems(1) by auto
  then show ?case
  proof cases
    case skip
    then have "(\<forall>b. bit remaining b \<longrightarrow> dacl_allows token (entry # entries) b) \<longleftrightarrow>
        (\<forall>b. bit remaining b \<longrightarrow> dacl_allows token entries b)"
      using word_nonzero_bit [of ?relevant] by (auto simp: dacl_allows_Cons bit_simps)
    moreover have "access_check_loop token remaining granted (entry # entries) =
        access_check_loop token remaining granted entries"
      using skip by (auto simp: ace_applies_def Let_def)
    ultimately show ?thesis using IH [OF Cons.prems(2), of granted] by presburger
  next
    case deny
    then obtain b where "bit remaining b" "bit (ace_access_mask entry) b"
      by (auto simp: word_nonzero_bit bit_simps)
    with deny have "\<not> (\<forall>b. bit remaining b \<longrightarrow> dacl_allows token (entry # entries) b)"
      by (auto simp: dacl_allows_Cons)
    with deny show ?thesis by (simp add: ace_applies_def Let_def)
  next
    case allow
    have in_width: "b < 32" if "bit remaining b" for b using bit_imp_le_length [OF that] by simp
    have same: "(\<forall>b. bit remaining b \<longrightarrow> dacl_allows token (entry # entries) b) \<longleftrightarrow>
        (\<forall>b. bit ?rest b \<longrightarrow> dacl_allows token entries b)"
      using allow in_width by (auto simp: dacl_allows_Cons bit_simps)
    have all: "(granted OR ?relevant) OR ?rest = granted OR remaining"
      by (auto simp: bit_eq_iff bit_simps)
    show ?thesis
    proof (cases "?rest = 0")
      case True
      with all have "granted OR ?relevant = granted OR remaining" by simp
      with True same allow show ?thesis by (simp add: ace_applies_def Let_def)
    next
      case False
      then have step: "access_check_loop token remaining granted (entry # entries) =
          access_check_loop token ?rest (granted OR ?relevant) entries"
        using allow by (simp add: ace_applies_def Let_def)
      show ?thesis
        using IH [OF False, of "granted OR ?relevant"] unfolding same all step .
    qed
  qed
qed

section \<open>Properties\<close>

text \<open>
  The contract of the reference monitor towards the executive: a check that succeeds grants exactly
  the mask that was asked for, a mask is granted exactly when each of its bits is decided to be
  allowed, and no other status than these three comes out.
\<close>

locale access_monitor =
  fixes check :: "'d \<Rightarrow> 't \<Rightarrow> ZiAccessMask \<Rightarrow> ZiStatus \<times> ZiAccessMask option"
    and allows :: "'d \<Rightarrow> 't \<Rightarrow> nat \<Rightarrow> bool"
    and well_formed :: "'d \<Rightarrow> 't \<Rightarrow> bool"
  assumes check_ok: "well_formed d t \<Longrightarrow> r AND NOT ZI_ACCESS_FULL_CONTROL = 0 \<Longrightarrow>
      \<forall>b. bit r b \<longrightarrow> allows d t b \<Longrightarrow> check d t r = (ZI_STATUS_SUCCESS, Some r)"
    and check_denied: "well_formed d t \<Longrightarrow> r AND NOT ZI_ACCESS_FULL_CONTROL = 0 \<Longrightarrow>
      \<not> (\<forall>b. bit r b \<longrightarrow> allows d t b) \<Longrightarrow> fst (check d t r) = ZI_STATUS_ACCESS_DENIED"
    and check_malformed: "\<not> well_formed d t \<or> r AND NOT ZI_ACCESS_FULL_CONTROL \<noteq> 0 \<Longrightarrow>
      check d t r = (ZI_STATUS_INVALID_ARGUMENT, None)"
begin

lemma status_range: "fst (check d t r) \<in>
    {ZI_STATUS_SUCCESS, ZI_STATUS_ACCESS_DENIED, ZI_STATUS_INVALID_ARGUMENT}"
  using check_ok [of d t r] check_denied [of d t r] check_malformed [of d t r] by (smt (verit) fst_conv insertCI)

lemma granted_exact:
  assumes "\<not> ZiFailed (fst (check d t r))"
  shows "check d t r = (ZI_STATUS_SUCCESS, Some r)"
proof -
  have "fst (check d t r) = ZI_STATUS_SUCCESS" using assms status_range [of d t r] by auto
  then show ?thesis
    using check_ok [of d t r] check_denied [of d t r] check_malformed [of d t r] by (metis ZiStatus.distinct fst_conv)
qed

lemma split_request:
  assumes "well_formed d t" "(r OR s) AND NOT ZI_ACCESS_FULL_CONTROL = 0"
  shows "fst (check d t (r OR s)) = ZI_STATUS_SUCCESS \<longleftrightarrow>
    fst (check d t r) = ZI_STATUS_SUCCESS \<and> fst (check d t s) = ZI_STATUS_SUCCESS"
proof -
  have parts: "r AND NOT ZI_ACCESS_FULL_CONTROL = 0" "s AND NOT ZI_ACCESS_FULL_CONTROL = 0"
    using assms(2) by (simp_all add: bit_eq_iff bit_simps) blast+
  have "fst (check d t m) = ZI_STATUS_SUCCESS \<longleftrightarrow> (\<forall>b. bit m b \<longrightarrow> allows d t b)"
    if "m AND NOT ZI_ACCESS_FULL_CONTROL = 0" for m
    using check_ok [OF assms(1) that] check_denied [OF assms(1) that] by fastforce
  with parts assms(2) show ?thesis by (auto simp: bit_simps)
qed

end

definition descriptor_allows :: "ZiSecurityDescriptor option \<Rightarrow> ZiAccessToken option \<Rightarrow> nat \<Rightarrow> bool" where
  "descriptor_allows descriptor_view token_view b \<longleftrightarrow>
     (case (descriptor_view, token_view) of
        (Some descriptor, Some token) \<Rightarrow> dacl_allows token (descriptor_entries descriptor) b
      | _ \<Rightarrow> False)"

definition security_well_formed :: "ZiSecurityDescriptor option \<Rightarrow> ZiAccessToken option \<Rightarrow> bool" where
  "security_well_formed descriptor_view token_view \<longleftrightarrow>
     zi_security_descriptor_validate descriptor_view = ZI_STATUS_SUCCESS \<and>
     zi_security_token_validate token_view = ZI_STATUS_SUCCESS"

lemma security_well_formed_cases:
  assumes "security_well_formed d t"
  obtains descriptor token where "d = Some descriptor" "t = Some token"
  using assms by (cases d; cases t) (auto simp: security_well_formed_def
      zi_security_descriptor_validate_def zi_security_token_validate_def)

lemma descriptor_entries_types:
  assumes "zi_security_descriptor_validate (Some descriptor) = ZI_STATUS_SUCCESS"
    and "entry \<in> set (descriptor_entries descriptor)"
  shows "ace_type entry = ZI_ACE_DENY \<or> ace_type entry = ZI_ACE_ALLOW"
  using assms dacl_entries_loop_types
  by (auto simp: zi_security_descriptor_validate_def descriptor_entries_def split: option.splits if_splits)

lemma zi_security_access_check_well_formed:
  assumes "security_well_formed (Some descriptor) (Some token)" "r AND NOT ZI_ACCESS_FULL_CONTROL = 0" "r \<noteq> 0"
  shows "zi_security_access_check (Some descriptor) (Some token) r =
    (if descriptor_entries descriptor = [] then (ZI_STATUS_ACCESS_DENIED, Some 0)
     else access_check_loop token r 0 (descriptor_entries descriptor))"
  using assms
  by (auto simp: zi_security_access_check_def security_well_formed_def descriptor_entries_def split: option.splits)

lemma zi_security_access_check_decides:
  assumes "security_well_formed d t" "r AND NOT ZI_ACCESS_FULL_CONTROL = 0"
  shows "if \<forall>b. bit r b \<longrightarrow> descriptor_allows d t b
    then zi_security_access_check d t r = (ZI_STATUS_SUCCESS, Some r)
    else fst (zi_security_access_check d t r) = ZI_STATUS_ACCESS_DENIED"
proof -
  from assms(1) obtain descriptor token where dt: "d = Some descriptor" "t = Some token"
    by (rule security_well_formed_cases)
  have types: "\<forall>e \<in> set (descriptor_entries descriptor). ace_type e = ZI_ACE_DENY \<or> ace_type e = ZI_ACE_ALLOW"
    using assms(1) descriptor_entries_types unfolding dt security_well_formed_def by blast
  show ?thesis
  proof (cases "r = 0")
    case True
    with assms dt show ?thesis
      by (simp add: zi_security_access_check_def security_well_formed_def)
  next
    case False
    show ?thesis
      using access_check_loop_spec [OF types False, where token = token and granted = 0] False
        zi_security_access_check_well_formed [OF assms(1) [unfolded dt] assms(2) False]
      by (cases "descriptor_entries descriptor = []")
        (auto simp: dt descriptor_allows_def word_nonzero_bit split: if_splits)
  qed
qed

interpretation monitor: access_monitor zi_security_access_check descriptor_allows security_well_formed
proof
  fix d t r
  show "zi_security_access_check d t r = (ZI_STATUS_INVALID_ARGUMENT, None)"
    if "\<not> security_well_formed d t \<or> r AND NOT ZI_ACCESS_FULL_CONTROL \<noteq> 0"
    using that zi_security_descriptor_validate_range [of d] zi_security_token_validate_range [of t]
    by (auto simp: zi_security_access_check_def security_well_formed_def split: option.splits)
qed (use zi_security_access_check_decides in \<open>smt (verit)\<close>)+

text \<open>
  C1: the access check decides bit by bit. For a well-formed descriptor and token and a mask inside
  full control it succeeds, granting exactly the mask, if for every requested bit the first
  applicable entry that mentions the bit allows it, and it denies the access otherwise; so without
  a list, with an empty list, or with a bit no entry mentions, nothing is granted.
\<close>

theorem zi_security_access_check_correct:
  assumes "zi_security_descriptor_validate (Some descriptor) = ZI_STATUS_SUCCESS"
    and "zi_security_token_validate (Some token) = ZI_STATUS_SUCCESS"
    and "requested AND NOT ZI_ACCESS_FULL_CONTROL = 0"
  shows "if \<forall>b. bit requested b \<longrightarrow> dacl_allows token (descriptor_entries descriptor) b
    then zi_security_access_check (Some descriptor) (Some token) requested = (ZI_STATUS_SUCCESS, Some requested)
    else fst (zi_security_access_check (Some descriptor) (Some token) requested) = ZI_STATUS_ACCESS_DENIED"
  using zi_security_access_check_decides [of "Some descriptor" "Some token" requested] assms
  by (simp add: security_well_formed_def descriptor_allows_def)

theorem zi_security_access_check_correct_witness:
  "let user = \<lparr>sid_authority = 3, sid_value = 7\<rparr>; team = \<lparr>sid_authority = 2, sid_value = 9\<rparr>;
       deny = \<lparr>ace_type = 0, ace_inheritance_flags = 0, ace_reserved = 0, ace_access_mask = 2, ace_trustee = team\<rparr>;
       allow = \<lparr>ace_type = 1, ace_inheritance_flags = 0, ace_reserved = 0, ace_access_mask = 3, ace_trustee = user\<rparr>;
       acl = \<lparr>acl_struct_size = 24, acl_version = 1, acl_entries = Some [deny, allow]\<rparr>;
       descriptor = \<lparr>sd_struct_size = 40, sd_version = 1, sd_owner = user, sd_primary_group = team,
                     sd_dacl = Some acl, sd_control_flags = 0\<rparr>;
       token = \<lparr>token_struct_size = 40, token_version = 1, token_user = user, token_groups = Some [team],
                token_privileges = 0\<rparr>
   in fst (zi_security_access_check (Some descriptor) (Some token) 3) = ZI_STATUS_ACCESS_DENIED"
proof -
  let ?user = "\<lparr>sid_authority = 3, sid_value = 7\<rparr>" and ?group = "\<lparr>sid_authority = 2, sid_value = 9\<rparr>"
  let ?deny = "\<lparr>ace_type = 0, ace_inheritance_flags = 0, ace_reserved = 0, ace_access_mask = 2, ace_trustee = ?group\<rparr>"
  let ?allow = "\<lparr>ace_type = 1, ace_inheritance_flags = 0, ace_reserved = 0, ace_access_mask = 3, ace_trustee = ?user\<rparr>"
  let ?acl = "\<lparr>acl_struct_size = 24, acl_version = 1, acl_entries = Some [?deny, ?allow]\<rparr>"
  let ?descriptor = "\<lparr>sd_struct_size = 40, sd_version = 1, sd_owner = ?user, sd_primary_group = ?group,
    sd_dacl = Some ?acl, sd_control_flags = 0\<rparr>"
  let ?token = "\<lparr>token_struct_size = 40, token_version = 1, token_user = ?user, token_groups = Some [?group],
    token_privileges = 0\<rparr>"
  have valid: "zi_security_descriptor_validate (Some ?descriptor) = ZI_STATUS_SUCCESS"
    "zi_security_token_validate (Some ?token) = ZI_STATUS_SUCCESS"
    "(3 :: ZiAccessMask) AND NOT ZI_ACCESS_FULL_CONTROL = 0" by code_simp+
  have "bit (3 :: ZiAccessMask) 1 \<and> \<not> dacl_allows ?token (descriptor_entries ?descriptor) 1" by code_simp
  with zi_security_access_check_correct [OF valid] show ?thesis unfolding Let_def by (metis (no_types, lifting))
qed

text \<open>
  C24: access decisions compose. Two masks are granted together exactly when each is granted alone, so
  a request can neither gain nor lose rights by being split.
\<close>

theorem zi_security_access_check_split:
  assumes "zi_security_descriptor_validate (Some descriptor) = ZI_STATUS_SUCCESS"
    and "zi_security_token_validate (Some token) = ZI_STATUS_SUCCESS"
    and "(r OR s) AND NOT ZI_ACCESS_FULL_CONTROL = 0"
  shows "fst (zi_security_access_check (Some descriptor) (Some token) (r OR s)) = ZI_STATUS_SUCCESS \<longleftrightarrow>
    fst (zi_security_access_check (Some descriptor) (Some token) r) = ZI_STATUS_SUCCESS \<and>
    fst (zi_security_access_check (Some descriptor) (Some token) s) = ZI_STATUS_SUCCESS"
  by (rule monitor.split_request) (use assms in \<open>simp_all add: security_well_formed_def\<close>)

theorem zi_security_access_check_split_witness:
  "let user = \<lparr>sid_authority = 3, sid_value = 7\<rparr>;
       allow = \<lparr>ace_type = 1, ace_inheritance_flags = 0, ace_reserved = 0, ace_access_mask = 1, ace_trustee = user\<rparr>;
       acl = \<lparr>acl_struct_size = 24, acl_version = 1, acl_entries = Some [allow]\<rparr>;
       descriptor = \<lparr>sd_struct_size = 40, sd_version = 1, sd_owner = user, sd_primary_group = user,
                     sd_dacl = Some acl, sd_control_flags = 0\<rparr>;
       token = \<lparr>token_struct_size = 40, token_version = 1, token_user = user, token_groups = Some [],
                token_privileges = 0\<rparr>
   in fst (zi_security_access_check (Some descriptor) (Some token) (1 OR 2)) \<noteq> ZI_STATUS_SUCCESS"
proof -
  let ?user = "\<lparr>sid_authority = 3, sid_value = 7\<rparr>"
  let ?allow = "\<lparr>ace_type = 1, ace_inheritance_flags = 0, ace_reserved = 0, ace_access_mask = 1, ace_trustee = ?user\<rparr>"
  let ?acl = "\<lparr>acl_struct_size = 24, acl_version = 1, acl_entries = Some [?allow]\<rparr>"
  let ?descriptor = "\<lparr>sd_struct_size = 40, sd_version = 1, sd_owner = ?user, sd_primary_group = ?user,
    sd_dacl = Some ?acl, sd_control_flags = 0\<rparr>"
  let ?token = "\<lparr>token_struct_size = 40, token_version = 1, token_user = ?user, token_groups = Some [],
    token_privileges = 0\<rparr>"
  have valid: "zi_security_descriptor_validate (Some ?descriptor) = ZI_STATUS_SUCCESS"
    "zi_security_token_validate (Some ?token) = ZI_STATUS_SUCCESS"
    "((1 :: ZiAccessMask) OR 2) AND NOT ZI_ACCESS_FULL_CONTROL = 0" by code_simp+
  have "fst (zi_security_access_check (Some ?descriptor) (Some ?token) 2) \<noteq> ZI_STATUS_SUCCESS" by code_simp
  with zi_security_access_check_split [OF valid] show ?thesis unfolding Let_def by blast
qed

end
