(* ===== verification/Zi_Object.thy ===== *)
theory Zi_Object
  imports Zi_Unicode Zi_Security
begin

text \<open>
  Object headers and their counts, the first part of \<^verbatim>\<open>kernel/executive/object/object.c\<close>, over
  the structures of \<^verbatim>\<open>zi/object.h\<close>, and the type registry.

  Objects are shared and updated through pointers, so the model has a store: an address names an
  object header, and address 0 is \<^verbatim>\<open>NULL\<close>. The routines an object type supplies are function
  pointers; a code address names such a routine, and the operations that call one take the meaning
  \<^term>\<open>call\<close> of code addresses as an argument. A routine may change the store and the state
  \<^term>\<open>world\<close> of the rest of the system. A type descriptor carries its address, which is what the
  code compares when it compares pointers to descriptors. Names stored in headers are not
  \<^verbatim>\<open>NULL\<close> with a size: \<^verbatim>\<open>zi_object_initialise\<close> refuses such a view.
\<close>

unbundle bit_operations_syntax

type_synonym addr = nat
type_synonym code_addr = nat

abbreviation (input) NULL :: addr where
  "NULL \<equiv> 0"

abbreviation (input) sizeof_ZiObjectOperations :: u32 where
  "sizeof_ZiObjectOperations \<equiv> 24"

definition ZI_OBJECT_TYPE_DIRECTORY :: u32 where
  "ZI_OBJECT_TYPE_DIRECTORY = 1"

definition ZI_OBJECT_FLAG_NEW_HANDLES_DISABLED :: u32 where
  "ZI_OBJECT_FLAG_NEW_HANDLES_DISABLED = 1"

record ZiObjectOperations =
  ops_struct_size :: u32
  ops_version :: u32
  ops_destroy :: "code_addr option"
  ops_last_handle_closed :: "code_addr option"

record ZiObjectType =
  type_address :: addr
  type_id :: u32
  type_name :: "bytes option"
  type_operations :: "ZiObjectOperations option"
  type_flags :: u32

record ZiObjectHeader =
  obj_type :: ZiObjectType
  obj_name :: bytes
  obj_parent :: addr
  obj_security_descriptor :: "ZiSecurityDescriptor option"
  obj_operations :: "ZiObjectOperations option"
  obj_debug_name :: "bytes option"
  obj_reference_count :: u32
  obj_handle_count :: u32
  obj_flags :: u32
  obj_is_destroyed :: u32

record ZiObjectDirectory =
  dir_entries :: "addr list"
  dir_capacity :: nat
  dir_count :: nat

record 'w ZiObjectSpace =
  objects :: "addr \<Rightarrow> ZiObjectHeader"
  directories :: "addr \<Rightarrow> ZiObjectDirectory"
  world :: 'w

type_synonym 'w callbacks = "code_addr \<Rightarrow> addr \<Rightarrow> 'w ZiObjectSpace \<Rightarrow> 'w ZiObjectSpace"

definition put_object :: "addr \<Rightarrow> ZiObjectHeader \<Rightarrow> 'w ZiObjectSpace \<Rightarrow> 'w ZiObjectSpace" where
  "put_object object h s = s\<lparr>objects := (objects s)(object := h)\<rparr>"

section \<open>Operations on one object\<close>

definition object_type_is_valid :: "ZiObjectType option \<Rightarrow> bool" where
  "object_type_is_valid type_view \<longleftrightarrow>
     (case type_view of
        None \<Rightarrow> False
      | Some otype \<Rightarrow>
          type_id otype \<noteq> 0 \<and>
          (case type_name otype of
             None \<Rightarrow> False
           | Some name \<Rightarrow> name \<noteq> [] \<and> ZiSucceeded (zi_utf8_validate (Some name))) \<and>
          (case type_operations otype of
             None \<Rightarrow> False
           | Some ops \<Rightarrow> ops_struct_size ops = sizeof_ZiObjectOperations \<and> ops_version ops = 2))"

definition zi_object_initialise ::
  "addr \<Rightarrow> ZiObjectType option \<Rightarrow> bytes option \<Rightarrow> addr \<Rightarrow> ZiSecurityDescriptor option \<Rightarrow> bytes option \<Rightarrow>
   'w ZiObjectSpace \<Rightarrow> ZiStatus \<times> 'w ZiObjectSpace" where
  "zi_object_initialise object type_view name_view parent security_descriptor debug_name s =
     (case (type_view, name_view) of
        (Some otype, Some name) \<Rightarrow>
          if object = NULL \<or> \<not> object_type_is_valid type_view \<or> ZiFailed (zi_utf8_validate name_view)
          then (ZI_STATUS_INVALID_ARGUMENT, s)
          else (ZI_STATUS_SUCCESS,
                put_object object
                  \<lparr>obj_type = otype, obj_name = name, obj_parent = parent,
                   obj_security_descriptor = security_descriptor,
                   obj_operations = type_operations otype, obj_debug_name = debug_name,
                   obj_reference_count = 1, obj_handle_count = 0, obj_flags = 0, obj_is_destroyed = 0\<rparr> s)
      | _ \<Rightarrow> (ZI_STATUS_INVALID_ARGUMENT, s))"

definition zi_object_reference :: "addr \<Rightarrow> 'w ZiObjectSpace \<Rightarrow> ZiStatus \<times> 'w ZiObjectSpace" where
  "zi_object_reference object s =
     (if object = NULL then (ZI_STATUS_INVALID_ARGUMENT, s)
      else
        let h = objects s object in
        if obj_is_destroyed h \<noteq> 0 \<or> obj_reference_count h = UINT32_MAX then (ZI_STATUS_INVALID_STATE, s)
        else (ZI_STATUS_SUCCESS,
              put_object object (h\<lparr>obj_reference_count := obj_reference_count h + 1\<rparr>) s))"

definition object_release_locked :: "ZiObjectHeader \<Rightarrow> ZiStatus \<times> ZiObjectHeader \<times> code_addr option" where
  "object_release_locked h =
     (let h' = h\<lparr>obj_reference_count := obj_reference_count h - 1\<rparr> in
      if obj_reference_count h' \<noteq> 0 then (ZI_STATUS_SUCCESS, h', None)
      else if obj_handle_count h' \<noteq> 0
      then (ZI_STATUS_INVALID_STATE, h'\<lparr>obj_reference_count := obj_reference_count h' + 1\<rparr>, None)
      else (ZI_STATUS_SUCCESS, h'\<lparr>obj_is_destroyed := 1\<rparr>,
            case obj_operations h' of None \<Rightarrow> None | Some ops \<Rightarrow> ops_destroy ops))"

definition call_optional :: "'w callbacks \<Rightarrow> code_addr option \<Rightarrow> addr \<Rightarrow> 'w ZiObjectSpace \<Rightarrow> 'w ZiObjectSpace" where
  "call_optional call routine object s =
     (case routine of None \<Rightarrow> s | Some code \<Rightarrow> call code object s)"

definition zi_object_dereference ::
  "'w callbacks \<Rightarrow> addr \<Rightarrow> 'w ZiObjectSpace \<Rightarrow> ZiStatus \<times> 'w ZiObjectSpace" where
  "zi_object_dereference call object s =
     (if object = NULL then (ZI_STATUS_INVALID_ARGUMENT, s)
      else
        let h = objects s object in
        if obj_is_destroyed h \<noteq> 0 \<or> obj_reference_count h = 0 then (ZI_STATUS_INVALID_STATE, s)
        else
          let (status, h', destroy) = object_release_locked h;
              s' = put_object object h' s in
          (status, if ZiSucceeded status then call_optional call destroy object s' else s'))"

definition zi_object_add_handle :: "addr \<Rightarrow> 'w ZiObjectSpace \<Rightarrow> ZiStatus \<times> 'w ZiObjectSpace" where
  "zi_object_add_handle object s =
     (if object = NULL then (ZI_STATUS_INVALID_ARGUMENT, s)
      else
        let h = objects s object in
        if obj_is_destroyed h \<noteq> 0 \<or> obj_handle_count h = UINT32_MAX \<or>
           obj_reference_count h = UINT32_MAX \<or> obj_flags h AND ZI_OBJECT_FLAG_NEW_HANDLES_DISABLED \<noteq> 0
        then (ZI_STATUS_INVALID_STATE, s)
        else (ZI_STATUS_SUCCESS,
              put_object object (h\<lparr>obj_reference_count := obj_reference_count h + 1,
                                   obj_handle_count := obj_handle_count h + 1\<rparr>) s))"

text \<open>
  The first critical section of \<^verbatim>\<open>zi_object_remove_handle\<close>: the new header and the routine to call
  between the two sections.
\<close>

definition object_drop_handle_locked :: "ZiObjectHeader \<Rightarrow> ZiObjectHeader \<times> code_addr option" where
  "object_drop_handle_locked h =
     (let h' = h\<lparr>obj_handle_count := obj_handle_count h - 1\<rparr> in
      case obj_operations h' of
        Some ops \<Rightarrow>
          if obj_handle_count h' = 0 \<and> ops_last_handle_closed ops \<noteq> None
          then (h'\<lparr>obj_flags := obj_flags h' OR ZI_OBJECT_FLAG_NEW_HANDLES_DISABLED\<rparr>,
                ops_last_handle_closed ops)
          else (h', None)
      | None \<Rightarrow> (h', None))"

definition zi_object_remove_handle ::
  "'w callbacks \<Rightarrow> addr \<Rightarrow> 'w ZiObjectSpace \<Rightarrow> ZiStatus \<times> 'w ZiObjectSpace" where
  "zi_object_remove_handle call object s =
     (if object = NULL then (ZI_STATUS_INVALID_ARGUMENT, s)
      else
        let h = objects s object in
        if obj_is_destroyed h \<noteq> 0 \<or> obj_handle_count h = 0 \<or> obj_reference_count h = 0
        then (ZI_STATUS_INVALID_STATE, s)
        else
          let (h1, last_handle_closed) = object_drop_handle_locked h;
              s1 = call_optional call last_handle_closed object (put_object object h1 s);
              h2 = objects s1 object in
          if obj_is_destroyed h2 \<noteq> 0 \<or> obj_reference_count h2 = 0 then (ZI_STATUS_INVALID_STATE, s1)
          else
            let (status, h3, destroy) = object_release_locked h2;
                s2 = put_object object h3 s1 in
            (status, if ZiSucceeded status then call_optional call destroy object s2 else s2))"

section \<open>The type registry\<close>

text \<open>
  The storage of a registry is a list as long as its capacity whose first \<^verbatim>\<open>count\<close> cells hold
  descriptors. The loops over the registered types go from index 0 to the count.
\<close>

record ZiObjectTypeRegistry =
  reg_types :: "ZiObjectType option list"
  reg_capacity :: nat
  reg_count :: nat

definition zi_object_type_registry_initialise :: "nat \<Rightarrow> ZiObjectTypeRegistry result" where
  "zi_object_type_registry_initialise capacity =
     (if capacity = 0 then Inl ZI_STATUS_INVALID_ARGUMENT
      else Inr \<lparr>reg_types = replicate capacity None, reg_capacity = capacity, reg_count = 0\<rparr>)"

definition string_views_equal :: "bytes \<Rightarrow> bytes \<Rightarrow> bool" where
  "string_views_equal left right \<longleftrightarrow>
     length left = length right \<and> list_all (\<lambda>index. left ! index = right ! index) [0..<length left]"

definition type_names_equal :: "ZiObjectType \<Rightarrow> bytes \<Rightarrow> bool" where
  "type_names_equal otype name \<longleftrightarrow>
     (case type_name otype of None \<Rightarrow> False | Some n \<Rightarrow> string_views_equal n name)"

function registry_find :: "(ZiObjectType \<Rightarrow> bool) \<Rightarrow> ZiObjectTypeRegistry \<Rightarrow> nat \<Rightarrow> ZiObjectType option" where
  "registry_find matches registry index =
     (if index < reg_count registry then
        (case reg_types registry ! index of
           Some otype \<Rightarrow> if matches otype then Some otype else registry_find matches registry (Suc index)
         | None \<Rightarrow> registry_find matches registry (Suc index))
      else None)"
  by pat_completeness auto
termination
  by (relation "measure (\<lambda>(_, registry, index). reg_count registry - index)") auto

declare registry_find.simps [simp del]

definition zi_object_type_register ::
  "ZiObjectTypeRegistry \<Rightarrow> ZiObjectType option \<Rightarrow> ZiStatus \<times> ZiObjectTypeRegistry" where
  "zi_object_type_register registry type_view =
     (case type_view of
        None \<Rightarrow> (ZI_STATUS_INVALID_ARGUMENT, registry)
      | Some otype \<Rightarrow>
          if \<not> object_type_is_valid type_view then (ZI_STATUS_INVALID_ARGUMENT, registry)
          else if registry_find
                    (\<lambda>existing. type_id existing = type_id otype \<or>
                       type_names_equal existing (the (type_name otype))) registry 0 \<noteq> None
          then (ZI_STATUS_ALREADY_EXISTS, registry)
          else if reg_count registry = reg_capacity registry then (ZI_STATUS_BUFFER_TOO_SMALL, registry)
          else (ZI_STATUS_SUCCESS,
                registry\<lparr>reg_types := (reg_types registry)[reg_count registry := Some otype],
                         reg_count := reg_count registry + 1\<rparr>))"

definition zi_object_type_find_by_id :: "ZiObjectTypeRegistry \<Rightarrow> u32 \<Rightarrow> ZiObjectType result" where
  "zi_object_type_find_by_id registry wanted =
     (if wanted = 0 then Inl ZI_STATUS_INVALID_ARGUMENT
      else case registry_find (\<lambda>otype. type_id otype = wanted) registry 0 of
             Some otype \<Rightarrow> Inr otype
           | None \<Rightarrow> Inl ZI_STATUS_NOT_FOUND)"

definition zi_object_type_find_by_name :: "ZiObjectTypeRegistry \<Rightarrow> bytes option \<Rightarrow> ZiObjectType result" where
  "zi_object_type_find_by_name registry name_view =
     (case name_view of
        None \<Rightarrow> Inl ZI_STATUS_INVALID_ARGUMENT
      | Some name \<Rightarrow>
          if name = [] \<or> ZiFailed (zi_utf8_validate name_view) then Inl ZI_STATUS_INVALID_ARGUMENT
          else case registry_find (\<lambda>otype. type_names_equal otype name) registry 0 of
                 Some otype \<Rightarrow> Inr otype
               | None \<Rightarrow> Inl ZI_STATUS_NOT_FOUND)"

section \<open>The life of an object\<close>

text \<open>
  An object that is alive is referenced, and a destroyed one has neither references nor handles.
  Operations on objects are run in any order, and \<^term>\<open>object_balance\<close> counts the references acquired
  minus those released by the operations that succeeded.
\<close>

definition object_ok :: "ZiObjectHeader \<Rightarrow> bool" where
  "object_ok h \<longleftrightarrow>
     (if obj_is_destroyed h = 0 then obj_reference_count h \<noteq> 0
      else obj_reference_count h = 0 \<and> obj_handle_count h = 0)"

datatype object_op = Reference addr | Dereference addr | AddHandle addr | RemoveHandle addr

fun object_step :: "'w callbacks \<Rightarrow> object_op \<Rightarrow> 'w ZiObjectSpace \<Rightarrow> ZiStatus \<times> 'w ZiObjectSpace" where
  "object_step call (Reference object) s = zi_object_reference object s"
| "object_step call (Dereference object) s = zi_object_dereference call object s"
| "object_step call (AddHandle object) s = zi_object_add_handle object s"
| "object_step call (RemoveHandle object) s = zi_object_remove_handle call object s"

fun object_gain :: "addr \<Rightarrow> object_op \<Rightarrow> int" where
  "object_gain object (Reference p) = of_bool (p = object)"
| "object_gain object (Dereference p) = - of_bool (p = object)"
| "object_gain object (AddHandle p) = of_bool (p = object)"
| "object_gain object (RemoveHandle p) = - of_bool (p = object)"

fun object_run :: "'w callbacks \<Rightarrow> object_op list \<Rightarrow> 'w ZiObjectSpace \<Rightarrow> 'w ZiObjectSpace" where
  "object_run call [] s = s"
| "object_run call (op # ops) s = object_run call ops (snd (object_step call op s))"

fun object_balance :: "'w callbacks \<Rightarrow> addr \<Rightarrow> object_op list \<Rightarrow> 'w ZiObjectSpace \<Rightarrow> int" where
  "object_balance call object [] s = 0"
| "object_balance call object (op # ops) s =
     (let (status, s') = object_step call op s in
      (if ZiSucceeded status then object_gain object op else 0) + object_balance call object ops s')"

lemma put_object_objects [simp]: "objects (put_object object h s) = (objects s)(object := h)"
  and put_object_directories [simp]: "directories (put_object object h s) = directories s"
  and put_object_world [simp]: "world (put_object object h s) = world s"
  by (simp_all add: put_object_def)

lemma put_object_same [simp]: "put_object p h (put_object p h' s) = put_object p h s"
  by (simp add: put_object_def)

lemma put_object_id [simp]: "put_object p (objects s p) s = s"
  by (simp add: put_object_def)

lemma unat_inc:
  fixes w :: u32
  assumes "w \<noteq> UINT32_MAX"
  shows "unat (w + 1) = unat w + 1"
proof -
  have "unat w \<noteq> 4294967295" using assms by (simp add: word_unat_eq_iff)
  moreover have "unat w < 4294967296" using unsigned_less [of w] by simp
  ultimately show ?thesis by (simp add: unat_word_ariths)
qed

lemma uint_inc: "w \<noteq> UINT32_MAX \<Longrightarrow> uint (w + 1) = uint w + 1" for w :: u32
  using arg_cong [OF unat_inc [of w], of int] by simp

lemma uint_dec: "w \<noteq> 0 \<Longrightarrow> uint (w - 1) = uint w - 1" for w :: u32
  using arg_cong [OF unat_minus_one [of w], of int] by (simp add: unat_gt_0 of_nat_diff Suc_leI)

lemma inc_neq_0: "w \<noteq> UINT32_MAX \<Longrightarrow> w + 1 \<noteq> 0" for w :: u32
  using unat_inc [of w] by auto

subsection \<open>Routines that re-enter the object manager\<close>

text \<open>
  The routines of an object type use the object manager themselves: closing the last handle of a
  channel closes the handles in its queue and releases references to the peer and to the channel
  itself. A ledger in the state of the rest of the system records the calls of routines and, per
  object, the references and handles that routines have taken minus those they have given back. The
  ledger is bookkeeping of the proof; no operation reads it.

  \<^term>\<open>routine_step\<close> is one action of a routine as seen by one object: a critical section of the object
  manager that succeeds on the object, or anything that leaves the counts of the object, its routines
  and its lines of the ledger alone. A nested \<^verbatim>\<open>zi_object_remove_handle\<close> is the section that drops
  the handle, the actions of the routine it calls, and the section that releases the reference. A
  routine is managed when its effect is a sequence of such actions, of any length and nesting: it
  changes the counts of the object only through the object manager.
\<close>

record ledger =
  lg_called :: "(code_addr \<times> addr) list"
  lg_taken :: "addr \<Rightarrow> int"
  lg_held :: "addr \<Rightarrow> int"

definition log_call :: "'m ledger_scheme callbacks" where
  "log_call code object s = s\<lparr>world := (world s)\<lparr>lg_called := lg_called (world s) @ [(code, object)]\<rparr>\<rparr>"

definition book :: "addr \<Rightarrow> int \<Rightarrow> int \<Rightarrow> 'm ledger_scheme ZiObjectSpace \<Rightarrow> 'm ledger_scheme ZiObjectSpace" where
  "book object references handles s = s\<lparr>world := (world s)\<lparr>
     lg_taken := (lg_taken (world s))(object := lg_taken (world s) object + references),
     lg_held := (lg_held (world s))(object := lg_held (world s) object + handles)\<rparr>\<rparr>"

definition same_account :: "addr \<Rightarrow> 'm ledger_scheme ZiObjectSpace \<Rightarrow> 'm ledger_scheme ZiObjectSpace \<Rightarrow> bool" where
  "same_account object s t \<longleftrightarrow>
     obj_reference_count (objects t object) = obj_reference_count (objects s object) \<and>
     obj_handle_count (objects t object) = obj_handle_count (objects s object) \<and>
     obj_is_destroyed (objects t object) = obj_is_destroyed (objects s object) \<and>
     obj_operations (objects t object) = obj_operations (objects s object) \<and>
     (\<forall>code. count_list (lg_called (world t)) (code, object) = count_list (lg_called (world s)) (code, object)) \<and>
     lg_taken (world t) object = lg_taken (world s) object \<and> lg_held (world t) object = lg_held (world s) object"

definition drop_section :: "addr \<Rightarrow> 'm ledger_scheme ZiObjectSpace \<Rightarrow> 'm ledger_scheme ZiObjectSpace" where
  "drop_section object s =
     (let (h, last_handle_closed) = object_drop_handle_locked (objects s object) in
      call_optional log_call last_handle_closed object (put_object object h s))"

inductive routine_step :: "addr \<Rightarrow> 'm ledger_scheme ZiObjectSpace \<Rightarrow> 'm ledger_scheme ZiObjectSpace \<Rightarrow> bool"
  for object where
  elsewhere: "same_account object s t \<Longrightarrow> routine_step object s t"
| reference: "zi_object_reference object s = (ZI_STATUS_SUCCESS, t) \<Longrightarrow> routine_step object s (book object 1 0 t)"
| dereference: "zi_object_dereference log_call object s = (ZI_STATUS_SUCCESS, t) \<Longrightarrow>
    routine_step object s (book object (- 1) 0 t)"
| add_handle: "zi_object_add_handle object s = (ZI_STATUS_SUCCESS, t) \<Longrightarrow> routine_step object s (book object 1 1 t)"
| drop_handle: "obj_is_destroyed (objects s object) = 0 \<Longrightarrow> obj_handle_count (objects s object) \<noteq> 0 \<Longrightarrow>
    obj_reference_count (objects s object) \<noteq> 0 \<Longrightarrow>
    routine_step object s (book object 0 (- 1) (drop_section object s))"

abbreviation routine_steps :: "addr \<Rightarrow> 'm ledger_scheme ZiObjectSpace \<Rightarrow> 'm ledger_scheme ZiObjectSpace \<Rightarrow> bool" where
  "routine_steps object \<equiv> (routine_step object)\<^sup>*\<^sup>*"

definition managed :: "addr \<Rightarrow> 'm ledger_scheme callbacks \<Rightarrow> bool" where
  "managed object routine \<longleftrightarrow> (\<forall>code p s. routine_steps object s (routine code p s))"

definition traced :: "'m ledger_scheme callbacks \<Rightarrow> 'm ledger_scheme callbacks" where
  "traced routine code p s = routine code p (log_call code p s)"

definition releases_of :: "(code_addr \<Rightarrow> int) \<Rightarrow> (code_addr \<times> addr) list \<Rightarrow> ZiObjectHeader \<Rightarrow> addr \<Rightarrow> bool" where
  "releases_of k log h object \<longleftrightarrow>
     (\<forall>ops d. obj_operations h = Some ops \<and> ops_destroy ops = Some d \<and> ops_last_handle_closed ops \<noteq> Some d \<longrightarrow>
        int (count_list log (d, object)) = k d + of_bool (obj_is_destroyed h \<noteq> 0))"

text \<open>
  The account of an object: its counts are given numbers plus what routines have taken, and its
  destroy routine has been called a given number of times, and once more when it is destroyed.
\<close>

definition account :: "(code_addr \<Rightarrow> int) \<Rightarrow> int \<Rightarrow> int \<Rightarrow> addr \<Rightarrow> 'm ledger_scheme ZiObjectSpace \<Rightarrow> bool" where
  "account k references handles object s \<longleftrightarrow>
     object_ok (objects s object) \<and>
     uint (obj_reference_count (objects s object)) = references + lg_taken (world s) object \<and>
     uint (obj_handle_count (objects s object)) = handles + lg_held (world s) object \<and>
     releases_of k (lg_called (world s)) (objects s object) object"

lemma release_effect:
  assumes "object_release_locked h = (status, h', d)"
    and "obj_is_destroyed h = 0" "obj_reference_count h \<noteq> 0"
  shows "object_ok h'" "obj_handle_count h' = obj_handle_count h" "obj_operations h' = obj_operations h"
    and "uint (obj_reference_count h') = uint (obj_reference_count h) - of_bool (ZiSucceeded status)"
    and "status = ZI_STATUS_SUCCESS \<or> status = ZI_STATUS_INVALID_STATE \<and> h' = h"
    and "d = (if obj_is_destroyed h' = 0 then None
              else case obj_operations h of None \<Rightarrow> None | Some ops \<Rightarrow> ops_destroy ops)"
  using assms
  by (auto simp: object_release_locked_def Let_def object_ok_def uint_dec split: if_splits)

lemma drop_handle_effect:
  assumes "object_drop_handle_locked h = (h', l)"
  shows "obj_is_destroyed h' = obj_is_destroyed h" "obj_reference_count h' = obj_reference_count h"
    "obj_operations h' = obj_operations h" "obj_handle_count h' = obj_handle_count h - 1"
    "\<forall>code. l = Some code \<longrightarrow> (\<exists>ops. obj_operations h = Some ops \<and> ops_last_handle_closed ops = Some code)"
  using assms by (auto simp: object_drop_handle_locked_def Let_def split: option.splits if_splits)

definition calls_of :: "code_addr option \<Rightarrow> addr \<Rightarrow> (code_addr \<times> addr) list" where
  "calls_of routine p = (case routine of None \<Rightarrow> [] | Some code \<Rightarrow> [(code, p)])"

lemma call_optional_log [simp]:
  "objects (call_optional log_call routine p s) = objects s"
  "lg_called (world (call_optional log_call routine p s)) = lg_called (world s) @ calls_of routine p"
  "lg_taken (world (call_optional log_call routine p s)) = lg_taken (world s)"
  "lg_held (world (call_optional log_call routine p s)) = lg_held (world s)"
  by (simp_all add: call_optional_def log_call_def calls_of_def split: option.split)

lemma book_simps [simp]:
  "objects (book object k n s) = objects s" "lg_called (world (book object k n s)) = lg_called (world s)"
  "lg_taken (world (book object k n s)) object = lg_taken (world s) object + k"
  "lg_held (world (book object k n s)) object = lg_held (world s) object + n"
  by (simp_all add: book_def)

lemma account_book: "account k r m object (book object i n s) \<longleftrightarrow> account k (r + i) (m + n) object s"
  by (simp add: account_def algebra_simps)

lemma account_same: "same_account object s t \<Longrightarrow> account k r m object s \<Longrightarrow> account k r m object t"
  by (auto simp: same_account_def account_def object_ok_def releases_of_def)

lemma account_reference:
  assumes "zi_object_reference object s = (ZI_STATUS_SUCCESS, t)" "account k r m object s"
  shows "account k (r + 1) m object t"
  using assms by (auto simp: zi_object_reference_def Let_def account_def object_ok_def releases_of_def uint_inc
      inc_neq_0 split: if_splits)

lemma account_add_handle:
  assumes "zi_object_add_handle object s = (ZI_STATUS_SUCCESS, t)" "account k r m object s"
  shows "account k (r + 1) (m + 1) object t"
  using assms by (auto simp: zi_object_add_handle_def Let_def account_def object_ok_def releases_of_def uint_inc
      inc_neq_0 split: if_splits)

lemma zi_object_dereference_cases:
  assumes "zi_object_dereference call p s = (status, t)"
  obtains (refused) "ZiFailed status" "t = s"
    | (released) h d where "p \<noteq> NULL" "obj_is_destroyed (objects s p) = 0" "obj_reference_count (objects s p) \<noteq> 0"
      "object_release_locked (objects s p) = (ZI_STATUS_SUCCESS, h, d)" "status = ZI_STATUS_SUCCESS"
      "t = call_optional call d p (put_object p h s)"
proof (cases "p = NULL \<or> obj_is_destroyed (objects s p) \<noteq> 0 \<or> obj_reference_count (objects s p) = 0")
  case True
  then have "ZiFailed status" "t = s" using assms by (auto simp: zi_object_dereference_def Let_def split: if_splits)
  then show ?thesis by (rule refused)
next
  case False
  obtain st h d where r: "object_release_locked (objects s p) = (st, h, d)" by (cases "object_release_locked (objects s p)")
  from release_effect(5) [OF r] False assms r show ?thesis
    by (auto simp: zi_object_dereference_def Let_def intro: refused released)
qed

lemma account_dereference:
  assumes "zi_object_dereference log_call object s = (ZI_STATUS_SUCCESS, t)" "account k r m object s"
  shows "account k (r - 1) m object t"
  using assms(1)
proof (cases rule: zi_object_dereference_cases)
  case (released h d)
  note e = release_effect [OF released(4,2,3)]
  have "releases_of k (lg_called (world s) @ calls_of d object) h object"
    using assms(2) released(2) e(3,6) by (auto simp: account_def releases_of_def calls_of_def)
  with assms(2) e released(6) show ?thesis by (simp add: account_def)
qed simp

lemma account_drop:
  assumes "account k r m object s" "obj_is_destroyed (objects s object) = 0" "obj_handle_count (objects s object) \<noteq> 0"
  shows "account k r (m - 1) object (drop_section object s)"
proof -
  obtain h l where d: "object_drop_handle_locked (objects s object) = (h, l)"
    by (cases "object_drop_handle_locked (objects s object)")
  note e = drop_handle_effect [OF d]
  have "releases_of k (lg_called (world s) @ calls_of l object) h object"
    using assms(1,2) e(1,3,5) by (auto simp: account_def releases_of_def calls_of_def split: option.splits)
  with assms d e show ?thesis by (simp add: account_def drop_section_def object_ok_def uint_dec)
qed

lemma account_routine_step: "routine_step object s t \<Longrightarrow> account k r m object s \<Longrightarrow> account k r m object t"
  by (induction rule: routine_step.induct)
    (auto simp: account_book intro: account_same
      dest: account_reference account_dereference account_add_handle account_drop)

lemma account_routine_steps: "routine_steps object s t \<Longrightarrow> account k r m object s \<Longrightarrow> account k r m object t"
  by (induction rule: rtranclp_induct) (auto dest: account_routine_step)

lemma account_start:
  "object_ok (objects s object) \<Longrightarrow>
   account (\<lambda>d. int (count_list (lg_called (world s)) (d, object)) - of_bool (obj_is_destroyed (objects s object) \<noteq> 0))
     (uint (obj_reference_count (objects s object)) - lg_taken (world s) object)
     (uint (obj_handle_count (objects s object)) - lg_held (world s) object) object s"
  by (simp add: account_def releases_of_def)

subsection \<open>Operations with managed routines\<close>

lemma call_optional_traced:
  assumes "managed object routine"
  shows "routine_steps object (call_optional log_call l p s) (call_optional (traced routine) l p s)"
  using assms by (auto simp: managed_def call_optional_def traced_def split: option.split)

lemma dereference_traced:
  assumes "managed object routine" "zi_object_dereference (traced routine) p s = (status, t)"
  shows "\<exists>t1. zi_object_dereference log_call p s = (status, t1) \<and> routine_steps object t1 t"
  using assms call_optional_traced [OF assms(1)]
  by (auto simp: zi_object_dereference_def Let_def split: if_splits prod.splits)

lemma same_account_put: "p \<noteq> object \<Longrightarrow> same_account object s (put_object p h s)"
  by (simp add: same_account_def)

lemma same_account_log: "p \<noteq> object \<Longrightarrow> same_account object s (call_optional log_call l p s)"
  by (simp add: same_account_def calls_of_def split: option.split)

lemma call_other_steps:
  assumes "managed object routine" "p \<noteq> object"
  shows "routine_steps object s (call_optional (traced routine) l p (put_object p h s))"
proof -
  have "routine_steps object s (put_object p h s)"
    by (rule r_into_rtranclp, rule elsewhere, rule same_account_put [OF assms(2)])
  also have "routine_steps object \<dots> (call_optional log_call l p (put_object p h s))"
    by (rule r_into_rtranclp, rule elsewhere, rule same_account_log [OF assms(2)])
  also have "routine_steps object \<dots> (call_optional (traced routine) l p (put_object p h s))"
    by (rule call_optional_traced [OF assms(1)])
  finally show ?thesis .
qed

lemma dereference_other_steps:
  assumes "managed object routine" "p \<noteq> object"
  shows "routine_steps object s (snd (zi_object_dereference (traced routine) p s))"
proof -
  obtain status t where "zi_object_dereference (traced routine) p s = (status, t)"
    by (cases "zi_object_dereference (traced routine) p s")
  then show ?thesis
    by (cases rule: zi_object_dereference_cases) (simp_all add: \<open>_ = _\<close> call_other_steps [OF assms])
qed

text \<open>
  Removing a handle: the second critical section repeats the tests of a release, because the routine
  called between the sections may have released the last reference.
\<close>

lemma remove_handle_sections:
  "zi_object_remove_handle call p s =
     (if p = NULL then (ZI_STATUS_INVALID_ARGUMENT, s)
      else if obj_is_destroyed (objects s p) \<noteq> 0 \<or> obj_handle_count (objects s p) = 0 \<or> obj_reference_count (objects s p) = 0
      then (ZI_STATUS_INVALID_STATE, s)
      else case object_drop_handle_locked (objects s p) of
        (h, l) \<Rightarrow> zi_object_dereference call p (call_optional call l p (put_object p h s)))"
  by (simp add: zi_object_remove_handle_def zi_object_dereference_def Let_def split: prod.split)

lemma account_dereference_traced:
  assumes "managed object routine" "account k r m object s" "zi_object_dereference (traced routine) p s = (status, t)"
  shows "account k (r - of_bool (ZiSucceeded status \<and> p = object)) m object t"
proof (cases "p = object")
  case True
  obtain t1 where t1: "zi_object_dereference log_call p s = (status, t1)" "routine_steps object t1 t"
    using dereference_traced [OF assms(1,3)] by blast
  have "account k (r - of_bool (ZiSucceeded status)) m object t1"
    using t1(1)
  proof (cases rule: zi_object_dereference_cases)
    case (released h d)
    with account_dereference [OF _ assms(2), of t1] t1(1) True show ?thesis by simp
  qed (use assms(2) in auto)
  with True account_routine_steps [OF t1(2)] show ?thesis by simp
next
  case False
  with dereference_other_steps [OF assms(1) False, of s] assms(2,3) show ?thesis
    by (simp add: account_routine_steps)
qed

lemma account_remove_handle:
  assumes "managed object routine" "object \<noteq> NULL" "account k r m object s"
    and "zi_object_remove_handle (traced routine) p s = (status, t)"
    and "n = of_bool (p = object \<and> obj_handle_count (objects s object) \<noteq> 0)"
  shows "account k (r - of_bool (ZiSucceeded status \<and> p = object)) (m - n) object t"
proof (cases "p = NULL \<or> obj_is_destroyed (objects s p) \<noteq> 0 \<or> obj_handle_count (objects s p) = 0 \<or> obj_reference_count (objects s p) = 0")
  case True
  then have "t = s" "ZiFailed status" using assms(4) by (auto simp: remove_handle_sections split: if_splits)
  moreover have "n = 0" using True assms(2,3,5) by (auto simp: account_def object_ok_def split: if_splits)
  ultimately show ?thesis using assms(3) by simp
next
  case False
  obtain h l where d: "object_drop_handle_locked (objects s p) = (h, l)" by (cases "object_drop_handle_locked (objects s p)")
  let ?u = "call_optional (traced routine) l p (put_object p h s)"
  have "account k r (m - n) object ?u"
  proof (cases "p = object")
    case True
    then have "account k r (m - n) object (call_optional log_call l p (put_object p h s))"
      using account_drop [OF assms(3)] False d assms(5) by (simp add: drop_section_def)
    then show ?thesis by (rule account_routine_steps [OF call_optional_traced [OF assms(1)]])
  next
    case other: False
    then show ?thesis using account_routine_steps [OF call_other_steps [OF assms(1) other] assms(3)] assms(5) by simp
  qed
  moreover have "zi_object_dereference (traced routine) p ?u = (status, t)"
    using assms(4) False d by (simp add: remove_handle_sections)
  ultimately show ?thesis by (rule account_dereference_traced [OF assms(1)])
qed

lemma account_reference_other:
  assumes "account k r m object s" "zi_object_reference p s = (status, t)"
  shows "account k (r + of_bool (ZiSucceeded status \<and> p = object)) m object t"
proof (cases "ZiSucceeded status \<and> p = object")
  case True
  then have "status = ZI_STATUS_SUCCESS" using assms(2) by (auto simp: zi_object_reference_def Let_def split: if_splits)
  with True account_reference assms show ?thesis by simp
next
  case False
  then have "same_account object s t"
    using assms(2) by (auto simp: zi_object_reference_def Let_def same_account_def split: if_splits)
  from account_same [OF this assms(1)] False show ?thesis by (simp only: of_bool_eq(1) if_False add_0_right)
qed

lemma account_add_handle_other:
  assumes "account k r m object s" "zi_object_add_handle p s = (status, t)" "n = of_bool (ZiSucceeded status \<and> p = object)"
  shows "account k (r + n) (m + n) object t"
proof (cases "ZiSucceeded status \<and> p = object")
  case True
  then have "status = ZI_STATUS_SUCCESS" using assms(2) by (auto simp: zi_object_add_handle_def Let_def split: if_splits)
  with True account_add_handle assms show ?thesis by simp
next
  case False
  then have "same_account object s t"
    using assms(2) by (auto simp: zi_object_add_handle_def Let_def same_account_def split: if_splits)
  from account_same [OF this assms(1)] False show ?thesis by (simp only: assms(3) of_bool_eq(1) if_False add_0_right)
qed

lemma account_step:
  assumes "managed object routine" "object \<noteq> NULL" "account k r m object s" "object_step (traced routine) op s = (status, t)"
  shows "\<exists>m'. account k (r + (if ZiSucceeded status then object_gain object op else 0)) m' object t"
proof (cases op)
  case (Reference p)
  with account_reference_other [OF assms(3), of p] assms(4) show ?thesis by (auto split: if_splits)
next
  case (AddHandle p)
  with account_add_handle_other [OF assms(3) _ refl, of p] assms(4) show ?thesis by (cases "ZiSucceeded status") auto
next
  case (Dereference p)
  with account_dereference_traced [OF assms(1,3), of p] assms(4) show ?thesis by (cases "ZiSucceeded status") auto
next
  case (RemoveHandle p)
  with account_remove_handle [OF assms(1-3) _ refl, of p] assms(4) show ?thesis by (cases "ZiSucceeded status") auto
qed

lemma account_run:
  assumes "managed object routine" "object \<noteq> NULL" "account k r m object s"
  shows "\<exists>m'. account k (r + object_balance (traced routine) object ops s) m' object (object_run (traced routine) ops s)"
  using assms(3)
proof (induction ops arbitrary: r m s)
  case (Cons op ops)
  obtain status t where s: "object_step (traced routine) op s = (status, t)" by (cases "object_step (traced routine) op s")
  obtain m' where "account k (r + (if ZiSucceeded status then object_gain object op else 0)) m' object t"
    using account_step [OF assms(1,2) Cons.prems s] by blast
  from Cons.IH [OF this] s show ?case by (simp add: add.assoc)
qed auto

section \<open>Borrowing a reference\<close>

text \<open>
  What the handle table and the namespace rely on: taking a reference and giving it back leaves no
  trace, and a reference that could not be taken changed nothing.
\<close>

locale refcounted =
  fixes acquire :: "addr \<Rightarrow> 's \<Rightarrow> ZiStatus \<times> 's"
    and release :: "addr \<Rightarrow> 's \<Rightarrow> ZiStatus \<times> 's"
    and live :: "'s \<Rightarrow> bool"
  assumes acquire_failed: "ZiFailed (fst (acquire p s)) \<Longrightarrow> snd (acquire p s) = s"
    and release_acquired: "live s \<Longrightarrow> \<not> ZiFailed (fst (acquire p s)) \<Longrightarrow>
      release p (snd (acquire p s)) = (ZI_STATUS_SUCCESS, s)"
    and acquire_live: "live s \<Longrightarrow> live (snd (acquire p s))"
begin

lemma borrow: "live s \<Longrightarrow> \<not> ZiFailed (fst (acquire p s)) \<Longrightarrow> snd (release p (snd (acquire p s))) = s"
  by (simp add: release_acquired)

lemma borrow_twice:
  assumes "live s" "\<not> ZiFailed (fst (acquire p s))" "\<not> ZiFailed (fst (acquire q (snd (acquire p s))))"
  shows "snd (release p (snd (release q (snd (acquire q (snd (acquire p s))))))) = s"
  using assms borrow [of "snd (acquire p s)" q] borrow [of s p] acquire_live by simp

end

definition space_ok :: "'w ZiObjectSpace \<Rightarrow> bool" where
  "space_ok s \<longleftrightarrow> (\<forall>p. p \<noteq> NULL \<longrightarrow> object_ok (objects s p))"

lemma space_okD: "space_ok s \<Longrightarrow> p \<noteq> NULL \<Longrightarrow> object_ok (objects s p)"
  by (simp add: space_ok_def)

lemma zi_object_reference_space_ok: "space_ok s \<Longrightarrow> space_ok (snd (zi_object_reference p s))"
  by (auto simp: zi_object_reference_def Let_def space_ok_def object_ok_def inc_neq_0)

lemma zi_object_dereference_referenced:
  assumes "space_ok s" "\<not> ZiFailed (fst (zi_object_reference p s))"
  shows "zi_object_dereference call p (snd (zi_object_reference p s)) = (ZI_STATUS_SUCCESS, s)"
proof -
  let ?h = "objects s p"
  from assms have p: "p \<noteq> NULL" "obj_is_destroyed ?h = 0" "obj_reference_count ?h \<noteq> UINT32_MAX"
    and r: "obj_reference_count ?h \<noteq> 0"
    using space_okD [OF assms(1), of p]
    by (auto simp: zi_object_reference_def Let_def object_ok_def split: if_splits)
  then show ?thesis
    by (simp add: zi_object_reference_def zi_object_dereference_def object_release_locked_def Let_def
        call_optional_def inc_neq_0)
qed

interpretation object_refs: refcounted zi_object_reference "zi_object_dereference call" space_ok
  for call :: "'w callbacks"
proof
  show "snd (zi_object_reference p s) = s" if "ZiFailed (fst (zi_object_reference p s))"
    for p and s :: "'w ZiObjectSpace"
    using that by (auto simp: zi_object_reference_def Let_def split: if_splits)
qed (simp_all add: zi_object_dereference_referenced zi_object_reference_space_ok)

section \<open>Registry lemmas\<close>

lemma string_views_equal_iff [simp]: "string_views_equal left right \<longleftrightarrow> left = right"
  by (auto simp: string_views_equal_def list_all_iff intro: nth_equalityI)

definition registered :: "ZiObjectTypeRegistry \<Rightarrow> ZiObjectType list" where
  "registered registry = map the (take (reg_count registry) (reg_types registry))"

definition registry_ok :: "ZiObjectTypeRegistry \<Rightarrow> bool" where
  "registry_ok registry \<longleftrightarrow>
     length (reg_types registry) = reg_capacity registry \<and> reg_count registry \<le> reg_capacity registry \<and>
     (\<forall>index < reg_count registry. reg_types registry ! index \<noteq> None) \<and>
     (\<forall>otype \<in> set (registered registry). object_type_is_valid (Some otype)) \<and>
     distinct (map type_id (registered registry)) \<and> distinct (map type_name (registered registry))"

lemma length_registered: "registry_ok registry \<Longrightarrow> length (registered registry) = reg_count registry"
  by (simp add: registry_ok_def registered_def)

lemma registry_find_drop:
  assumes "registry_ok registry"
  shows "registry_find matches registry index = find matches (drop index (registered registry))"
  using assms
proof (induction matches registry index rule: registry_find.induct)
  case (1 matches registry index)
  show ?case
  proof (cases "index < reg_count registry")
    case True
    with "1.prems" obtain otype where otype: "reg_types registry ! index = Some otype"
      by (auto simp: registry_ok_def)
    have "drop index (registered registry) = otype # drop (Suc index) (registered registry)"
      using True otype "1.prems"
      by (subst Cons_nth_drop_Suc [symmetric]) (simp_all add: registry_ok_def registered_def)
    with True otype "1.prems" "1.IH"(2) [OF True otype] show ?thesis
      by (subst registry_find.simps) simp
  next
    case False
    with length_registered [OF "1.prems"] show ?thesis by (subst registry_find.simps) simp
  qed
qed

lemma registry_find_registered:
  "registry_ok registry \<Longrightarrow> registry_find matches registry 0 = find matches (registered registry)"
  by (simp add: registry_find_drop)

lemma find_append: "find P (xs @ ys) = (case find P xs of None \<Rightarrow> find P ys | Some x \<Rightarrow> Some x)"
  by (induction xs) auto

lemma type_names_equal_iff: "type_names_equal otype name \<longleftrightarrow> type_name otype = Some name"
  by (simp add: type_names_equal_def split: option.split)

lemma registered_type_name:
  "object_type_is_valid (Some otype) \<Longrightarrow> \<exists>name. type_name otype = Some name \<and> name \<noteq> [] \<and> ZiSucceeded (zi_utf8_validate (Some name))"
  by (auto simp: object_type_is_valid_def split: option.splits)

lemma zi_object_type_register_ok:
  assumes ok: "registry_ok registry" and s: "zi_object_type_register registry (Some otype) = (ZI_STATUS_SUCCESS, registry')"
  shows "registered registry' = registered registry @ [otype]" and "registry_ok registry'"
    and "object_type_is_valid (Some otype)"
    and "type_id otype \<notin> type_id ` set (registered registry)" "type_name otype \<notin> type_name ` set (registered registry)"
proof -
  from s have valid: "object_type_is_valid (Some otype)" and full: "reg_count registry \<noteq> reg_capacity registry"
    and new: "find (\<lambda>existing. type_id existing = type_id otype \<or> type_names_equal existing (the (type_name otype)))
      (registered registry) = None"
    and upd: "registry' = registry\<lparr>reg_types := (reg_types registry)[reg_count registry := Some otype],
      reg_count := reg_count registry + 1\<rparr>"
    by (auto simp: zi_object_type_register_def registry_find_registered [OF ok] split: if_splits)
  have lt: "reg_count registry < length (reg_types registry)" using ok full by (simp add: registry_ok_def)
  show reg: "registered registry' = registered registry @ [otype]"
    using lt by (simp add: upd registered_def take_Suc_conv_app_nth)
  obtain name where name: "type_name otype = Some name" using registered_type_name [OF valid] by blast
  show fresh: "type_id otype \<notin> type_id ` set (registered registry)" "type_name otype \<notin> type_name ` set (registered registry)"
    using new name by (auto simp: find_None_iff type_names_equal_iff)
  show valid2: "object_type_is_valid (Some otype)" by (rule valid)
  show "registry_ok registry'"
    using ok lt fresh valid unfolding registry_ok_def reg
    by (auto simp: upd nth_list_update less_Suc_eq)
qed

section \<open>Properties\<close>

text \<open>
  C16: reference counting is exact, also when the type routines re-enter the object manager. Whatever
  sequence of reference, dereference, add-handle and remove-handle operations runs, with routines that
  may themselves reference, release, open and close handles to the same object, an object is alive
  exactly while it has references, a destroyed object has neither references nor handles, and the
  count is the initial one plus what the operations that succeeded acquired minus what they released,
  plus what the routines took minus what they gave back: it never wraps around.
\<close>

theorem zi_object_reference_counting:
  fixes s :: "'m ledger_scheme ZiObjectSpace"
  assumes "managed object routine" and "object \<noteq> NULL" and "object_ok (objects s object)"
  shows "let u = object_run (traced routine) ops s in
    object_ok (objects u object) \<and>
    uint (obj_reference_count (objects u object)) =
      uint (obj_reference_count (objects s object)) + object_balance (traced routine) object ops s +
      (lg_taken (world u) object - lg_taken (world s) object)"
  using account_run [OF assms(1,2) account_start [OF assms(3)], of ops] by (auto simp: Let_def account_def)

definition sample_operations :: ZiObjectOperations where
  "sample_operations =
     \<lparr>ops_struct_size = 24, ops_version = 2, ops_destroy = Some 100, ops_last_handle_closed = Some 200\<rparr>"

definition sample_type :: ZiObjectType where
  "sample_type =
     \<lparr>type_address = 8, type_id = 5, type_name = Some [0x50], type_operations = Some sample_operations, type_flags = 0\<rparr>"

definition sample_header :: ZiObjectHeader where
  "sample_header =
     \<lparr>obj_type = sample_type, obj_name = [0x61], obj_parent = NULL, obj_security_descriptor = None,
      obj_operations = Some sample_operations, obj_debug_name = None, obj_reference_count = 1,
      obj_handle_count = 0, obj_flags = 0, obj_is_destroyed = 0\<rparr>"

definition sample_space :: "ledger ZiObjectSpace" where
  "sample_space =
     \<lparr>objects = (\<lambda>_. sample_header),
      directories = (\<lambda>_. \<lparr>dir_entries = [], dir_capacity = 0, dir_count = 0\<rparr>),
      world = \<lparr>lg_called = [], lg_taken = (\<lambda>_. 0), lg_held = (\<lambda>_. 0)\<rparr>\<rparr>"

lemmas sample_defs = sample_operations_def sample_type_def sample_header_def sample_space_def

text \<open>
  A routine for the concrete instances that releases a reference to its own object when the last
  handle is closed, as closing a channel does whose peer still refers to it.
\<close>

definition sample_routine :: "'m ledger_scheme callbacks" where
  "sample_routine code p s =
     (if code = 200 then
        let (status, t) = zi_object_dereference log_call p s in
        if ZiSucceeded status then book p (- 1) 0 t else t
      else s)"

lemma sample_routine_managed: "managed object sample_routine"
  unfolding managed_def
proof (intro allI)
  fix code p and s :: "'m ledger_scheme ZiObjectSpace"
  obtain status t where d: "zi_object_dereference log_call p s = (status, t)"
    by (cases "zi_object_dereference log_call p s")
  show "routine_steps object s (sample_routine code p s)"
  proof (cases "code = 200 \<and> ZiSucceeded status")
    case True
    have ok: "zi_object_dereference log_call p s = (ZI_STATUS_SUCCESS, t)"
      using d by (cases rule: zi_object_dereference_cases) (use d True in simp_all)
    then have "routine_step object s (book p (- 1) 0 t)" if "p = object"
      using that by (simp add: routine_step.dereference)
    moreover have "same_account object s (book p (- 1) 0 t)" if "p \<noteq> object"
      using d that True by (auto elim!: zi_object_dereference_cases simp: same_account_def book_def calls_of_def split: option.split)
    ultimately show ?thesis using d True by (auto simp: sample_routine_def intro: elsewhere)
  next
    case False
    with d show ?thesis by (auto elim!: zi_object_dereference_cases simp: sample_routine_def)
  qed
qed

theorem zi_object_reference_counting_witness:
  "let ops = [AddHandle 3, Dereference 3, RemoveHandle 3, Reference 3];
       u = object_run (traced sample_routine) ops sample_space
   in object_balance (traced sample_routine) 3 ops sample_space = 0 \<and> lg_taken (world u) 3 = - 1 \<and>
      obj_reference_count (objects u 3) = 0"
proof -
  let ?ops = "[AddHandle 3, Dereference 3, RemoveHandle 3, Reference 3]"
  let ?u = "object_run (traced sample_routine) ?ops sample_space"
  have bal: "object_balance (traced sample_routine) 3 ?ops sample_space = 0" and tk: "lg_taken (world ?u) 3 = - 1"
    "lg_taken (world sample_space) 3 = 0" by code_simp+
  have s: "object_ok (objects sample_space 3)" and one: "obj_reference_count (objects sample_space 3) = 1" by code_simp+
  have "uint (obj_reference_count (objects ?u 3)) = 0"
    using zi_object_reference_counting [OF sample_routine_managed _ s, of ?ops]
    unfolding bal tk one Let_def by (simp del: object_run.simps)
  with bal tk show ?thesis unfolding Let_def by (simp only: uint_0_iff simp_thms)
qed

text \<open>
  C3: the destroy routine runs at most once, also when the type routines re-enter the object manager.
  After any sequence of operations, with routines that may themselves reference, release, open and
  close handles to the same object, the destroy routine of an object has been called once if the
  object is destroyed and not at all while it is alive, and it is destroyed exactly when its last
  reference is gone.
\<close>

theorem zi_object_destroyed_once:
  fixes s :: "'m ledger_scheme ZiObjectSpace"
  assumes "managed object routine" and "object \<noteq> NULL" and "object_ok (objects s object)"
    and "obj_is_destroyed (objects s object) = 0" and "lg_called (world s) = []"
    and "obj_operations (objects (object_run (traced routine) ops s) object) = Some operations"
    and "ops_destroy operations = Some destroy" "ops_last_handle_closed operations \<noteq> Some destroy"
  shows "let u = object_run (traced routine) ops s; h = objects u object in
    count_list (lg_called (world u)) (destroy, object) = of_bool (obj_is_destroyed h \<noteq> 0) \<and>
    (obj_is_destroyed h \<noteq> 0 \<longleftrightarrow> obj_reference_count h = 0)"
  using account_run [OF assms(1,2) account_start [OF assms(3)], of ops] assms(4-8)
  by (auto simp: Let_def account_def releases_of_def object_ok_def split: if_splits)

theorem zi_object_destroyed_once_witness:
  "count_list (lg_called (world (object_run (traced sample_routine)
     [AddHandle 3, Dereference 3, RemoveHandle 3, Dereference 3] sample_space))) (100, 3) = 1"
proof -
  let ?ops = "[AddHandle 3, Dereference 3, RemoveHandle 3, Dereference 3]"
  let ?u = "object_run (traced sample_routine) ?ops sample_space"
  have s: "object_ok (objects sample_space 3)" "obj_is_destroyed (objects sample_space 3) = 0"
    "lg_called (world sample_space) = []" by code_simp+
  have u: "obj_operations (objects ?u 3) = Some sample_operations" and d: "obj_is_destroyed (objects ?u 3) = 1"
    by code_simp+
  show ?thesis
    using zi_object_destroyed_once [OF sample_routine_managed _ s u, of 100] unfolding d Let_def
    by (simp add: sample_operations_def del: object_run.simps)
qed

text \<open>
  C25: the type registry is a table with unique keys. Registering a type in a well-formed registry
  keeps it well formed, makes exactly that type found under its identifier and its name, and leaves
  every other lookup as it was.
\<close>

theorem zi_object_type_register_find:
  assumes ok: "registry_ok registry" and s: "zi_object_type_register registry (Some otype) = (ZI_STATUS_SUCCESS, registry')"
  shows "registry_ok registry' \<and>
    (\<forall>i. zi_object_type_find_by_id registry' i =
      (if i = type_id otype then Inr otype else zi_object_type_find_by_id registry i)) \<and>
    (\<forall>name. zi_object_type_find_by_name registry' name =
      (if name = type_name otype then Inr otype else zi_object_type_find_by_name registry name))"
proof -
  note reg = zi_object_type_register_ok [OF ok s]
  obtain nm where nm: "type_name otype = Some nm" "nm \<noteq> []" "ZiSucceeded (zi_utf8_validate (Some nm))"
    using registered_type_name [OF reg(3)] by blast
  have nz: "type_id otype \<noteq> 0" using reg(3) by (simp add: object_type_is_valid_def)
  have old: "find (\<lambda>t. type_id t = type_id otype) (registered registry) = None"
    "find (\<lambda>t. type_names_equal t nm) (registered registry) = None"
    using reg(4,5) nm(1) by (auto simp: find_None_iff type_names_equal_iff image_iff)
  have "zi_object_type_find_by_id registry' i =
      (if i = type_id otype then Inr otype else zi_object_type_find_by_id registry i)" for i
    using old(1) nz
    by (auto simp: zi_object_type_find_by_id_def registry_find_registered ok reg(1,2) find_append split: option.split)
  moreover have "zi_object_type_find_by_name registry' name =
      (if name = type_name otype then Inr otype else zi_object_type_find_by_name registry name)" for name
    using old(2) nm
    by (auto simp: zi_object_type_find_by_name_def registry_find_registered ok reg(1,2) find_append
        type_names_equal_iff split: option.split)
  ultimately show ?thesis using reg(2) by blast
qed


theorem zi_object_type_register_find_witness:
  "\<exists>registry registry'. zi_object_type_registry_initialise 2 = Inr registry \<and>
     zi_object_type_register registry (Some sample_type) = (ZI_STATUS_SUCCESS, registry') \<and>
     zi_object_type_find_by_id registry' 5 = Inr sample_type \<and>
     zi_object_type_find_by_name registry' (Some [0x51]) = Inl ZI_STATUS_NOT_FOUND"
proof -
  let ?r = "\<lparr>reg_types = [None, None], reg_capacity = 2, reg_count = 0\<rparr>"
  let ?r' = "\<lparr>reg_types = [Some sample_type, None], reg_capacity = 2, reg_count = 1\<rparr>"
  have ok: "registry_ok ?r" by (simp add: registry_ok_def registered_def)
  have step: "zi_object_type_register ?r (Some sample_type) = (ZI_STATUS_SUCCESS, ?r')" by code_simp
  have "zi_object_type_registry_initialise 2 = Inr ?r" by code_simp
  moreover have "zi_object_type_find_by_name ?r (Some [0x51]) = Inl ZI_STATUS_NOT_FOUND" by code_simp
  moreover have "type_id sample_type = 5" "type_name sample_type = Some [0x50]" by code_simp+
  ultimately show ?thesis using zi_object_type_register_find [OF ok step] step by auto
qed

end
