(* ===== verification/Zi_Handle.thy ===== *)
theory Zi_Handle
  imports Zi_Object
begin

text \<open>
  The handle table of \<^verbatim>\<open>kernel/executive/handle/handle.c\<close>: capabilities to objects, checked against
  the security descriptor when they are opened, with a generation in every handle so that a closed
  handle stays invalid when its slot is used again.

  An operation takes the table and the object space and returns its status, what it stored through
  its out-pointer (\<^term>\<open>None\<close> when nothing was stored) and the new table and space. A duplication
  reads the source table and changes the target table; for a duplication inside one table both
  arguments are that table. The routines of object types act on the object space and not on the table
  whose operation calls them.
\<close>

unbundle bit_operations_syntax

type_synonym ZiHandle = u64

abbreviation (input) ZI_INVALID_HANDLE :: ZiHandle where
  "ZI_INVALID_HANDLE \<equiv> 0"

definition ZI_HANDLE_ENTRY_IN_USE :: u32 where
  "ZI_HANDLE_ENTRY_IN_USE = 1"

definition ZI_HANDLE_DUPLICATE_SAME_ACCESS :: u32 where
  "ZI_HANDLE_DUPLICATE_SAME_ACCESS = 1"

record ZiHandleTableEntry =
  entry_object :: addr
  entry_granted_access :: ZiAccessMask
  entry_generation :: u32
  entry_flags :: u32

record ZiHandleTable =
  ht_entries :: "ZiHandleTableEntry list"
  ht_capacity :: nat
  ht_active_count :: nat
  ht_is_closing :: u32

definition zi_handle_table_initialise :: "nat \<Rightarrow> ZiHandleTable result" where
  "zi_handle_table_initialise capacity =
     (if capacity = 0 \<or> int capacity > uint (UINT32_MAX - 1) then Inl ZI_STATUS_INVALID_ARGUMENT
      else Inr \<lparr>ht_entries = replicate capacity
                  \<lparr>entry_object = NULL, entry_granted_access = 0, entry_generation = 1, entry_flags = 0\<rparr>,
                ht_capacity = capacity, ht_active_count = 0, ht_is_closing = 0\<rparr>)"

section \<open>Encoding of handles\<close>

definition encode_handle :: "nat \<Rightarrow> u32 \<Rightarrow> ZiHandle" where
  "encode_handle index generation =
     (let slot = of_nat index + 1 :: u64 in push_bit 32 (ucast generation) OR slot)"

definition decode_handle :: "ZiHandleTable \<Rightarrow> ZiHandle \<Rightarrow> (nat \<times> u32) result" where
  "decode_handle table handle =
     (if ht_capacity table = 0 \<or> handle = ZI_INVALID_HANDLE then Inl ZI_STATUS_INVALID_HANDLE
      else
        let slot = ucast (handle AND 0xffffffff) :: u32;
            generation = ucast (drop_bit 32 handle) :: u32 in
        if slot = 0 \<or> generation = 0 \<or> unat (slot - 1) \<ge> ht_capacity table
        then Inl ZI_STATUS_INVALID_HANDLE
        else Inr (unat (slot - 1), generation))"

definition next_generation :: "u32 \<Rightarrow> u32" where
  "next_generation generation = (if generation = UINT32_MAX then 0 else generation + 1)"

section \<open>Operations\<close>

definition entry_in_use :: "ZiHandleTableEntry \<Rightarrow> bool" where
  "entry_in_use entry \<longleftrightarrow> entry_flags entry AND ZI_HANDLE_ENTRY_IN_USE \<noteq> 0"

function handle_open_loop ::
  "nat \<Rightarrow> ZiHandleTable \<Rightarrow> addr \<Rightarrow> ZiAccessMask \<Rightarrow> 'w ZiObjectSpace \<Rightarrow>
   ZiStatus \<times> ZiHandle option \<times> ZiHandleTable \<times> 'w ZiObjectSpace" where
  "handle_open_loop index table object granted_access s =
     (if index < ht_capacity table then
        let entry = ht_entries table ! index in
        if entry_in_use entry \<or> entry_generation entry = 0
        then handle_open_loop (Suc index) table object granted_access s
        else
          let (status, s') = zi_object_add_handle object s in
          if ZiFailed status then (status, Some ZI_INVALID_HANDLE, table, s')
          else (ZI_STATUS_SUCCESS, Some (encode_handle index (entry_generation entry)),
                table\<lparr>ht_entries := (ht_entries table)[index :=
                        entry\<lparr>entry_object := object, entry_granted_access := granted_access,
                              entry_flags := ZI_HANDLE_ENTRY_IN_USE\<rparr>],
                      ht_active_count := ht_active_count table + 1\<rparr>, s')
      else (ZI_STATUS_HANDLE_TABLE_FULL, Some ZI_INVALID_HANDLE, table, s))"
  by pat_completeness auto
termination
  by (relation "measure (\<lambda>(index, table, _). ht_capacity table - index)") auto

declare handle_open_loop.simps [simp del]

definition zi_handle_open ::
  "ZiHandleTable \<Rightarrow> addr \<Rightarrow> ZiAccessToken option \<Rightarrow> ZiAccessMask \<Rightarrow> 'w ZiObjectSpace \<Rightarrow>
   ZiStatus \<times> ZiHandle option \<times> ZiHandleTable \<times> 'w ZiObjectSpace" where
  "zi_handle_open table object token requested_access s =
     (if object = NULL \<or> token = None \<or> requested_access = 0
      then (ZI_STATUS_INVALID_ARGUMENT, None, table, s)
      else if obj_security_descriptor (objects s object) = None
      then (ZI_STATUS_ACCESS_DENIED, Some ZI_INVALID_HANDLE, table, s)
      else
        let (status, granted) =
              zi_security_access_check (obj_security_descriptor (objects s object)) token requested_access;
            granted_access = (case granted of None \<Rightarrow> 0 | Some g \<Rightarrow> g) in
        if ZiFailed status then (status, Some ZI_INVALID_HANDLE, table, s)
        else if ht_is_closing table \<noteq> 0 then (ZI_STATUS_PROCESS_TERMINATED, Some ZI_INVALID_HANDLE, table, s)
        else handle_open_loop 0 table object granted_access s)"

definition reference_handle_entry ::
  "ZiHandleTable \<Rightarrow> ZiHandle \<Rightarrow> 'w ZiObjectSpace \<Rightarrow> ((addr \<times> ZiAccessMask) result) \<times> 'w ZiObjectSpace" where
  "reference_handle_entry table handle s =
     (case decode_handle table handle of
        Inl status \<Rightarrow> (Inl status, s)
      | Inr (index, generation) \<Rightarrow>
          if ht_is_closing table \<noteq> 0 then (Inl ZI_STATUS_PROCESS_TERMINATED, s)
          else
            let entry = ht_entries table ! index in
            if \<not> entry_in_use entry \<or> entry_generation entry \<noteq> generation \<or> entry_object entry = NULL
            then (Inl ZI_STATUS_INVALID_HANDLE, s)
            else
              let (status, s') = zi_object_reference (entry_object entry) s in
              if ZiSucceeded status then (Inr (entry_object entry, entry_granted_access entry), s')
              else (Inl status, s'))"

definition zi_handle_lookup ::
  "'w callbacks \<Rightarrow> ZiHandleTable \<Rightarrow> ZiHandle \<Rightarrow> ZiAccessMask \<Rightarrow> ZiObjectType option \<Rightarrow> 'w ZiObjectSpace \<Rightarrow>
   addr result \<times> 'w ZiObjectSpace" where
  "zi_handle_lookup call table handle desired_access expected_type s =
     (case reference_handle_entry table handle s of
        (Inl status, s') \<Rightarrow> (Inl status, s')
      | (Inr (object, granted_access), s') \<Rightarrow>
          if desired_access AND NOT granted_access \<noteq> 0
          then (Inl ZI_STATUS_ACCESS_DENIED, snd (zi_object_dereference call object s'))
          else if (case expected_type of
                     None \<Rightarrow> False
                   | Some t \<Rightarrow> type_address (obj_type (objects s' object)) \<noteq> type_address t)
          then (Inl ZI_STATUS_INVALID_HANDLE, snd (zi_object_dereference call object s'))
          else (Inr object, s'))"

definition zi_handle_duplicate ::
  "'w callbacks \<Rightarrow> ZiHandleTable \<Rightarrow> ZiHandle \<Rightarrow> ZiHandleTable \<Rightarrow> ZiAccessToken option \<Rightarrow> ZiAccessMask \<Rightarrow> u32 \<Rightarrow>
   'w ZiObjectSpace \<Rightarrow> ZiStatus \<times> ZiHandle option \<times> ZiHandleTable \<times> 'w ZiObjectSpace" where
  "zi_handle_duplicate call source_table source_handle target_table target_token requested_access flags s =
     (if target_token = None \<or> flags AND NOT ZI_HANDLE_DUPLICATE_SAME_ACCESS \<noteq> 0 \<or>
         (flags AND ZI_HANDLE_DUPLICATE_SAME_ACCESS = 0 \<and> requested_access = 0)
      then (ZI_STATUS_INVALID_ARGUMENT, None, target_table, s)
      else
        case reference_handle_entry source_table source_handle s of
          (Inl status, s') \<Rightarrow> (status, Some ZI_INVALID_HANDLE, target_table, s')
        | (Inr (object, source_access), s') \<Rightarrow>
            let target_access =
                  (if flags AND ZI_HANDLE_DUPLICATE_SAME_ACCESS \<noteq> 0 then source_access else requested_access) in
            if target_access AND NOT source_access \<noteq> 0
            then (ZI_STATUS_ACCESS_DENIED, Some ZI_INVALID_HANDLE, target_table,
                  snd (zi_object_dereference call object s'))
            else
              let (status, handle, table', s'') = zi_handle_open target_table object target_token target_access s' in
              (status, case handle of None \<Rightarrow> Some ZI_INVALID_HANDLE | Some h \<Rightarrow> Some h, table',
               snd (zi_object_dereference call object s'')))"

definition entry_clear :: "ZiHandleTableEntry \<Rightarrow> ZiHandleTableEntry" where
  "entry_clear entry =
     \<lparr>entry_object = NULL, entry_granted_access = 0,
      entry_generation = next_generation (entry_generation entry), entry_flags = 0\<rparr>"

definition table_clear_entry :: "ZiHandleTable \<Rightarrow> nat \<Rightarrow> ZiHandleTable" where
  "table_clear_entry table index =
     table\<lparr>ht_entries := (ht_entries table)[index := entry_clear (ht_entries table ! index)],
           ht_active_count := ht_active_count table - 1\<rparr>"

definition zi_handle_close ::
  "'w callbacks \<Rightarrow> ZiHandleTable \<Rightarrow> ZiHandle \<Rightarrow> 'w ZiObjectSpace \<Rightarrow> ZiStatus \<times> ZiHandleTable \<times> 'w ZiObjectSpace" where
  "zi_handle_close call table handle s =
     (case decode_handle table handle of
        Inl status \<Rightarrow> (status, table, s)
      | Inr (index, generation) \<Rightarrow>
          let entry = ht_entries table ! index in
          if \<not> entry_in_use entry \<or> entry_generation entry \<noteq> generation \<or> entry_object entry = NULL
          then (ZI_STATUS_INVALID_HANDLE, table, s)
          else
            let (status, s') = zi_object_remove_handle call (entry_object entry) s in
            (status, table_clear_entry table index, s'))"

function handle_close_loop ::
  "'w callbacks \<Rightarrow> nat \<Rightarrow> ZiStatus \<Rightarrow> ZiHandleTable \<Rightarrow> 'w ZiObjectSpace \<Rightarrow>
   ZiStatus \<times> ZiHandleTable \<times> 'w ZiObjectSpace" where
  "handle_close_loop call index first_failure table s =
     (if index < ht_capacity table then
        let entry = ht_entries table ! index in
        if \<not> entry_in_use entry then handle_close_loop call (Suc index) first_failure table s
        else
          let (status, s') = zi_object_remove_handle call (entry_object entry) s in
          handle_close_loop call (Suc index)
            (if ZiFailed status \<and> ZiSucceeded first_failure then status else first_failure)
            (table_clear_entry table index) s'
      else (first_failure, table, s))"
  by pat_completeness auto
termination
  by (relation "measure (\<lambda>(_, index, _, table, _). ht_capacity table - index)")
    (auto simp: table_clear_entry_def)

declare handle_close_loop.simps [simp del]

definition zi_handle_table_close_all ::
  "'w callbacks \<Rightarrow> ZiHandleTable \<Rightarrow> 'w ZiObjectSpace \<Rightarrow> ZiStatus \<times> ZiHandleTable \<times> 'w ZiObjectSpace" where
  "zi_handle_table_close_all call table s =
     (if ht_capacity table = 0 then (ZI_STATUS_INVALID_ARGUMENT, table, s)
      else handle_close_loop call 0 ZI_STATUS_SUCCESS (table\<lparr>ht_is_closing := 1\<rparr>) s)"

section \<open>Handles as pairs of a slot and a generation\<close>

lemma unat_encode_handle:
  assumes "index < 2 ^ 32 - 1"
  shows "unat (encode_handle index generation) = unat generation * 2 ^ 32 + (index + 1)"
proof -
  define slot where "slot = (of_nat index + 1 :: u64)"
  define wide where "wide = (ucast generation :: u64)"
  have gen: "unat generation < 2 ^ 32" using unsigned_less [of generation] by simp
  have "slot = of_nat (Suc index)" by (simp add: slot_def)
  then have slot: "unat slot = index + 1"
    using assms by (simp only: unat_of_nat) simp
  have w: "unat wide = unat generation"
    using gen by (simp add: wide_def unsigned_ucast_eq take_bit_nat_eq_self)
  have high: "unat (push_bit 32 wide) = unat generation * 2 ^ 32"
    by (subst unat_push_bit) (use gen w in simp_all)
  have "unat (push_bit 32 wide OR slot) = unat (push_bit 32 wide) + unat slot"
    by (rule unat_or_add [where k = 32]) (use assms slot high in simp_all)
  then show ?thesis
    unfolding encode_handle_def Let_def slot_def [symmetric] wide_def [symmetric] high slot .
qed

lemma mult_add_div_mod:
  "b < m \<Longrightarrow> (a * m + b) div m = (a :: nat)" "b < m \<Longrightarrow> (a * m + b) mod m = (b :: nat)"
  by simp_all

lemma unat_low_half: "unat (ucast (w AND 0xffffffff) :: u32) = unat w mod 2 ^ 32" for w :: u64
proof -
  have "w AND 0xffffffff = w AND mask 32" by (simp add: mask_eq_exp_minus_1)
  then have "unat (w AND 0xffffffff) = unat w mod 2 ^ 32" by (simp only: unat_and_mask)
  then show ?thesis by (simp add: unsigned_ucast_eq take_bit_nat_def)
qed

lemma unat_high_half: "unat (ucast (drop_bit 32 w) :: u32) = unat w div 2 ^ 32" for w :: u64
proof -
  have "unat w < 2 ^ 64" using unsigned_less [of w] by simp
  then have "unat w div 2 ^ 32 < 2 ^ 32" by (simp add: less_mult_imp_div_less)
  then show ?thesis by (simp add: unsigned_ucast_eq take_bit_nat_def unat_drop_bit)
qed

lemma decode_encode:
  assumes "index < ht_capacity table" "ht_capacity table \<le> 2 ^ 32 - 2" "generation \<noteq> 0"
  shows "decode_handle table (encode_handle index generation) = Inr (index, generation)"
proof -
  define h where "h = encode_handle index generation"
  define slot where "slot = (ucast (h AND 0xffffffff) :: u32)"
  have lt: "index + 1 < 2 ^ 32" and idx: "index < 2 ^ 32 - 1" using assms by simp_all
  have u: "unat h = unat generation * 2 ^ 32 + (index + 1)"
    unfolding h_def by (rule unat_encode_handle [OF idx])
  have slot: "unat slot = index + 1"
    unfolding slot_def unat_low_half u by (rule mult_add_div_mod(2) [OF lt])
  have gen: "ucast (drop_bit 32 h) = generation"
    unfolding word_unat_eq_iff unat_high_half u by (rule mult_add_div_mod(1) [OF lt])
  have "h \<noteq> 0" using u by auto
  moreover have s0: "slot \<noteq> 0" using slot by auto
  moreover have "unat (slot - 1) = index" using unat_minus_one [OF s0] slot by linarith
  ultimately show ?thesis
    using assms gen unfolding decode_handle_def h_def [symmetric] slot_def [symmetric] Let_def by simp
qed

lemma decode_handle_range:
  "decode_handle table handle = Inr (index, generation) \<Longrightarrow> index < ht_capacity table \<and> generation \<noteq> 0"
  by (auto simp: decode_handle_def Let_def split: if_splits)

lemma decode_handle_capacity:
  "ht_capacity table = ht_capacity table' \<Longrightarrow> decode_handle table handle = decode_handle table' handle"
  by (simp add: decode_handle_def)

lemma decode_handle_error: "decode_handle table handle = Inl status \<Longrightarrow> status = ZI_STATUS_INVALID_HANDLE"
  by (auto simp: decode_handle_def Let_def split: if_splits)

section \<open>The table as a transition system\<close>

text \<open>
  Seen from the table, every operation is a sequence of three kinds of steps: a free slot with a
  live generation is filled while the table is not closing, a used slot is cleared, and the table
  starts to close.
\<close>

definition table_fill_entry :: "ZiHandleTable \<Rightarrow> nat \<Rightarrow> addr \<Rightarrow> ZiAccessMask \<Rightarrow> ZiHandleTable" where
  "table_fill_entry table index object access =
     table\<lparr>ht_entries := (ht_entries table)[index :=
             (ht_entries table ! index)\<lparr>entry_object := object, entry_granted_access := access,
               entry_flags := ZI_HANDLE_ENTRY_IN_USE\<rparr>],
           ht_active_count := ht_active_count table + 1\<rparr>"

inductive table_step :: "ZiHandleTable \<Rightarrow> ZiHandleTable \<Rightarrow> bool" where
  fill: "index < ht_capacity table \<Longrightarrow> \<not> entry_in_use (ht_entries table ! index) \<Longrightarrow>
    entry_generation (ht_entries table ! index) \<noteq> 0 \<Longrightarrow> object \<noteq> NULL \<Longrightarrow> ht_is_closing table = 0 \<Longrightarrow>
    table_step table (table_fill_entry table index object access)"
| clear: "index < ht_capacity table \<Longrightarrow> entry_in_use (ht_entries table ! index) \<Longrightarrow>
    table_step table (table_clear_entry table index)"
| closing: "table_step table (table\<lparr>ht_is_closing := 1\<rparr>)"

definition handle_table_ok :: "ZiHandleTable \<Rightarrow> bool" where
  "handle_table_ok table \<longleftrightarrow>
     length (ht_entries table) = ht_capacity table \<and> 0 < ht_capacity table \<and> ht_capacity table \<le> 2 ^ 32 - 2 \<and>
     ht_active_count table = length (filter entry_in_use (ht_entries table)) \<and>
     (\<forall>entry \<in> set (ht_entries table).
        entry_in_use entry \<longrightarrow> entry_object entry \<noteq> NULL \<and> entry_generation entry \<noteq> 0)"

lemma entry_in_use_simps [simp]:
  "entry_in_use (entry\<lparr>entry_object := ob, entry_granted_access := ac, entry_flags := ZI_HANDLE_ENTRY_IN_USE\<rparr>)"
  "\<not> entry_in_use (entry_clear entry)"
  by (simp_all add: entry_in_use_def entry_clear_def ZI_HANDLE_ENTRY_IN_USE_def)

lemma length_filter_update:
  "i < length xs \<Longrightarrow> length (filter P (xs[i := x])) + of_bool (P (xs ! i)) = length (filter P xs) + of_bool (P x)"
proof (induction xs arbitrary: i)
  case (Cons a xs)
  then show ?case by (cases i) (auto simp: of_bool_def)
qed simp

lemma table_step_ok:
  assumes "table_step table table'" "handle_table_ok table"
  shows "handle_table_ok table'"
  using assms
proof cases
  case (fill index object access)
  then show ?thesis
    using assms(2) length_filter_update [of index "ht_entries table" entry_in_use
        "(ht_entries table ! index)\<lparr>entry_object := object, entry_granted_access := access,
          entry_flags := ZI_HANDLE_ENTRY_IN_USE\<rparr>"]
    by (auto simp: handle_table_ok_def table_fill_entry_def dest!: set_update_subset_insert [THEN subsetD])
next
  case (clear index)
  then show ?thesis
    using assms(2) length_filter_update [of index "ht_entries table" entry_in_use "entry_clear (ht_entries table ! index)"]
    by (auto simp: handle_table_ok_def table_clear_entry_def dest!: set_update_subset_insert [THEN subsetD])
next
  case closing
  with assms(2) show ?thesis by (simp add: handle_table_ok_def)
qed

lemma table_steps_ok: "table_step\<^sup>*\<^sup>* table table' \<Longrightarrow> handle_table_ok table \<Longrightarrow> handle_table_ok table'"
  by (induction rule: rtranclp_induct) (auto intro: table_step_ok)

lemma table_steps_capacity: "table_step\<^sup>*\<^sup>* table table' \<Longrightarrow> ht_capacity table' = ht_capacity table"
  by (induction rule: rtranclp_induct)
    (auto elim!: table_step.cases simp: table_fill_entry_def table_clear_entry_def)

definition retired :: "ZiHandleTable \<Rightarrow> nat \<Rightarrow> u32 \<Rightarrow> bool" where
  "retired table index generation \<longleftrightarrow>
     (let current = entry_generation (ht_entries table ! index) in current = 0 \<or> generation < current)"

lemma next_generation_retires:
  assumes "generation \<le> current" "current \<noteq> 0"
  shows "next_generation current = 0 \<or> generation < next_generation current"
proof (cases "current = UINT32_MAX")
  case False
  with assms(1) show ?thesis
    by (simp add: next_generation_def word_less_nat_alt word_le_nat_alt unat_inc)
qed (simp add: next_generation_def)

lemma table_step_retired:
  assumes "table_step table table'" "handle_table_ok table" "retired table index generation" "index < ht_capacity table"
  shows "retired table' index generation"
  using assms(1)
proof cases
  case (fill i object access)
  with assms show ?thesis
    by (simp add: retired_def table_fill_entry_def Let_def nth_list_update handle_table_ok_def)
next
  case (clear i)
  have "entry_generation (ht_entries table ! i) \<noteq> 0"
    using assms(2) clear by (simp add: handle_table_ok_def)
  with clear assms show ?thesis
    using next_generation_retires [of generation "entry_generation (ht_entries table ! i)"]
    by (auto simp: retired_def table_clear_entry_def Let_def nth_list_update entry_clear_def handle_table_ok_def)
next
  case closing
  with assms show ?thesis by (simp add: retired_def)
qed

lemma table_steps_retired:
  assumes "table_step\<^sup>*\<^sup>* table table'" "handle_table_ok table" "retired table index generation" "index < ht_capacity table"
  shows "retired table' index generation"
  using assms
proof (induction rule: rtranclp_induct)
  case (step t u)
  then show ?case
    using table_step_retired [of t u] table_steps_ok [of table t] table_steps_capacity [of table t] by simp
qed


definition table_closed :: "ZiHandleTable \<Rightarrow> bool" where
  "table_closed table \<longleftrightarrow>
     ht_is_closing table \<noteq> 0 \<and> (\<forall>index < ht_capacity table. \<not> entry_in_use (ht_entries table ! index))"

lemma table_steps_closed: "table_step\<^sup>*\<^sup>* table table' \<Longrightarrow> table_closed table \<Longrightarrow> table_closed table'"
  by (induction rule: rtranclp_induct) (auto elim!: table_step.cases simp: table_closed_def)

section \<open>The operations as steps of the table\<close>

lemma zi_object_add_handle_status:
  "zi_object_add_handle object s = (status, s') \<Longrightarrow>
   status = ZI_STATUS_SUCCESS \<and> object \<noteq> NULL \<or> status \<in> {ZI_STATUS_INVALID_ARGUMENT, ZI_STATUS_INVALID_STATE} \<and> s' = s"
  by (auto simp: zi_object_add_handle_def Let_def split: if_splits)

lemma handle_open_loop_spec:
  "handle_open_loop index table object access s = (status, out, table', s') \<Longrightarrow>
   (\<exists>i. i < ht_capacity table \<and> \<not> entry_in_use (ht_entries table ! i) \<and>
      entry_generation (ht_entries table ! i) \<noteq> 0 \<and> object \<noteq> NULL \<and>
      zi_object_add_handle object s = (ZI_STATUS_SUCCESS, s') \<and> status = ZI_STATUS_SUCCESS \<and>
      out = Some (encode_handle i (entry_generation (ht_entries table ! i))) \<and>
      table' = table_fill_entry table i object access) \<or>
   ZiFailed status \<and> out = Some ZI_INVALID_HANDLE \<and> table' = table \<and> s' = s"
proof (induction index table object access s rule: handle_open_loop.induct)
  case (1 index table object access s)
  let ?e = "ht_entries table ! index"
  consider (full) "\<not> index < ht_capacity table"
    | (skip) "index < ht_capacity table" "entry_in_use ?e \<or> entry_generation ?e = 0"
    | (free) "index < ht_capacity table" "\<not> (entry_in_use ?e \<or> entry_generation ?e = 0)"
    by blast
  then show ?case
  proof cases
    case full
    with "1.prems" show ?thesis by (simp add: handle_open_loop.simps)
  next
    case skip
    then have "handle_open_loop (Suc index) table object access s = (status, out, table', s')"
      using "1.prems" by (simp add: handle_open_loop.simps [of index])
    then show ?thesis by (rule "1.IH" [OF skip(1) refl skip(2)])
  next
    case free
    obtain st t where add: "zi_object_add_handle object s = (st, t)" by (cases "zi_object_add_handle object s")
    have r: "(status, out, table', s') = (if ZiFailed st then (st, Some ZI_INVALID_HANDLE, table, t)
        else (ZI_STATUS_SUCCESS, Some (encode_handle index (entry_generation ?e)), table_fill_entry table index object access, t))"
      using "1.prems" [symmetric] free add
      by (simp add: handle_open_loop.simps [of index] Let_def table_fill_entry_def del: ZiFailed_iff)
    show ?thesis
    proof (cases "ZiFailed st")
      case True
      with r zi_object_add_handle_status [OF add] show ?thesis by auto
    next
      case False
      with zi_object_add_handle_status [OF add] have "st = ZI_STATUS_SUCCESS" "object \<noteq> NULL" by auto
      with r add free show ?thesis by (intro disjI1 exI [of _ index]) simp
    qed
  qed
qed

lemma zi_handle_open_cases:
  assumes "zi_handle_open table object token requested s = (status, out, table', s')"
  obtains (opened) i descriptor where "i < ht_capacity table" "\<not> entry_in_use (ht_entries table ! i)"
      "entry_generation (ht_entries table ! i) \<noteq> 0" "object \<noteq> NULL" "requested \<noteq> 0"
      "obj_security_descriptor (objects s object) = Some descriptor"
      "zi_security_access_check (Some descriptor) token requested = (ZI_STATUS_SUCCESS, Some requested)"
      "ht_is_closing table = 0" "zi_object_add_handle object s = (ZI_STATUS_SUCCESS, s')"
      "status = ZI_STATUS_SUCCESS" "out = Some (encode_handle i (entry_generation (ht_entries table ! i)))"
      "table' = table_fill_entry table i object requested"
    | (failed) "ZiFailed status" "table' = table" "s' = s" "out = None \<or> out = Some ZI_INVALID_HANDLE"
proof -
  let ?d = "obj_security_descriptor (objects s object)"
  obtain st g where chk: "zi_security_access_check ?d token requested = (st, g)"
    by (cases "zi_security_access_check ?d token requested")
  show ?thesis
  proof (cases "object = NULL \<or> token = None \<or> requested = 0 \<or> ?d = None \<or> ZiFailed st \<or> ht_is_closing table \<noteq> 0")
    case True
    with assms chk show ?thesis
      by (intro that(2)) (auto simp: zi_handle_open_def Let_def split: if_splits)
  next
    case False
    then obtain descriptor tok where some: "?d = Some descriptor" "token = Some tok" by auto
    from False have exact: "st = ZI_STATUS_SUCCESS" "g = Some requested"
      using monitor.granted_exact [of ?d token requested] chk by auto
    with False chk have loop: "handle_open_loop 0 table object requested s = (status, out, table', s')"
      using assms by (simp add: zi_handle_open_def some)
    from handle_open_loop_spec [OF loop] show ?thesis
    proof (elim disjE exE)
      fix i assume "i < ht_capacity table \<and> \<not> entry_in_use (ht_entries table ! i) \<and>
        entry_generation (ht_entries table ! i) \<noteq> 0 \<and> object \<noteq> NULL \<and>
        zi_object_add_handle object s = (ZI_STATUS_SUCCESS, s') \<and> status = ZI_STATUS_SUCCESS \<and>
        out = Some (encode_handle i (entry_generation (ht_entries table ! i))) \<and>
        table' = table_fill_entry table i object requested"
      then show ?thesis
        by (intro that(1) [of i descriptor]) (use False some chk exact in simp_all)
    qed (intro that(2), simp_all)
  qed
qed

lemma zi_object_add_handle_space_ok: "space_ok s \<Longrightarrow> space_ok (snd (zi_object_add_handle p s))"
  by (auto simp: zi_object_add_handle_def Let_def space_ok_def object_ok_def inc_neq_0)

lemma zi_handle_open_space_ok:
  assumes "space_ok s" "zi_handle_open table object token requested s = (status, out, table', s')"
  shows "space_ok s'"
  using assms(2)
proof (cases rule: zi_handle_open_cases)
  case (opened i descriptor)
  with zi_object_add_handle_space_ok [OF assms(1), of object] show ?thesis by simp
qed (use assms(1) in simp)

lemma zi_handle_table_initialise_ok:
  assumes "zi_handle_table_initialise capacity = Inr table"
  shows "handle_table_ok table"
proof -
  have c: "0 < capacity" "int capacity \<le> uint (UINT32_MAX - 1)"
    and t: "ht_entries table = replicate capacity
        \<lparr>entry_object = NULL, entry_granted_access = 0, entry_generation = 1, entry_flags = 0\<rparr>"
      "ht_capacity table = capacity" "ht_active_count table = 0"
    using assms unfolding zi_handle_table_initialise_def by (auto split: if_splits)
  have "capacity \<le> 2 ^ 32 - 2" using c(2) by simp
  with c(1) show ?thesis unfolding handle_table_ok_def t by (simp add: entry_in_use_def)
qed

lemma zi_handle_close_cases:
  assumes "zi_handle_close call table handle s = (status, table', s')"
  obtains (closed) index generation where "decode_handle table handle = Inr (index, generation)"
      "index < ht_capacity table" "entry_in_use (ht_entries table ! index)"
      "entry_generation (ht_entries table ! index) = generation" "table' = table_clear_entry table index"
      "zi_object_remove_handle call (entry_object (ht_entries table ! index)) s = (status, s')"
    | (refused) "status = ZI_STATUS_INVALID_HANDLE" "table' = table" "s' = s"
proof (cases "decode_handle table handle")
  case (Inl st)
  with assms decode_handle_error [OF Inl] show ?thesis by (intro that(2)) (simp_all add: zi_handle_close_def)
next
  case (Inr r)
  obtain index generation where r: "r = (index, generation)" by (cases r)
  note range = decode_handle_range [OF Inr [unfolded r]]
  let ?e = "ht_entries table ! index"
  show ?thesis
  proof (cases "entry_in_use ?e \<and> entry_generation ?e = generation \<and> entry_object ?e \<noteq> NULL")
    case True
    show ?thesis
      by (rule that(1) [OF Inr [unfolded r]])
        (use True range assms Inr r in \<open>auto simp: zi_handle_close_def Let_def split: prod.splits\<close>)
  next
    case False
    with assms Inr r show ?thesis by (intro that(2)) (auto simp: zi_handle_close_def Let_def split: if_splits)
  qed
qed

lemma table_clear_entry_simps [simp]:
  "ht_capacity (table_clear_entry table index) = ht_capacity table"
  "ht_is_closing (table_clear_entry table index) = ht_is_closing table"
  "length (ht_entries (table_clear_entry table index)) = length (ht_entries table)"
  by (simp_all add: table_clear_entry_def)

lemma handle_close_loop_steps:
  "handle_close_loop call index f table s = (status, table', s') \<Longrightarrow> table_step\<^sup>*\<^sup>* table table'"
proof (induction call index f table s rule: handle_close_loop.induct)
  case (1 call index f table s)
  let ?e = "ht_entries table ! index"
  obtain st t where rm: "zi_object_remove_handle call (entry_object ?e) s = (st, t)"
    by (cases "zi_object_remove_handle call (entry_object ?e) s")
  consider (stop) "\<not> index < ht_capacity table" | (skip) "index < ht_capacity table" "\<not> entry_in_use ?e"
    | (clear) "index < ht_capacity table" "entry_in_use ?e" by blast
  then show ?case
  proof cases
    case stop
    with "1.prems" show ?thesis by (simp add: handle_close_loop.simps)
  next
    case skip
    with "1.prems" show ?thesis
      by (intro "1.IH"(1) [OF skip(1) refl skip(2)]) (simp add: handle_close_loop.simps [of call index])
  next
    case clear
    have "table_step\<^sup>*\<^sup>* (table_clear_entry table index) table'"
      using "1.prems" clear rm by (intro "1.IH"(2) [OF clear(1) refl _ rm [symmetric] refl])
        (simp_all add: handle_close_loop.simps [of call index])
    with table_step.clear [OF clear] show ?thesis by (rule converse_rtranclp_into_rtranclp)
  qed
qed

lemma handle_close_loop_cleared:
  "handle_close_loop call index f table s = (status, table', s') \<Longrightarrow> length (ht_entries table) = ht_capacity table \<Longrightarrow>
   \<forall>j < index. \<not> entry_in_use (ht_entries table ! j) \<Longrightarrow>
   ht_is_closing table' = ht_is_closing table \<and> (\<forall>j < ht_capacity table. \<not> entry_in_use (ht_entries table' ! j))"
proof (induction call index f table s rule: handle_close_loop.induct)
  case (1 call index f table s)
  let ?e = "ht_entries table ! index"
  obtain st t where rm: "zi_object_remove_handle call (entry_object ?e) s = (st, t)"
    by (cases "zi_object_remove_handle call (entry_object ?e) s")
  consider (stop) "\<not> index < ht_capacity table" | (skip) "index < ht_capacity table" "\<not> entry_in_use ?e"
    | (clear) "index < ht_capacity table" "entry_in_use ?e" by blast
  then show ?case
  proof cases
    case stop
    with "1.prems" show ?thesis by (auto simp: handle_close_loop.simps)
  next
    case skip
    with "1.prems" show ?thesis
      by (intro "1.IH"(1) [OF skip(1) refl skip(2)]) (auto simp: handle_close_loop.simps [of call index] less_Suc_eq)
  next
    case clear
    have "\<forall>j < Suc index. \<not> entry_in_use (ht_entries (table_clear_entry table index) ! j)"
      using "1.prems"(2,3) clear(1) by (auto simp: table_clear_entry_def nth_list_update less_Suc_eq)
    then show ?thesis
      using "1.prems" clear rm "1.IH"(2) [OF clear(1) refl _ rm [symmetric] refl]
      by (simp add: handle_close_loop.simps [of call index])
  qed
qed

datatype 'w handle_op =
    OpenOp addr "ZiAccessToken option" ZiAccessMask
  | LookupOp ZiHandle ZiAccessMask "ZiObjectType option"
  | DuplicateOp ZiHandle "ZiAccessToken option" ZiAccessMask u32
  | CloseOp ZiHandle
  | CloseAllOp
  | OutsideOp "'w ZiObjectSpace \<Rightarrow> 'w ZiObjectSpace"

fun handle_step ::
  "'w callbacks \<Rightarrow> 'w handle_op \<Rightarrow> ZiHandleTable \<times> 'w ZiObjectSpace \<Rightarrow> ZiHandleTable \<times> 'w ZiObjectSpace" where
  "handle_step call (OpenOp object token access) (table, s) = snd (snd (zi_handle_open table object token access s))"
| "handle_step call (LookupOp handle access expected) (table, s) =
     (table, snd (zi_handle_lookup call table handle access expected s))"
| "handle_step call (DuplicateOp handle token access flags) (table, s) =
     snd (snd (zi_handle_duplicate call table handle table token access flags s))"
| "handle_step call (CloseOp handle) (table, s) = snd (zi_handle_close call table handle s)"
| "handle_step call CloseAllOp (table, s) = snd (zi_handle_table_close_all call table s)"
| "handle_step call (OutsideOp f) (table, s) = (table, f s)"

fun handle_run ::
  "'w callbacks \<Rightarrow> 'w handle_op list \<Rightarrow> ZiHandleTable \<times> 'w ZiObjectSpace \<Rightarrow> ZiHandleTable \<times> 'w ZiObjectSpace" where
  "handle_run call [] ts = ts"
| "handle_run call (op # ops) ts = handle_run call ops (handle_step call op ts)"

lemma zi_handle_open_steps:
  "zi_handle_open table object token access s = (status, out, table', s') \<Longrightarrow> table_step\<^sup>*\<^sup>* table table'"
  by (erule zi_handle_open_cases) (auto intro: table_step.fill)

lemma zi_handle_duplicate_steps:
  "zi_handle_duplicate call source handle table token access flags s = (status, out, table', s') \<Longrightarrow>
   table_step\<^sup>*\<^sup>* table table'"
  by (auto simp: zi_handle_duplicate_def Let_def split: if_splits prod.splits sum.splits dest: zi_handle_open_steps)

lemma handle_step_steps: "table_step\<^sup>*\<^sup>* (fst ts) (fst (handle_step call op ts))"
proof (cases "(call, op, ts)" rule: handle_step.cases)
  case (1 c object token access table s)
  then show ?thesis
    by (cases "zi_handle_open table object token access s") (auto dest: zi_handle_open_steps)
next
  case (3 c handle token access flags table s)
  then show ?thesis
    by (cases "zi_handle_duplicate call table handle table token access flags s") (auto dest: zi_handle_duplicate_steps)
next
  case (4 c handle table s)
  obtain status table' s' where r: "zi_handle_close call table handle s = (status, table', s')"
    by (cases "zi_handle_close call table handle s")
  with 4 show ?thesis by (auto elim!: zi_handle_close_cases intro: table_step.clear)
next
  case (5 c table s)
  obtain status table' s' where r: "zi_handle_table_close_all call table s = (status, table', s')"
    by (cases "zi_handle_table_close_all call table s")
  then have "table' = table \<or> table_step\<^sup>*\<^sup>* (table\<lparr>ht_is_closing := 1\<rparr>) table'"
    by (auto simp: zi_handle_table_close_all_def split: if_splits dest!: handle_close_loop_steps)
  then have "table_step\<^sup>*\<^sup>* table table'"
    using converse_rtranclp_into_rtranclp [of table_step, OF table_step.closing] by blast
  with 5 r show ?thesis by simp
qed auto

lemma handle_run_steps: "table_step\<^sup>*\<^sup>* (fst ts) (fst (handle_run call ops ts))"
proof (induction ops arbitrary: ts)
  case (Cons op ops)
  show ?case
    using rtranclp_trans [OF handle_step_steps Cons.IH, of ts call op] by simp
qed simp

section \<open>Accounting of handles\<close>

























section \<open>Properties\<close>

text \<open>A table, a token and an object space for the concrete instances of the properties.\<close>

definition sample_user :: ZiSecurityId where
  "sample_user = \<lparr>sid_authority = 3, sid_value = 7\<rparr>"

definition sample_descriptor :: ZiSecurityDescriptor where
  "sample_descriptor =
     \<lparr>sd_struct_size = 40, sd_version = 1, sd_owner = sample_user, sd_primary_group = sample_user,
      sd_dacl = Some \<lparr>acl_struct_size = 24, acl_version = 1,
        acl_entries = Some [\<lparr>ace_type = 1, ace_inheritance_flags = 0, ace_reserved = 0, ace_access_mask = 3,
          ace_trustee = sample_user\<rparr>]\<rparr>, sd_control_flags = 0\<rparr>"

definition sample_token :: ZiAccessToken where
  "sample_token =
     \<lparr>token_struct_size = 40, token_version = 1, token_user = sample_user, token_groups = Some [], token_privileges = 0\<rparr>"

definition sample_objects :: "ledger ZiObjectSpace" where
  "sample_objects =
     sample_space\<lparr>objects := (\<lambda>_. sample_header\<lparr>obj_security_descriptor := Some sample_descriptor\<rparr>)\<rparr>"

definition sample_table :: ZiHandleTable where
  "sample_table = projr (zi_handle_table_initialise 2)"

definition sample_opened :: "ZiHandleTable \<times> ledger ZiObjectSpace" where
  "sample_opened = snd (snd (zi_handle_open sample_table 3 (Some sample_token) 3 sample_objects))"

lemma sample_table_init: "zi_handle_table_initialise 2 = Inr sample_table"
  by (simp add: sample_table_def zi_handle_table_initialise_def)

lemma sample_table_ok: "handle_table_ok sample_table"
  using zi_handle_table_initialise_ok [OF sample_table_init] .

lemma sample_open:
  "zi_handle_open sample_table 3 (Some sample_token) 3 sample_objects =
     (ZI_STATUS_SUCCESS, Some 0x100000001, fst sample_opened, snd sample_opened)"
proof -
  have "fst (zi_handle_open sample_table 3 (Some sample_token) 3 sample_objects) = ZI_STATUS_SUCCESS"
    "fst (snd (zi_handle_open sample_table 3 (Some sample_token) 3 sample_objects)) = Some 0x100000001"
    by code_simp+
  then show ?thesis unfolding sample_opened_def by (simp add: prod_eq_iff)
qed

lemma sample_opened_ok: "handle_table_ok (fst sample_opened)"
  by (rule table_steps_ok [OF zi_handle_open_steps [OF sample_open] sample_table_ok])

lemma sample_space_ok: "space_ok (snd sample_opened)"
  by (rule zi_handle_open_space_ok [OF _ sample_open])
    (simp add: space_ok_def object_ok_def sample_objects_def sample_space_def sample_header_def)

text \<open>
  C2: a closed handle stays closed. Once a handle of a well-formed table was closed, then after any
  further operations on the table and any changes to the object space, even when its slot has been
  used again, closing it or looking it up is refused and changes nothing.
\<close>

theorem zi_handle_close_final:
  assumes ok: "handle_table_ok table" and closed: "zi_handle_close call table handle s = (ZI_STATUS_SUCCESS, table', s')"
    and later: "handle_run call' ops (table', s') = (t, u)"
  shows "zi_handle_close call t handle u = (ZI_STATUS_INVALID_HANDLE, t, u) \<and>
    zi_handle_lookup call t handle access expected u =
      (Inl (if ht_is_closing t = 0 then ZI_STATUS_INVALID_HANDLE else ZI_STATUS_PROCESS_TERMINATED), u)"
  using closed
proof (cases rule: zi_handle_close_cases)
  case (closed index generation)
  have steps: "table_step\<^sup>*\<^sup>* table' t" using handle_run_steps [of "(table', s')" call' ops] later by simp
  have ok': "handle_table_ok table'" using table_step_ok [OF table_step.clear [OF closed(2,3)] ok] closed(5) by simp
  have gen: "entry_generation (ht_entries table ! index) \<noteq> 0" using ok closed(2,3) by (simp add: handle_table_ok_def)
  have "retired table' index generation"
    using next_generation_retires [OF order_refl gen] closed(2,4) ok
    by (simp add: closed(5) retired_def table_clear_entry_def entry_clear_def Let_def handle_table_ok_def)
  then have ret: "retired t index generation"
    using table_steps_retired [OF steps ok'] closed(2,5) by simp
  have dec: "decode_handle t handle = Inr (index, generation)"
    using closed(1,5) table_steps_capacity [OF steps] decode_handle_capacity [of t table handle] by simp
  have "generation \<noteq> 0" using decode_handle_range [OF dec] by simp
  with ret have "entry_generation (ht_entries t ! index) \<noteq> generation" by (auto simp: retired_def Let_def)
  with dec show ?thesis
    by (simp add: zi_handle_close_def zi_handle_lookup_def reference_handle_entry_def Let_def)
qed simp

theorem zi_handle_close_final_witness:
  "\<exists>table' s' t u. zi_handle_close log_call (fst sample_opened) 0x100000001 (snd sample_opened) =
       (ZI_STATUS_SUCCESS, table', s') \<and>
     handle_run log_call [OpenOp 5 (Some sample_token) 1] (table', s') = (t, u) \<and>
     zi_handle_close log_call t 0x100000001 u = (ZI_STATUS_INVALID_HANDLE, t, u)"
proof -
  let ?c = "zi_handle_close log_call (fst sample_opened) 0x100000001 (snd sample_opened)"
  have "fst ?c = ZI_STATUS_SUCCESS" by code_simp
  then obtain table' s' where c: "?c = (ZI_STATUS_SUCCESS, table', s')" by (cases ?c) simp
  obtain t u where run: "handle_run log_call [OpenOp 5 (Some sample_token) 1] (table', s') = (t, u)"
    by (cases "handle_run log_call [OpenOp 5 (Some sample_token) 1] (table', s')")
  from zi_handle_close_final [OF sample_opened_ok c run] c run show ?thesis by blast
qed

text \<open>
  C26: a handle is a capability for exactly the access that was checked. When opening an object
  succeeds, every requested bit is allowed by the object's descriptor for the token; a lookup of the
  new handle then yields the object with one more reference if it asks for no more than was opened,
  and is denied, leaving the object space as it was, if it asks for more.
\<close>

theorem zi_handle_open_lookup:
  assumes ok: "handle_table_ok table" "space_ok s'"
    and opened: "zi_handle_open table object (Some token) requested s = (ZI_STATUS_SUCCESS, Some handle, table', s')"
    and count: "obj_reference_count (objects s' object) \<noteq> UINT32_MAX"
  shows "(\<exists>descriptor. obj_security_descriptor (objects s object) = Some descriptor \<and>
      (\<forall>b. bit requested b \<longrightarrow> dacl_allows token (descriptor_entries descriptor) b)) \<and>
    zi_handle_lookup call table' handle desired None s' =
      (if desired AND NOT requested = 0 then (Inr object, snd (zi_object_reference object s'))
       else (Inl ZI_STATUS_ACCESS_DENIED, s'))"
  using opened
proof (cases rule: zi_handle_open_cases)
  case (opened i descriptor)
  have "security_well_formed (Some descriptor) (Some token) \<and> requested AND NOT ZI_ACCESS_FULL_CONTROL = 0"
    using opened(7) monitor.check_malformed [of "Some descriptor" "Some token" requested] by auto
  then have allowed: "\<forall>b. bit requested b \<longrightarrow> dacl_allows token (descriptor_entries descriptor) b"
    using monitor.check_denied [of "Some descriptor" "Some token" requested] opened(7) by (auto simp: descriptor_allows_def)
  have lt: "i < length (ht_entries table)" "ht_capacity table \<le> 2 ^ 32 - 2"
    using ok(1) opened(1) by (simp_all add: handle_table_ok_def)
  let ?e = "ht_entries table' ! i"
  have entry: "entry_in_use ?e" "entry_object ?e = object" "entry_granted_access ?e = requested"
    "entry_generation ?e = entry_generation (ht_entries table ! i)"
    using lt by (simp_all add: opened(12) table_fill_entry_def)
  have dec: "decode_handle table' handle = Inr (i, entry_generation (ht_entries table ! i))"
    using decode_encode [of i table' "entry_generation (ht_entries table ! i)"] opened lt by (simp add: table_fill_entry_def)
  have "obj_is_destroyed (objects s' object) = 0"
    using opened(9) by (auto simp: zi_object_add_handle_def Let_def split: if_splits)
  then have acq: "fst (zi_object_reference object s') = ZI_STATUS_SUCCESS"
    using opened(4) count by (simp add: zi_object_reference_def Let_def)
  have "ht_is_closing table' = 0" by (simp add: opened(8,12) table_fill_entry_def)
  then have ref: "reference_handle_entry table' handle s' = (Inr (object, requested), snd (zi_object_reference object s'))"
    using dec entry acq opened(4) by (simp add: reference_handle_entry_def Let_def case_prod_unfold)
  have "snd (zi_object_dereference call object (snd (zi_object_reference object s'))) = s'"
    by (rule object_refs.borrow) (use ok(2) acq in simp_all)
  with ref allowed opened(6) show ?thesis by (simp add: zi_handle_lookup_def)
qed simp

theorem zi_handle_open_lookup_witness:
  "zi_handle_lookup log_call (fst sample_opened) 0x100000001 1 None (snd sample_opened) =
     (Inr 3, snd (zi_object_reference 3 (snd sample_opened))) \<and>
   zi_handle_lookup log_call (fst sample_opened) 0x100000001 4 None (snd sample_opened) =
     (Inl ZI_STATUS_ACCESS_DENIED, snd sample_opened)"
proof -
  have "obj_reference_count (objects (snd sample_opened) 3) \<noteq> UINT32_MAX" by code_simp
  note th = zi_handle_open_lookup [OF sample_table_ok sample_space_ok sample_open this, of log_call]
  show ?thesis using th [of 1] th [of 4] by simp
qed

text \<open>
  C27: duplication does not amplify access. A duplicate is a handle to the same object, and the access
  it carries is part of the access of the handle it was made from.
\<close>

theorem zi_handle_duplicate_attenuates:
  assumes "zi_handle_duplicate call source handle target token requested flags s =
      (ZI_STATUS_SUCCESS, Some handle', target', s')"
    and "handle_table_ok target"
  shows "\<exists>object granted s1 i. reference_handle_entry source handle s = (Inr (object, granted), s1) \<and>
    decode_handle target' handle' = Inr (i, entry_generation (ht_entries target' ! i)) \<and>
    entry_in_use (ht_entries target' ! i) \<and> entry_object (ht_entries target' ! i) = object \<and>
    entry_granted_access (ht_entries target' ! i) AND NOT granted = 0"
proof -
  have err: "st \<noteq> ZI_STATUS_SUCCESS" if "reference_handle_entry source handle s = (Inl st, s1)" for st s1
    using that decode_handle_error
    by (fastforce simp: reference_handle_entry_def Let_def split: sum.splits prod.splits if_splits)
  obtain object granted s1 where ref: "reference_handle_entry source handle s = (Inr (object, granted), s1)"
    using assms(1) err by (auto simp: zi_handle_duplicate_def split: if_splits prod.splits sum.splits)
  define m where "m = (if flags AND ZI_HANDLE_DUPLICATE_SAME_ACCESS \<noteq> 0 then granted else requested)"
  obtain st out t2 s2 where o: "zi_handle_open target object token m s1 = (st, out, t2, s2)"
    by (cases "zi_handle_open target object token m s1")
  from assms(1) ref o m_def have m: "m AND NOT granted = 0" and st: "st = ZI_STATUS_SUCCESS" "t2 = target'"
    and out: "handle' = (case out of None \<Rightarrow> ZI_INVALID_HANDLE | Some h \<Rightarrow> h)"
    by (simp_all add: zi_handle_duplicate_def Let_def split: if_splits option.splits)
  note op = o [unfolded st]
  from op show ?thesis
  proof (cases rule: zi_handle_open_cases)
    case (opened i descriptor)
    have lt: "i < length (ht_entries target)" "ht_capacity target \<le> 2 ^ 32 - 2"
      using assms(2) opened(1) by (simp_all add: handle_table_ok_def)
    have "decode_handle target' handle' = Inr (i, entry_generation (ht_entries target' ! i))"
      using decode_encode [of i target' "entry_generation (ht_entries target ! i)"] opened lt out
      by (simp add: table_fill_entry_def)
    with ref m lt show ?thesis
      by (intro exI [of _ object] exI [of _ granted] exI [of _ s1] exI [of _ i])
        (simp add: opened(12) table_fill_entry_def)
  qed simp
qed


theorem zi_handle_duplicate_attenuates_witness:
  "\<exists>handle' target' s'. zi_handle_duplicate log_call (fst sample_opened) 0x100000001 sample_table (Some sample_token) 2 0
       (snd sample_opened) = (ZI_STATUS_SUCCESS, Some handle', target', s') \<and>
     (\<exists>i. entry_in_use (ht_entries target' ! i) \<and> entry_object (ht_entries target' ! i) = 3)"
proof -
  let ?d = "zi_handle_duplicate log_call (fst sample_opened) 0x100000001 sample_table (Some sample_token) 2 0 (snd sample_opened)"
  have "fst ?d = ZI_STATUS_SUCCESS" "fst (snd ?d) = Some 0x100000001" by code_simp+
  then obtain target' s' where d: "?d = (ZI_STATUS_SUCCESS, Some 0x100000001, target', s')" by (cases ?d) auto
  have "fst (reference_handle_entry (fst sample_opened) 0x100000001 (snd sample_opened)) = Inr (3, 3)" by code_simp
  with zi_handle_duplicate_attenuates [OF d sample_table_ok] d show ?thesis by auto
qed




text \<open>
  C28: closing a table is final. After closing all handles of a well-formed table, and after any
  further operations, no slot is in use and the active count is zero; every attempt to open or look
  up a handle fails without changing the table or the object space.
\<close>

theorem zi_handle_table_close_all_final:
  assumes ok: "handle_table_ok table" and closed: "zi_handle_table_close_all call table s = (status, table', s')"
    and later: "handle_run call' ops (table', s') = (t, u)"
  shows "ht_active_count t = 0 \<and> (\<forall>index < ht_capacity t. \<not> entry_in_use (ht_entries t ! index)) \<and>
    (\<exists>st out. ZiFailed st \<and> zi_handle_open t object token access u = (st, out, t, u)) \<and>
    (\<exists>st. ZiFailed st \<and> zi_handle_lookup call t handle access expected u = (Inl st, u))"
proof -
  let ?closing = "table\<lparr>ht_is_closing := 1\<rparr>"
  have loop: "handle_close_loop call 0 ZI_STATUS_SUCCESS ?closing s = (status, table', s')"
    using closed ok by (simp add: zi_handle_table_close_all_def handle_table_ok_def)
  have okc: "handle_table_ok ?closing" using ok by (simp add: handle_table_ok_def)
  note ok' = table_steps_ok [OF handle_close_loop_steps [OF loop] okc]
  have "ht_capacity table' = ht_capacity table" using table_steps_capacity [OF handle_close_loop_steps [OF loop]] by simp
  then have c: "table_closed table'"
    using handle_close_loop_cleared [OF loop] ok by (simp add: table_closed_def handle_table_ok_def)
  have steps: "table_step\<^sup>*\<^sup>* table' t" using handle_run_steps [of "(table', s')" call' ops] later by simp
  note t = table_steps_closed [OF steps c] table_steps_ok [OF steps ok']
  then have none: "\<forall>index < ht_capacity t. \<not> entry_in_use (ht_entries t ! index)" "ht_is_closing t \<noteq> 0"
    by (simp_all add: table_closed_def)
  then have "filter entry_in_use (ht_entries t) = []"
    using t(2) by (auto simp: filter_empty_conv in_set_conv_nth handle_table_ok_def)
  moreover obtain st out t2 u2 where o: "zi_handle_open t object token access u = (st, out, t2, u2)"
    by (cases "zi_handle_open t object token access u")
  then have "ZiFailed st \<and> t2 = t \<and> u2 = u"
    by (cases rule: zi_handle_open_cases) (use none in simp_all)
  moreover have "\<exists>st. ZiFailed st \<and> zi_handle_lookup call t handle access expected u = (Inl st, u)"
    using none(2) decode_handle_error [of t handle]
    by (cases "decode_handle t handle") (auto simp: zi_handle_lookup_def reference_handle_entry_def)
  ultimately show ?thesis using t(2) none(1) o by (auto simp: handle_table_ok_def)
qed

theorem zi_handle_table_close_all_final_witness:
  "\<exists>status t u. zi_handle_table_close_all log_call (fst sample_opened) (snd sample_opened) = (status, t, u) \<and>
     ht_active_count t = 0"
proof -
  obtain status t u where c: "zi_handle_table_close_all log_call (fst sample_opened) (snd sample_opened) = (status, t, u)"
    by (cases "zi_handle_table_close_all log_call (fst sample_opened) (snd sample_opened)")
  have "handle_run log_call [] (t, u) = (t, u)" by simp
  from zi_handle_table_close_all_final [OF sample_opened_ok c this] c show ?thesis by blast
qed

end
