(* ===== verification/Zi_Directory.thy ===== *)
theory Zi_Directory
  imports Zi_Object Zi_Path "HOL-Library.Multiset"
begin

text \<open>
  Object directories and the namespace, the second part of \<^verbatim>\<open>kernel/executive/object/object.c\<close>.

  A directory is an object whose header comes first in its structure, so the header and the entries
  of a directory are found in the object space under one address, and the code's cast from a header
  to a directory is the identity on addresses. The entries of a directory are an array as long as
  its capacity, of which the first \<^verbatim>\<open>count\<close> are in use.
\<close>

unbundle bit_operations_syntax

definition put_directory :: "addr \<Rightarrow> ZiObjectDirectory \<Rightarrow> 'w ZiObjectSpace \<Rightarrow> 'w ZiObjectSpace" where
  "put_directory directory d s = s\<lparr>directories := (directories s)(directory := d)\<rparr>"

definition is_dot_name :: "bytes \<Rightarrow> bool" where
  "is_dot_name name \<longleftrightarrow>
     (length name = 1 \<and> name ! 0 = 0x2e) \<or> (length name = 2 \<and> name ! 0 = 0x2e \<and> name ! 1 = 0x2e)"

section \<open>Operations\<close>

definition zi_object_directory_initialise ::
  "addr \<Rightarrow> ZiObjectType option \<Rightarrow> bytes option \<Rightarrow> nat \<Rightarrow> ZiSecurityDescriptor option \<Rightarrow> bytes option \<Rightarrow>
   'w ZiObjectSpace \<Rightarrow> ZiStatus \<times> 'w ZiObjectSpace" where
  "zi_object_directory_initialise directory directory_type name capacity security_descriptor debug_name s =
     (case directory_type of
        None \<Rightarrow> (ZI_STATUS_INVALID_ARGUMENT, s)
      | Some otype \<Rightarrow>
          if directory = NULL \<or> type_flags otype AND ZI_OBJECT_TYPE_DIRECTORY = 0 \<or> capacity = 0
          then (ZI_STATUS_INVALID_ARGUMENT, s)
          else
            let (status, s') = zi_object_initialise directory directory_type name NULL security_descriptor debug_name s in
            if ZiFailed status then (status, s')
            else (ZI_STATUS_SUCCESS,
                  put_directory directory
                    \<lparr>dir_entries = replicate capacity NULL, dir_capacity = capacity, dir_count = 0\<rparr> s'))"

text \<open>The loop that insertion, lookup and removal share: the first entry in use with the given name.\<close>

function directory_find :: "'w ZiObjectSpace \<Rightarrow> ZiObjectDirectory \<Rightarrow> bytes \<Rightarrow> nat \<Rightarrow> nat option" where
  "directory_find s d name index =
     (if index < dir_count d then
        (if string_views_equal (obj_name (objects s (dir_entries d ! index))) name then Some index
         else directory_find s d name (Suc index))
      else None)"
  by pat_completeness auto
termination
  by (relation "measure (\<lambda>(_, d, _, index). dir_count d - index)") auto

declare directory_find.simps [simp del]

definition zi_object_directory_insert :: "addr \<Rightarrow> addr \<Rightarrow> 'w ZiObjectSpace \<Rightarrow> ZiStatus \<times> 'w ZiObjectSpace" where
  "zi_object_directory_insert directory object s =
     (let d = directories s directory; h = objects s object in
      if directory = NULL \<or> object = NULL \<or> obj_name h = [] \<or> is_dot_name (obj_name h)
      then (ZI_STATUS_INVALID_ARGUMENT, s)
      else if obj_is_destroyed (objects s directory) \<noteq> 0 \<or> dir_count d = dir_capacity d
      then (if dir_count d = dir_capacity d then ZI_STATUS_BUFFER_TOO_SMALL else ZI_STATUS_INVALID_STATE, s)
      else if directory_find s d (obj_name h) 0 \<noteq> None then (ZI_STATUS_ALREADY_EXISTS, s)
      else if obj_is_destroyed h \<noteq> 0 \<or> obj_parent h \<noteq> NULL \<or> obj_reference_count h = UINT32_MAX
      then (ZI_STATUS_INVALID_STATE, s)
      else (ZI_STATUS_SUCCESS,
            put_directory directory
              (d\<lparr>dir_entries := (dir_entries d)[dir_count d := object], dir_count := dir_count d + 1\<rparr>)
              (put_object object
                (h\<lparr>obj_reference_count := obj_reference_count h + 1, obj_parent := directory\<rparr>) s)))"

definition zi_object_directory_lookup ::
  "addr \<Rightarrow> bytes option \<Rightarrow> 'w ZiObjectSpace \<Rightarrow> addr result \<times> 'w ZiObjectSpace" where
  "zi_object_directory_lookup directory name_view s =
     (case name_view of
        None \<Rightarrow> (Inl ZI_STATUS_INVALID_ARGUMENT, s)
      | Some name \<Rightarrow>
          if directory = NULL \<or> name = [] \<or> is_dot_name name \<or> ZiFailed (zi_utf8_validate name_view)
          then (Inl ZI_STATUS_INVALID_ARGUMENT, s)
          else
            let d = directories s directory in
            case directory_find s d name 0 of
              None \<Rightarrow> (Inl ZI_STATUS_NOT_FOUND, s)
            | Some index \<Rightarrow>
                let object = dir_entries d ! index;
                    (status, s') = zi_object_reference object s in
                (if ZiSucceeded status then Inr object else Inl status, s'))"

text \<open>
  Removal. With \<^term>\<open>wanted\<close> the caller passed an out-pointer and takes over the directory's
  reference; otherwise the reference is dropped.
\<close>

definition zi_object_directory_remove ::
  "'w callbacks \<Rightarrow> addr \<Rightarrow> bytes option \<Rightarrow> bool \<Rightarrow> 'w ZiObjectSpace \<Rightarrow>
   ZiStatus \<times> addr option \<times> 'w ZiObjectSpace" where
  "zi_object_directory_remove call directory name_view wanted s =
     (case name_view of
        None \<Rightarrow> (ZI_STATUS_INVALID_ARGUMENT, None, s)
      | Some name \<Rightarrow>
          if directory = NULL \<or> name = [] \<or> is_dot_name name \<or> ZiFailed (zi_utf8_validate name_view)
          then (ZI_STATUS_INVALID_ARGUMENT, None, s)
          else
            let d = directories s directory in
            case directory_find s d name 0 of
              None \<Rightarrow> (ZI_STATUS_NOT_FOUND, None, s)
            | Some index \<Rightarrow>
                let object = dir_entries d ! index;
                    moved = (dir_entries d)[index := dir_entries d ! (dir_count d - 1)];
                    s' = put_object object ((objects s object)\<lparr>obj_parent := NULL\<rparr>)
                           (put_directory directory
                             (d\<lparr>dir_entries := moved[dir_count d - 1 := NULL], dir_count := dir_count d - 1\<rparr>) s) in
                if wanted then (ZI_STATUS_SUCCESS, Some object, s')
                else let (status, s'') = zi_object_dereference call object s' in (status, None, s''))"

definition release_held :: "'w callbacks \<Rightarrow> addr \<Rightarrow> 'w ZiObjectSpace \<Rightarrow> 'w ZiObjectSpace" where
  "release_held call held s = (if held = NULL then s else snd (zi_object_dereference call held s))"

function namespace_loop ::
  "'w callbacks \<Rightarrow> bytes \<Rightarrow> nat \<Rightarrow> nat \<Rightarrow> addr \<Rightarrow> addr \<Rightarrow> 'w ZiObjectSpace \<Rightarrow> addr result \<times> 'w ZiObjectSpace" where
  "namespace_loop call path index component_start directory held s =
     (if index > length path then (Inl ZI_STATUS_NOT_FOUND, s)
      else if index < length path \<and> path ! index \<noteq> 0x5c
      then namespace_loop call path (Suc index) component_start directory held s
      else
        let component = take (index - component_start) (drop component_start path) in
        if component = [] \<or> is_dot_name component
        then (Inl ZI_STATUS_INVALID_PATH, release_held call held s)
        else
          case zi_object_directory_lookup directory (Some component) s of
            (Inl status, s1) \<Rightarrow> (Inl status, release_held call held s1)
          | (Inr found, s1) \<Rightarrow>
              let s2 = release_held call held s1 in
              if index = length path then (Inr found, s2)
              else if type_flags (obj_type (objects s2 found)) AND ZI_OBJECT_TYPE_DIRECTORY = 0
              then (Inl ZI_STATUS_INVALID_PATH, snd (zi_object_dereference call found s2))
              else namespace_loop call path (Suc index) (Suc index) found found s2)"
  by pat_completeness auto
termination
  by (relation "measure (\<lambda>(_, path, index, _). Suc (length path) - index)") auto

declare namespace_loop.simps [simp del]

definition zi_object_namespace_lookup ::
  "'w callbacks \<Rightarrow> addr \<Rightarrow> bytes option \<Rightarrow> 'w ZiObjectSpace \<Rightarrow> addr result \<times> 'w ZiObjectSpace" where
  "zi_object_namespace_lookup call root path_view s =
     (case path_view of
        None \<Rightarrow> (Inl ZI_STATUS_INVALID_PATH, s)
      | Some path \<Rightarrow>
          if root = NULL \<or> path = [] \<or> path ! 0 \<noteq> 0x5c \<or> ZiFailed (zi_utf8_validate path_view)
          then (Inl ZI_STATUS_INVALID_PATH, s)
          else if list_ex (\<lambda>c. c = 0 \<or> c = 0x2f) path then (Inl ZI_STATUS_INVALID_PATH, s)
          else if length path = 1
          then (let (status, s') = zi_object_reference root s in
                (if ZiSucceeded status then Inr root else Inl status, s'))
          else namespace_loop call path 1 1 root NULL s)"

section \<open>A directory as a finite map\<close>

definition dir_objects :: "'w ZiObjectSpace \<Rightarrow> addr \<Rightarrow> addr list" where
  "dir_objects s directory = take (dir_count (directories s directory)) (dir_entries (directories s directory))"

definition dir_names :: "'w ZiObjectSpace \<Rightarrow> addr \<Rightarrow> bytes list" where
  "dir_names s directory = map (\<lambda>p. obj_name (objects s p)) (dir_objects s directory)"

definition dir_map :: "'w ZiObjectSpace \<Rightarrow> addr \<Rightarrow> bytes \<Rightarrow> addr option" where
  "dir_map s directory = map_of (map (\<lambda>p. (obj_name (objects s p), p)) (dir_objects s directory))"

definition dir_ok :: "'w ZiObjectSpace \<Rightarrow> addr \<Rightarrow> bool" where
  "dir_ok s directory \<longleftrightarrow>
     length (dir_entries (directories s directory)) = dir_capacity (directories s directory) \<and>
     dir_count (directories s directory) \<le> dir_capacity (directories s directory) \<and>
     distinct (dir_names s directory)"

lemma put_directory_simps [simp]:
  "directories (put_directory directory d s) = (directories s)(directory := d)"
  "objects (put_directory directory d s) = objects s"
  "world (put_directory directory d s) = world s"
  by (simp_all add: put_directory_def)

lemma length_dir_objects: "dir_ok s directory \<Longrightarrow> length (dir_objects s directory) = dir_count (directories s directory)"
  by (simp add: dir_ok_def dir_objects_def)

lemma directory_find_upt:
  "directory_find s d name index =
     find (\<lambda>j. obj_name (objects s (dir_entries d ! j)) = name) [index..<dir_count d]"
proof (induction s d name index rule: directory_find.induct)
  case (1 s d name index)
  then show ?case
    by (subst directory_find.simps) (simp add: upt_conv_Cons)
qed

lemma directory_find_None:
  "directory_find s d name 0 = None \<longleftrightarrow> (\<forall>j < dir_count d. obj_name (objects s (dir_entries d ! j)) \<noteq> name)"
  by (auto simp: directory_find_upt find_None_iff)

lemma directory_find_Some:
  "directory_find s d name 0 = Some j \<Longrightarrow> j < dir_count d \<and> obj_name (objects s (dir_entries d ! j)) = name"
  by (auto simp: directory_find_upt find_Some_iff)

lemma dir_map_Some:
  assumes "distinct (dir_names s directory)"
  shows "dir_map s directory name = Some p \<longleftrightarrow> p \<in> set (dir_objects s directory) \<and> obj_name (objects s p) = name"
proof -
  have "distinct (map fst (map (\<lambda>p. (obj_name (objects s p), p)) (dir_objects s directory)))"
    using assms by (simp add: dir_names_def comp_def)
  from map_of_eq_Some_iff [OF this, of name p] show ?thesis by (auto simp: dir_map_def)
qed

lemma dir_map_None: "dir_map s directory name = None \<longleftrightarrow> name \<notin> set (dir_names s directory)"
  by (simp add: dir_map_def map_of_eq_None_iff dir_names_def image_image)

lemma dir_map_find:
  assumes ok: "dir_ok s directory"
  shows "dir_map s directory name =
    (case directory_find s (directories s directory) name 0 of
       None \<Rightarrow> None | Some j \<Rightarrow> Some (dir_entries (directories s directory) ! j))"
proof (cases "directory_find s (directories s directory) name 0")
  case None
  then have "name \<notin> set (dir_names s directory)"
    using ok by (fastforce simp: directory_find_None dir_names_def dir_objects_def in_set_conv_nth dir_ok_def)
  with None show ?thesis by (simp add: dir_map_None)
next
  case (Some j)
  note j = directory_find_Some [OF Some]
  then have "dir_entries (directories s directory) ! j \<in> set (dir_objects s directory)"
    using ok by (auto simp: dir_objects_def dir_ok_def in_set_conv_nth intro!: exI [of _ j])
  with ok Some j show ?thesis by (simp add: dir_map_Some dir_ok_def)
qed

lemma mset_last: "xs \<noteq> [] \<Longrightarrow> mset xs = add_mset (last xs) (mset (butlast xs))"
  by (cases xs rule: rev_cases) simp_all

lemma mset_swap_remove:
  assumes "j < length xs"
  shows "mset (butlast (xs[j := last xs])) = mset xs - {#xs ! j#}"
proof -
  let ?ys = "xs[j := last xs]"
  from assms have ne: "xs \<noteq> []" "?ys \<noteq> []" by auto
  have "last ?ys = last xs" using ne(1) assms by (cases xs rule: rev_cases) (auto simp: last_list_update)
  then have "mset ?ys = add_mset (last xs) (mset (butlast ?ys))" using mset_last [OF ne(2)] by simp
  moreover have "mset ?ys = add_mset (last xs) (mset xs - {#xs ! j#})" using assms by (simp add: mset_update)
  ultimately show ?thesis by simp
qed

lemma directory_insert_effect:
  assumes ok: "dir_ok s directory" and ins: "zi_object_directory_insert directory object s = (ZI_STATUS_SUCCESS, s')"
  shows "dir_names s' directory = dir_names s directory @ [obj_name (objects s object)]"
    "dir_objects s' directory = dir_objects s directory @ [object]"
    "obj_name (objects s object) \<notin> set (dir_names s directory)" "dir_ok s' directory"
    "objects s' = (objects s)(object := (objects s object)\<lparr>obj_reference_count := obj_reference_count (objects s object) + 1,
       obj_parent := directory\<rparr>)"
proof -
  let ?d = "directories s directory" and ?h = "objects s object"
  from ins have c: "directory_find s ?d (obj_name ?h) 0 = None" "dir_count ?d \<noteq> dir_capacity ?d"
    and s': "s' = put_directory directory
        (?d\<lparr>dir_entries := (dir_entries ?d)[dir_count ?d := object], dir_count := dir_count ?d + 1\<rparr>)
        (put_object object (?h\<lparr>obj_reference_count := obj_reference_count ?h + 1, obj_parent := directory\<rparr>) s)"
    by (auto simp: zi_object_directory_insert_def Let_def split: if_splits)
  have lt: "dir_count ?d < length (dir_entries ?d)" using ok c(2) by (simp add: dir_ok_def)
  show objs: "dir_objects s' directory = dir_objects s directory @ [object]"
    using lt by (simp add: s' dir_objects_def take_Suc_conv_app_nth)
  have name: "obj_name (objects s' p) = obj_name (objects s p)" for p by (simp add: s')
  show names: "dir_names s' directory = dir_names s directory @ [obj_name ?h]"
    by (simp add: dir_names_def objs name)
  show fresh: "obj_name ?h \<notin> set (dir_names s directory)"
    using c(1) dir_map_find [OF ok, of "obj_name ?h"] by (simp add: dir_map_None)
  show "dir_ok s' directory"
    using ok lt fresh by (simp add: dir_ok_def names) (simp add: s' dir_ok_def)
  show "objects s' = (objects s)(object := ?h\<lparr>obj_reference_count := obj_reference_count ?h + 1, obj_parent := directory\<rparr>)"
    by (simp add: s')
qed


lemma mset_subset_eq_distinct: "mset xs \<subseteq># mset ys \<Longrightarrow> distinct ys \<Longrightarrow> distinct xs"
  by (metis distinct_count_atmost_1 le_zero_eq mset_subset_eq_count count_mset_0_iff le_antisym less_one not_le)

lemma directory_remove_effect:
  assumes ok: "dir_ok s directory"
    and rem: "zi_object_directory_remove call directory (Some name) True s = (ZI_STATUS_SUCCESS, Some object, s')"
  shows "dir_map s directory name = Some object" "dir_ok s' directory"
    "set (dir_objects s' directory) = set (dir_objects s directory) - {object}"
    "objects s' = (objects s)(object := (objects s object)\<lparr>obj_parent := NULL\<rparr>)"
proof -
  let ?d = "directories s directory" and ?n = "dir_count (directories s directory)"
  from rem obtain j where j: "directory_find s ?d name 0 = Some j" "object = dir_entries ?d ! j"
    and s': "s' = put_object object ((objects s object)\<lparr>obj_parent := NULL\<rparr>)
       (put_directory directory (?d\<lparr>dir_entries := ((dir_entries ?d)[j := dir_entries ?d ! (?n - 1)])[?n - 1 := NULL],
          dir_count := ?n - 1\<rparr>) s)"
    by (auto simp: zi_object_directory_remove_def Let_def split: if_splits option.splits)
  note jn = directory_find_Some [OF j(1)]
  show "dir_map s directory name = Some object" using dir_map_find [OF ok, of name] j by simp
  let ?xs = "dir_objects s directory"
  have len: "length ?xs = ?n" using ok by (rule length_dir_objects)
  have nth: "?xs ! i = dir_entries ?d ! i" if "i < ?n" for i using that by (simp add: dir_objects_def)
  have "?xs \<noteq> []" using jn len by auto
  then have last: "last ?xs = dir_entries ?d ! (?n - 1)" using jn len nth [of "?n - 1"] by (simp add: last_conv_nth)
  have "dir_objects s' directory = butlast (?xs[j := last ?xs])"
    unfolding last using jn ok by (simp add: s' dir_objects_def butlast_conv_take take_update_swap dir_ok_def list_update_beyond min_absorb1)
  then have m: "mset (dir_objects s' directory) = mset ?xs - {#object#}"
    using mset_swap_remove [of j ?xs] jn len nth j(2) by simp
  have mem: "object \<in> set ?xs" using jn len nth [of j] j(2) by (metis nth_mem)
  have name': "obj_name (objects s' p) = obj_name (objects s p)" for p by (simp add: s')
  have "distinct ?xs" using ok by (simp add: dir_ok_def dir_names_def distinct_map)
  then show set': "set (dir_objects s' directory) = set ?xs - {object}"
    using mset_eq_setD [of "dir_objects s' directory" "remove1 object ?xs"] m by simp
  have "mset (dir_names s' directory) \<subseteq># mset (dir_names s directory)"
    unfolding dir_names_def name' mset_map m by (simp add: image_mset_subseteq_mono)
  then have "distinct (dir_names s' directory)"
    using ok mset_subset_eq_distinct by (auto simp: dir_ok_def)
  then show "dir_ok s' directory"
    unfolding dir_ok_def by (intro conjI) (use ok jn in \<open>auto simp: s' dir_ok_def\<close>)
  show "objects s' = (objects s)(object := (objects s object)\<lparr>obj_parent := NULL\<rparr>)" by (simp add: s')
qed


section \<open>Resolution of a path\<close>

text \<open>
  What a path of components means in a snapshot of the space: each component is looked up in the
  directory the previous one named, and a component that is no name is an error. No reference is
  taken here.
\<close>

definition find_object :: "'w ZiObjectSpace \<Rightarrow> addr \<Rightarrow> bytes \<Rightarrow> addr result" where
  "find_object s directory name =
     (if name = [] \<or> is_dot_name name then Inl ZI_STATUS_INVALID_PATH
      else if ZiFailed (zi_utf8_validate (Some name)) then Inl ZI_STATUS_INVALID_ARGUMENT
      else
        case directory_find s (directories s directory) name 0 of
          None \<Rightarrow> Inl ZI_STATUS_NOT_FOUND
        | Some index \<Rightarrow>
            let object = dir_entries (directories s directory) ! index in
            if object = NULL then Inl ZI_STATUS_INVALID_ARGUMENT
            else if obj_is_destroyed (objects s object) \<noteq> 0 then Inl ZI_STATUS_INVALID_STATE
            else Inr object)"

fun resolve :: "'w ZiObjectSpace \<Rightarrow> addr \<Rightarrow> bytes list \<Rightarrow> addr result" where
  "resolve s directory [] = Inr directory"
| "resolve s directory [name] = find_object s directory name"
| "resolve s directory (name # names) =
     (case find_object s directory name of
        Inl status \<Rightarrow> Inl status
      | Inr object \<Rightarrow>
          if type_flags (obj_type (objects s object)) AND ZI_OBJECT_TYPE_DIRECTORY = 0
          then Inl ZI_STATUS_INVALID_PATH
          else resolve s object names)"

text \<open>No object is close to the limit of its reference count.\<close>

definition references_left :: "'w ZiObjectSpace \<Rightarrow> bool" where
  "references_left s \<longleftrightarrow> (\<forall>p. uint (obj_reference_count (objects s p)) < uint UINT32_MAX - 1)"

text \<open>The state while a directory is held: one more reference to it, and nothing else.\<close>

definition held_state :: "addr \<Rightarrow> 'w ZiObjectSpace \<Rightarrow> 'w ZiObjectSpace" where
  "held_state held s = (if held = NULL then s else snd (zi_object_reference held s))"

lemma is_dot_name_iff: "is_dot_name name \<longleftrightarrow> name = [0x2e] \<or> name = [0x2e, 0x2e]"
  by (auto simp: is_dot_name_def length_Suc_conv numeral_2_eq_2)

lemma reference_frame:
  "directories (snd (zi_object_reference p s)) = directories s"
  "obj_name (objects (snd (zi_object_reference p s)) q) = obj_name (objects s q)"
  "obj_type (objects (snd (zi_object_reference p s)) q) = obj_type (objects s q)"
  "obj_is_destroyed (objects (snd (zi_object_reference p s)) q) = obj_is_destroyed (objects s q)"
  by (simp_all add: zi_object_reference_def Let_def)

lemma held_frame:
  "directories (held_state p s) = directories s"
  "obj_name (objects (held_state p s) q) = obj_name (objects s q)"
  "obj_type (objects (held_state p s) q) = obj_type (objects s q)"
  "obj_is_destroyed (objects (held_state p s) q) = obj_is_destroyed (objects s q)"
  by (simp_all add: held_state_def reference_frame)

lemma find_object_held: "find_object (held_state p s) directory name = find_object s directory name"
  by (simp add: find_object_def held_frame directory_find_upt Let_def split: option.split)

lemma held_state_space_ok: "space_ok s \<Longrightarrow> space_ok (held_state p s)"
  by (simp add: held_state_def zi_object_reference_space_ok)

lemma reference_succeeds:
  assumes "references_left s" "p \<noteq> NULL" "obj_is_destroyed (objects s p) = 0"
  shows "zi_object_reference p (held_state q s) = (ZI_STATUS_SUCCESS, snd (zi_object_reference p (held_state q s)))"
proof -
  have "uint (obj_reference_count (objects s p)) < uint UINT32_MAX - 1" using assms(1) by (simp add: references_left_def)
  then have "obj_reference_count (objects (held_state q s) p) \<noteq> UINT32_MAX"
    by (auto simp: held_state_def zi_object_reference_def Let_def word_uint_eq_iff uint_inc)
  with assms(2,3) show ?thesis by (simp add: zi_object_reference_def Let_def held_frame)
qed

lemma reference_commute:
  assumes "references_left s" "p \<noteq> NULL" "q \<noteq> NULL" "obj_is_destroyed (objects s p) = 0" "obj_is_destroyed (objects s q) = 0"
  shows "snd (zi_object_reference p (snd (zi_object_reference q s))) = snd (zi_object_reference q (snd (zi_object_reference p s)))"
  using reference_succeeds [OF assms(1,2,4), of NULL] reference_succeeds [OF assms(1,3,5), of NULL]
    reference_succeeds [OF assms(1,2,4), of q] reference_succeeds [OF assms(1,3,5), of p] assms(2,3)
  by (cases "p = q") (auto simp: held_state_def zi_object_reference_def Let_def put_object_def fun_upd_twist split: if_splits)

lemma release_held_state:
  assumes "space_ok s" "references_left s" "held = NULL \<or> obj_is_destroyed (objects s held) = 0"
  shows "release_held call held (held_state held s) = s"
proof (cases "held = NULL")
  case False
  with assms(3) have "fst (zi_object_reference held s) = ZI_STATUS_SUCCESS"
    using reference_succeeds [OF assms(2) False, of NULL] by (simp add: held_state_def) (metis fst_conv)
  with False show ?thesis
    using object_refs.borrow [of s held call] assms(1) by (simp add: release_held_def held_state_def)
qed (simp add: release_held_def held_state_def)

lemma release_held_reference:
  assumes "space_ok s" "references_left s" "held = NULL \<or> obj_is_destroyed (objects s held) = 0"
    and "found \<noteq> NULL" "obj_is_destroyed (objects s found) = 0"
  shows "release_held call held (snd (zi_object_reference found (held_state held s))) = held_state found s"
proof (cases "held = NULL")
  case True
  with assms(4) show ?thesis by (simp add: release_held_def held_state_def)
next
  case False
  with assms(3) have alive: "obj_is_destroyed (objects s held) = 0" by simp
  let ?t = "held_state found s"
  have "fst (zi_object_reference held ?t) = ZI_STATUS_SUCCESS"
    using reference_succeeds [OF assms(2) False alive, of found] by (metis fst_conv)
  then have "snd (zi_object_dereference call held (snd (zi_object_reference held ?t))) = ?t"
    using held_state_space_ok [OF assms(1)] by (intro object_refs.borrow) simp_all
  with reference_commute [OF assms(2) False assms(4) alive assms(5)] False assms(4) show ?thesis
    by (simp add: release_held_def held_state_def)
qed

lemma lookup_held:
  assumes "references_left s" "directory \<noteq> NULL" "c \<noteq> []" "\<not> is_dot_name c"
  shows "zi_object_directory_lookup directory (Some c) (held_state held s) =
    (case find_object s directory c of
       Inl status \<Rightarrow> (Inl status, held_state held s)
     | Inr found \<Rightarrow> (Inr found, snd (zi_object_reference found (held_state held s))))"
proof (cases "ZiFailed (zi_utf8_validate (Some c))")
  case True
  with assms(3,4) show ?thesis by (simp add: zi_object_directory_lookup_def find_object_def)
next
  case False
  note c = assms(3,4) False
  let ?d = "directories s directory"
  have same: "directory_find (held_state held s) ?d c 0 = directory_find s ?d c 0"
    by (simp add: directory_find_upt held_frame)
  show ?thesis
  proof (cases "directory_find s ?d c 0")
    case None
    with c assms(2) same show ?thesis by (simp add: zi_object_directory_lookup_def find_object_def held_frame)
  next
    case (Some j)
    let ?o = "dir_entries ?d ! j"
    consider "?o = NULL" | "?o \<noteq> NULL" "obj_is_destroyed (objects s ?o) \<noteq> 0" | "?o \<noteq> NULL" "obj_is_destroyed (objects s ?o) = 0"
      by blast
    then show ?thesis
    proof cases
      case 3
      with Some c assms(2) same reference_succeeds [OF assms(1) 3, of held] show ?thesis
        by (simp add: zi_object_directory_lookup_def find_object_def held_frame Let_def split: prod.split) (metis fst_conv)
    qed (use Some c assms(2) same in \<open>simp_all add: zi_object_directory_lookup_def find_object_def held_frame
        zi_object_reference_def Let_def\<close>)
  qed
qed

lemma namespace_loop_scan:
  assumes "\<forall>j. index \<le> j \<and> j < i \<longrightarrow> path ! j \<noteq> 0x5c" "index \<le> i" "i \<le> length path"
  shows "namespace_loop call path index start directory held s = namespace_loop call path i start directory held s"
  using assms
proof (induction "i - index" arbitrary: index)
  case (Suc n)
  then have "\<not> index > length path" "index < length path \<and> path ! index \<noteq> 0x5c" by auto
  then have "namespace_loop call path index start directory held s = namespace_loop call path (Suc index) start directory held s"
    by (simp only: namespace_loop.simps [of call path index] if_False if_True simp_thms)
  also have "\<dots> = namespace_loop call path i start directory held s"
    by (rule Suc.hyps(1)) (use Suc in auto)
  finally show ?case .
qed simp

lemma find_object_found:
  "find_object s directory name = Inr found \<Longrightarrow> found \<noteq> NULL \<and> obj_is_destroyed (objects s found) = 0"
  by (auto simp: find_object_def Let_def split: option.splits if_splits)

lemma namespace_loop_at:
  assumes "i \<le> length path" "i = length path \<or> path ! i = 0x5c" "take (i - start) (drop start path) = c" "c \<noteq> []"
    "\<not> is_dot_name c"
  shows "namespace_loop call path i start directory held s =
    (case zi_object_directory_lookup directory (Some c) s of
       (Inl status, s1) \<Rightarrow> (Inl status, release_held call held s1)
     | (Inr found, s1) \<Rightarrow>
         let s2 = release_held call held s1 in
         if i = length path then (Inr found, s2)
         else if type_flags (obj_type (objects s2 found)) AND ZI_OBJECT_TYPE_DIRECTORY = 0
         then (Inl ZI_STATUS_INVALID_PATH, snd (zi_object_dereference call found s2))
         else namespace_loop call path (Suc i) (Suc i) found found s2)"
proof -
  have "\<not> i > length path" "\<not> (i < length path \<and> path ! i \<noteq> 0x5c)" using assms(1,2) by auto
  with assms(3-5) show ?thesis
    unfolding namespace_loop.simps [of call path i start directory held s] Let_def
    by (simp only: if_False simp_thms)
qed

lemma namespace_loop_not_name:
  assumes "i \<le> length path" "i = length path \<or> path ! i = 0x5c" "take (i - start) (drop start path) = c"
    "c = [] \<or> is_dot_name c"
  shows "namespace_loop call path i start directory held s = (Inl ZI_STATUS_INVALID_PATH, release_held call held s)"
proof -
  have "\<not> i > length path" "\<not> (i < length path \<and> path ! i \<noteq> 0x5c)" using assms(1,2) by auto
  with assms(3,4) show ?thesis
    unfolding namespace_loop.simps [of call path i start directory held s] Let_def
    by (simp only: if_False if_True simp_thms)
qed

lemma resolve_found: "resolve s d ds = Inr found \<Longrightarrow> ds \<noteq> [] \<Longrightarrow> found \<noteq> NULL"
proof (induction s d ds rule: resolve.induct)
  case (2 s d name)
  then show ?case using find_object_found [of s d name found] by simp
next
  case (3 s d name name' names)
  then show ?case by (simp split: sum.splits if_splits)
qed simp

lemma namespace_loop_resolve:
  assumes "space_ok s" "references_left s"
    and "drop start path = join_components cs" "cs \<noteq> []" "\<forall>c \<in> set cs. 0x5c \<notin> set c" "start \<le> length path"
    and "directory \<noteq> NULL" "held = NULL \<or> obj_is_destroyed (objects s held) = 0"
  shows "namespace_loop call path start start directory held (held_state held s) =
    (case resolve s directory cs of Inl status \<Rightarrow> (Inl status, s) | Inr found \<Rightarrow> (Inr found, held_state found s))"
  using assms(3-8)
proof (induction cs arbitrary: start directory held)
  case (Cons c cs)
  let ?i = "start + length c"
  have "0x5c \<notin> set c" using Cons.prems(3) by simp
  note b = component_bounds [OF Cons.prems(1) this Cons.prems(4)]
  have scan: "namespace_loop call path start start directory held (held_state held s) =
      namespace_loop call path ?i start directory held (held_state held s)"
    by (rule namespace_loop_scan) (use b in simp_all)
  have stop: "?i = length path \<or> path ! ?i = 0x5c" using b(4,5) by (cases "cs = []") auto
  note rel = release_held_state [OF assms(1,2) Cons.prems(6)]
  note at = namespace_loop_at [OF b(1) stop, of start, simplified, OF b(3)]
  note look = lookup_held [OF assms(2) Cons.prems(5), of c held]
  show ?case
  proof (cases "find_object s directory c")
    case (Inl status)
    then have res: "resolve s directory (c # cs) = Inl status" by (cases cs) simp_all
    show ?thesis
    proof (cases "c = [] \<or> is_dot_name c")
      case True
      then have "status = ZI_STATUS_INVALID_PATH" using Inl by (auto simp: find_object_def)
      moreover have "namespace_loop call path ?i start directory held (held_state held s) =
          (Inl ZI_STATUS_INVALID_PATH, release_held call held (held_state held s))"
        by (rule namespace_loop_not_name [OF b(1) stop _ True]) (use b(3) in simp)
      ultimately show ?thesis unfolding scan res using rel by simp
    next
      case False
      then have ne: "c \<noteq> []" "\<not> is_dot_name c" by simp_all
      show ?thesis unfolding scan at [OF ne] res using look [OF ne] rel Inl by simp
    qed
  next
    case (Inr found)
    then have ne: "c \<noteq> []" "\<not> is_dot_name c" by (auto simp: find_object_def split: if_splits)
    note at = at [OF ne] and look = look [OF ne]
    note f = find_object_found [OF Inr]
    have relf: "release_held call held (snd (zi_object_reference found (held_state held s))) = held_state found s"
      by (rule release_held_reference) (use assms(1,2) Cons.prems(6) f in simp_all)
    show ?thesis
    proof (cases "cs = []")
      case True
      then show ?thesis
        unfolding scan at using b(4) [OF True] look relf Inr by simp
    next
      case False
      then obtain c' cs' where cs: "cs = c' # cs'" by (cases cs) auto
      note sep = b(5) [OF False]
      have relf': "snd (zi_object_dereference call found (held_state found s)) = s"
        using release_held_state [of s found call] assms(1,2) f by (simp add: release_held_def)
      have IH: "namespace_loop call path (Suc ?i) (Suc ?i) found found (held_state found s) =
          (case resolve s found cs of Inl status \<Rightarrow> (Inl status, s) | Inr o' \<Rightarrow> (Inr o', held_state o' s))"
        by (rule Cons.IH) (use sep False Cons.prems f in simp_all)
      show ?thesis
        unfolding scan at using sep look relf relf' Inr IH cs by (simp add: Let_def held_frame)
    qed
  qed
qed simp


lemma directory_insert_map:
  assumes ok: "dir_ok s directory" and ins: "zi_object_directory_insert directory object s = (ZI_STATUS_SUCCESS, s')"
  shows "dir_map s' directory = (dir_map s directory)(obj_name (objects s object) \<mapsto> object)"
    "dir_map s directory (obj_name (objects s object)) = None"
    "uint (obj_reference_count (objects s' object)) = uint (obj_reference_count (objects s object)) + 1"
proof -
  note e = directory_insert_effect [OF ok ins]
  have name: "obj_name (objects s' p) = obj_name (objects s p)" for p by (simp add: e(5))
  show none: "dir_map s directory (obj_name (objects s object)) = None" using e(3) by (simp add: dir_map_None)
  have app: "dir_map s' directory = [obj_name (objects s object) \<mapsto> object] ++ dir_map s directory"
    unfolding dir_map_def e(2) name map_append map_of_append by simp
  show "dir_map s' directory = (dir_map s directory)(obj_name (objects s object) \<mapsto> object)"
  proof (rule ext)
    fix n show "dir_map s' directory n = ((dir_map s directory)(obj_name (objects s object) \<mapsto> object)) n"
      using none by (cases "dir_map s directory n") (auto simp: app map_add_def)
  qed
  have "obj_reference_count (objects s object) \<noteq> UINT32_MAX"
    using ins by (auto simp: zi_object_directory_insert_def Let_def split: if_splits)
  then show "uint (obj_reference_count (objects s' object)) = uint (obj_reference_count (objects s object)) + 1"
    by (simp add: e(5) uint_inc)
qed

lemma directory_remove_map:
  assumes ok: "dir_ok s directory"
    and rem: "zi_object_directory_remove call directory (Some name) True s = (ZI_STATUS_SUCCESS, Some object, s')"
  shows "dir_map s' directory = (dir_map s directory)(name := None)"
proof (rule ext)
  fix n
  note e = directory_remove_effect [OF ok rem]
  have name': "obj_name (objects s' p) = obj_name (objects s p)" for p by (simp add: e(4))
  have d: "distinct (dir_names s directory)" "distinct (dir_names s' directory)" using ok e(2) by (simp_all add: dir_ok_def)
  have obj: "object \<in> set (dir_objects s directory)" "obj_name (objects s object) = name"
    using e(1) dir_map_Some [OF d(1)] by simp_all
  have only: "p = object" if "p \<in> set (dir_objects s directory)" "obj_name (objects s p) = name" for p
    using that e(1) dir_map_Some [OF d(1), of name p] by simp
  have "dir_map s' directory n = Some p \<longleftrightarrow> ((dir_map s directory)(name := None)) n = Some p" for p
  proof (cases "n = name")
    case True
    then show ?thesis using only [of p] dir_map_Some [OF d(2), of n p] by (auto simp: e(3) name')
  next
    case False
    then show ?thesis using obj dir_map_Some [OF d(1), of n p] dir_map_Some [OF d(2), of n p] by (auto simp: e(3) name')
  qed
  then show "dir_map s' directory n = ((dir_map s directory)(name := None)) n"
    by (cases "dir_map s' directory n") (metis option.exhaust)+
qed

section \<open>Properties\<close>

text \<open>A root directory that holds one subdirectory, which holds one object, for the concrete instances.\<close>

definition directory_type :: ZiObjectType where
  "directory_type = sample_type\<lparr>type_address := 16, type_id := 6, type_flags := 1\<rparr>"

definition sample_tree :: "ledger ZiObjectSpace" where
  "sample_tree =
     \<lparr>objects = (\<lambda>_. sample_header)(
        10 := sample_header\<lparr>obj_type := directory_type, obj_name := [0x72]\<rparr>,
        11 := sample_header\<lparr>obj_type := directory_type, obj_name := [0x64], obj_parent := 10, obj_reference_count := 2\<rparr>,
        12 := sample_header\<lparr>obj_name := [0x6f], obj_parent := 11, obj_reference_count := 2\<rparr>),
      directories = (\<lambda>_. \<lparr>dir_entries = [], dir_capacity = 0, dir_count = 0\<rparr>)(
        10 := \<lparr>dir_entries = [11, NULL], dir_capacity = 2, dir_count = 1\<rparr>,
        11 := \<lparr>dir_entries = [12], dir_capacity = 1, dir_count = 1\<rparr>),
      world = \<lparr>lg_called = [], lg_taken = (\<lambda>_. 0), lg_held = (\<lambda>_. 0)\<rparr>\<rparr>"

lemma sample_tree_ok: "space_ok sample_tree" "references_left sample_tree" "dir_ok sample_tree 10"
  by (simp_all add: sample_tree_def sample_header_def space_ok_def object_ok_def references_left_def dir_ok_def
      dir_names_def dir_objects_def)

text \<open>
  C10: a directory implements a finite map from names to objects. Inserting an object in a
  well-formed directory adds its name to the map, keeps the directory well formed and takes exactly
  one reference; removing a name deletes exactly that name and hands its object over.
\<close>

theorem zi_object_directory_refines_map:
  assumes ok: "dir_ok s directory"
  shows "(\<forall>s'. zi_object_directory_insert directory object s = (ZI_STATUS_SUCCESS, s') \<longrightarrow>
      dir_ok s' directory \<and> dir_map s directory (obj_name (objects s object)) = None \<and>
      dir_map s' directory = (dir_map s directory)(obj_name (objects s object) \<mapsto> object) \<and>
      uint (obj_reference_count (objects s' object)) = uint (obj_reference_count (objects s object)) + 1) \<and>
    (\<forall>object s'. zi_object_directory_remove call directory (Some name) True s = (ZI_STATUS_SUCCESS, Some object, s') \<longrightarrow>
      dir_ok s' directory \<and> dir_map s directory name = Some object \<and>
      dir_map s' directory = (dir_map s directory)(name := None) \<and>
      obj_reference_count (objects s' object) = obj_reference_count (objects s object))"
proof (intro conjI allI impI)
  fix s' assume ins: "zi_object_directory_insert directory object s = (ZI_STATUS_SUCCESS, s')"
  show "dir_ok s' directory" by (rule directory_insert_effect(4) [OF ok ins])
qed (use directory_insert_map [OF ok] directory_remove_map [OF ok] directory_remove_effect [OF ok] in \<open>simp_all\<close>)

theorem zi_object_directory_refines_map_witness:
  "\<exists>s'. zi_object_directory_insert 10 13 sample_tree = (ZI_STATUS_SUCCESS, s') \<and>
     dir_map s' 10 [0x61] = Some 13 \<and> dir_map s' 10 [0x64] = Some 11"
proof -
  have st: "fst (zi_object_directory_insert 10 13 sample_tree) = ZI_STATUS_SUCCESS" by code_simp
  then obtain s' where ins: "zi_object_directory_insert 10 13 sample_tree = (ZI_STATUS_SUCCESS, s')"
    by (cases "zi_object_directory_insert 10 13 sample_tree") simp
  have "obj_name (objects sample_tree 13) = [0x61]" "dir_map sample_tree 10 [0x64] = Some 11" by code_simp+
  with zi_object_directory_refines_map [OF sample_tree_ok(3), of 13] ins show ?thesis by auto
qed

text \<open>
  C29: looking a path up in the namespace resolves it component by component and is free of leaks. For
  every path that starts with a separator, given as its components between separators, the lookup
  yields what the components resolve to in the given state with exactly one reference taken to it, or
  the error with the object space unchanged: the references held on the way are all given back, also
  when a component is empty, a dot name or not an object. The path that is only the separator names the
  root; a path that is not UTF-8 or has a zero or a slash in it is refused.
\<close>

theorem zi_object_namespace_lookup_resolves:
  assumes "space_ok s" "references_left s" "root \<noteq> NULL"
    and "path = 0x5c # join_components cs" "\<forall>c \<in> set cs. 0x5c \<notin> set c"
  shows "zi_object_namespace_lookup call root (Some path) s =
    (if ZiFailed (zi_utf8_validate (Some path)) \<or> 0 \<in> set path \<or> 0x2f \<in> set path then (Inl ZI_STATUS_INVALID_PATH, s)
     else if path = [0x5c] then
       if obj_is_destroyed (objects s root) = 0 then (Inr root, snd (zi_object_reference root s))
       else (Inl ZI_STATUS_INVALID_STATE, s)
     else
       case resolve s root cs of
         Inl status \<Rightarrow> (Inl status, s)
       | Inr found \<Rightarrow> (Inr found, snd (zi_object_reference found s)))"
proof -
  have start: "path \<noteq> []" "path ! 0 = 0x5c" "list_ex (\<lambda>c. c = 0 \<or> c = 0x2f) path \<longleftrightarrow> 0 \<in> set path \<or> 0x2f \<in> set path"
    using assms(4) by (auto simp: list_ex_iff)
  have root: "fst (zi_object_reference root s) =
      (if obj_is_destroyed (objects s root) = 0 then ZI_STATUS_SUCCESS else ZI_STATUS_INVALID_STATE)"
    using reference_succeeds [OF assms(2,3), of NULL] assms(3)
    by (auto simp: held_state_def zi_object_reference_def prod_eq_iff)
  have gone: "snd (zi_object_reference root s) = s" if "obj_is_destroyed (objects s root) \<noteq> 0"
    using that by (simp add: zi_object_reference_def)
  have rest: "namespace_loop call path 1 1 root NULL s =
      (case resolve s root cs of Inl status \<Rightarrow> (Inl status, s) | Inr found \<Rightarrow> (Inr found, snd (zi_object_reference found s)))"
    if "path \<noteq> [0x5c]"
  proof -
    have cs: "cs \<noteq> []" using that assms(4) by auto
    have "namespace_loop call path 1 1 root NULL (held_state NULL s) =
        (case resolve s root cs of Inl status \<Rightarrow> (Inl status, s) | Inr found \<Rightarrow> (Inr found, held_state found s))"
      by (rule namespace_loop_resolve) (use assms cs in simp_all)
    moreover have "held_state found s = snd (zi_object_reference found s)" if "resolve s root cs = Inr found" for found
      using resolve_found [OF that cs] by (simp add: held_state_def)
    moreover have "held_state NULL s = s" by (simp add: held_state_def)
    ultimately show ?thesis by (simp split: sum.split)
  qed
  have len: "length path = 1 \<longleftrightarrow> path = [0x5c]" using assms(4) by simp
  show ?thesis
  proof (cases "path = [0x5c]")
    case True
    with start root gone assms(3) show ?thesis by (simp add: zi_object_namespace_lookup_def case_prod_unfold)
  next
    case False
    with start len rest assms(3) show ?thesis by (simp add: zi_object_namespace_lookup_def)
  qed
qed

theorem zi_object_namespace_lookup_resolves_witness:
  "zi_object_namespace_lookup log_call 10 (Some [0x5c, 0x64, 0x5c, 0x6f]) sample_tree =
     (Inr 12, snd (zi_object_reference 12 sample_tree)) \<and>
   zi_object_namespace_lookup log_call 10 (Some [0x5c, 0x64, 0x5c]) sample_tree =
     (Inl ZI_STATUS_INVALID_PATH, sample_tree)"
proof -
  have r: "resolve sample_tree 10 [[0x64], [0x6f]] = Inr 12" "resolve sample_tree 10 [[0x64], []] = Inl ZI_STATUS_INVALID_PATH"
    and v: "zi_utf8_validate (Some [0x5c, 0x64, 0x5c, 0x6f]) = ZI_STATUS_SUCCESS"
    "zi_utf8_validate (Some [0x5c, 0x64, 0x5c]) = ZI_STATUS_SUCCESS" by code_simp+
  note th = zi_object_namespace_lookup_resolves [OF sample_tree_ok(1,2), of 10]
  show ?thesis
    using th [of "[0x5c, 0x64, 0x5c, 0x6f]" "[[0x64], [0x6f]]" log_call] th [of "[0x5c, 0x64, 0x5c]" "[[0x64], []]" log_call] r v
    by simp
qed

end
