(* ===== verification/Zi_Scheduler.thy ===== *)
theory Zi_Scheduler
  imports Zi_Object
begin

text \<open>
  The scheduler of \<^verbatim>\<open>kernel/executive/scheduler/scheduler.c\<close>: thirty-two ready queues, doubly linked
  through the threads, with a bitmap of the queues that are not empty.

  Threads live in a store from addresses to thread records, and address 0 is \<^verbatim>\<open>NULL\<close>. The walk
  along a ready queue follows \<^verbatim>\<open>ready_next\<close> until it is \<^verbatim>\<open>NULL\<close>, which ends only on a well-formed
  list; it is a partial function, and the operations that use it return \<^term>\<open>None\<close> where the code
  would not return. The fields of \<^verbatim>\<open>ZxThread\<close> that the scheduler neither reads nor writes are kept
  only as far as the dispatcher needs them.
\<close>

unbundle bit_operations_syntax

abbreviation (input) ZI_THREAD_READY :: u32 where "ZI_THREAD_READY \<equiv> 1"
abbreviation (input) ZI_THREAD_WAITING :: u32 where "ZI_THREAD_WAITING \<equiv> 3"
abbreviation (input) ZI_THREAD_TERMINATED :: u32 where "ZI_THREAD_TERMINATED \<equiv> 5"
abbreviation (input) ZI_SCHEDULER_PRIORITY_COUNT :: u32 where "ZI_SCHEDULER_PRIORITY_COUNT \<equiv> 32"
abbreviation (input) ZI_SCHEDULER_REALTIME_PRIORITY_MIN :: u32 where "ZI_SCHEDULER_REALTIME_PRIORITY_MIN \<equiv> 16"

record ZxThread =
  th_ready_previous :: addr
  th_ready_next :: addr
  th_wait_block :: addr
  th_affinity_mask :: u64
  th_priority :: u32
  th_base_priority :: u32
  th_quantum :: u32
  th_quantum_remaining :: u32
  th_state :: u32
  th_is_queued :: u32

record ZxReadyQueue =
  rq_head :: addr
  rq_tail :: addr
  rq_count :: nat

record ZxScheduler =
  sch_ready_queues :: "ZxReadyQueue list"
  sch_ready_bitmap :: u32
  sch_cpu_index :: u32
  sch_current_thread :: addr
  sch_idle_thread :: addr
  sch_tick_count :: u64
  sch_quantum_expiry_count :: u64
  sch_context_switch_count :: u64


type_synonym threads = "addr \<Rightarrow> ZxThread"

definition put_queue :: "ZxScheduler \<Rightarrow> u32 \<Rightarrow> ZxReadyQueue \<Rightarrow> ZxScheduler" where
  "put_queue s priority queue = s\<lparr>sch_ready_queues := (sch_ready_queues s)[unat priority := queue]\<rparr>"

section \<open>Operations\<close>


definition zi_scheduler_enqueue :: "ZxScheduler \<Rightarrow> addr \<Rightarrow> threads \<Rightarrow> ZiStatus \<times> ZxScheduler \<times> threads" where
  "zi_scheduler_enqueue s thread ts =
     (if thread = NULL \<or> th_priority (ts thread) \<ge> ZI_SCHEDULER_PRIORITY_COUNT \<or>
         th_is_queued (ts thread) \<noteq> 0 \<or> th_state (ts thread) = ZI_THREAD_TERMINATED
      then (ZI_STATUS_INVALID_ARGUMENT, s, ts)
      else
        let priority = th_priority (ts thread);
            queue = sch_ready_queues s ! unat priority;
            ts1 = ts(thread := (ts thread)\<lparr>th_ready_previous := rq_tail queue, th_ready_next := NULL\<rparr>);
            ts2 = (if rq_tail queue \<noteq> NULL
                   then ts1(rq_tail queue := (ts1 (rq_tail queue))\<lparr>th_ready_next := thread\<rparr>) else ts1);
            head = (if rq_tail queue \<noteq> NULL then rq_head queue else thread);
            ts3 = ts2(thread := (ts2 thread)\<lparr>th_is_queued := 1, th_state := ZI_THREAD_READY\<rparr>);
            s1 = put_queue s priority \<lparr>rq_head = head, rq_tail = thread, rq_count = rq_count queue + 1\<rparr> in
        (ZI_STATUS_SUCCESS, s1\<lparr>sch_ready_bitmap := sch_ready_bitmap s1 OR push_bit (unat priority) 1\<rparr>, ts3))"

definition zi_scheduler_remove :: "ZxScheduler \<Rightarrow> addr \<Rightarrow> threads \<Rightarrow> ZiStatus \<times> ZxScheduler \<times> threads" where
  "zi_scheduler_remove s thread ts =
     (if thread = NULL \<or> th_priority (ts thread) \<ge> ZI_SCHEDULER_PRIORITY_COUNT \<or> th_is_queued (ts thread) = 0
      then (ZI_STATUS_INVALID_ARGUMENT, s, ts)
      else
        let priority = th_priority (ts thread);
            queue = sch_ready_queues s ! unat priority;
            previous = th_ready_previous (ts thread);
            next = th_ready_next (ts thread);
            ts1 = (if previous \<noteq> NULL then ts(previous := (ts previous)\<lparr>th_ready_next := next\<rparr>) else ts);
            head = (if previous \<noteq> NULL then rq_head queue else next);
            ts2 = (if next \<noteq> NULL then ts1(next := (ts1 next)\<lparr>th_ready_previous := previous\<rparr>) else ts1);
            tail = (if next \<noteq> NULL then rq_tail queue else previous);
            ts3 = ts2(thread := (ts2 thread)\<lparr>th_ready_previous := NULL, th_ready_next := NULL, th_is_queued := 0\<rparr>);
            count = rq_count queue - 1;
            s1 = put_queue s priority \<lparr>rq_head = head, rq_tail = tail, rq_count = count\<rparr> in
        (ZI_STATUS_SUCCESS,
         if count = 0 then s1\<lparr>sch_ready_bitmap := sch_ready_bitmap s1 AND NOT (push_bit (unat priority) 1)\<rparr> else s1,
         ts3))"

















section \<open>Priorities\<close>



text \<open>
  The common end of the two operations that move a thread to another priority: a queued thread is
  taken out of its queue and put into the queue of the new priority.
\<close>

definition change_priority :: "ZxScheduler \<Rightarrow> addr \<Rightarrow> u32 \<Rightarrow> threads \<Rightarrow> ZiStatus \<times> ZxScheduler \<times> threads" where
  "change_priority s thread target ts =
     (if th_is_queued (ts thread) \<noteq> 0 then
        (case zi_scheduler_remove s thread ts of
           (status, s1, ts1) \<Rightarrow>
             if ZiFailed status then (ZI_STATUS_INVALID_STATE, s1, ts1)
             else zi_scheduler_enqueue s1 thread (ts1(thread := (ts1 thread)\<lparr>th_priority := target\<rparr>)))
      else (ZI_STATUS_SUCCESS, s, ts(thread := (ts thread)\<lparr>th_priority := target\<rparr>)))"


definition zi_scheduler_restore_base_priority ::
  "ZxScheduler \<Rightarrow> addr \<Rightarrow> threads \<Rightarrow> ZiStatus \<times> ZxScheduler \<times> threads" where
  "zi_scheduler_restore_base_priority s thread ts =
     (if thread = NULL \<or> th_base_priority (ts thread) \<ge> ZI_SCHEDULER_PRIORITY_COUNT
      then (ZI_STATUS_INVALID_ARGUMENT, s, ts)
      else if th_priority (ts thread) = th_base_priority (ts thread) \<or>
              th_priority (ts thread) \<ge> ZI_SCHEDULER_REALTIME_PRIORITY_MIN
      then (ZI_STATUS_SUCCESS, s, ts)
      else change_priority s thread (th_base_priority (ts thread)) ts)"

section \<open>Ready queues as lists\<close>

text \<open>
  A list of threads is linked when each one points to its neighbours. The ready queues of a scheduler
  represent thirty-two lists: each queue holds exactly the threads queued at its priority, and its bit
  is set exactly when it is not empty.
\<close>

definition first_of :: "addr list \<Rightarrow> addr \<Rightarrow> addr" where
  "first_of xs n = (if xs = [] then n else hd xs)"

definition last_of :: "addr list \<Rightarrow> addr \<Rightarrow> addr" where
  "last_of xs p = (if xs = [] then p else last xs)"




lemma first_of_simps [simp]: "first_of [] n = n" "first_of (x # xs) n = x"
  by (simp_all add: first_of_def)

lemma last_of_simps [simp]: "last_of [] p = p" "last_of (xs @ [x]) p = x" "last_of (x # xs) p = last_of xs x"
  by (simp_all add: last_of_def)











section \<open>Queue operations refine list operations\<close>







section \<open>Selection of the next thread\<close>












lemma find_cong_pred: "(\<And>x. P x = Q x) \<Longrightarrow> find P xs = find Q xs"
  by (induction xs) auto



section \<open>A tick of the clock\<close>













section \<open>A sample scheduler\<close>








section \<open>Properties\<close>







end
