(* ===== verification/Zi_Inventory.thy ===== *)
theory Zi_Inventory
  imports Zi_Prelude "HOL-Library.Multiset"
begin

text \<open>
  The inventory of physical memory in \<^verbatim>\<open>kernel/mm/pmm/pmm.c\<close>: the boot memory map is copied, sorted by
  address and merged into disjoint ranges.

  Addresses and page counts are 64-bit words with the wrap-around of the source; array indexes are
  natural numbers. An inventory whose \<^verbatim>\<open>ranges\<close> pointer is \<^verbatim>\<open>NULL\<close> has no ranges, and an empty
  memory map stands for a \<^verbatim>\<open>NULL\<close> one, which the code treats alike. The storage the caller provides is
  sorted and merged in place, as in the source.
\<close>

unbundle bit_operations_syntax

abbreviation (input) ZI_MEMORY_PAGE_SIZE :: u64 where "ZI_MEMORY_PAGE_SIZE \<equiv> 4096"
abbreviation (input) ZI_MEMORY_PAGE_SHIFT :: nat where "ZI_MEMORY_PAGE_SHIFT \<equiv> 12"
abbreviation (input) ZI_MEMORY_OWNER_NONE :: u32 where "ZI_MEMORY_OWNER_NONE \<equiv> 0"
abbreviation (input) ZI_MEMORY_OWNER_FIRMWARE :: u32 where "ZI_MEMORY_OWNER_FIRMWARE \<equiv> 1"
abbreviation (input) ZI_MEMORY_OWNER_BOOTLOADER :: u32 where "ZI_MEMORY_OWNER_BOOTLOADER \<equiv> 2"
abbreviation (input) ZI_MEMORY_OWNER_KERNEL :: u32 where "ZI_MEMORY_OWNER_KERNEL \<equiv> 3"
abbreviation (input) ZI_MEMORY_OWNER_FRAMEBUFFER :: u32 where "ZI_MEMORY_OWNER_FRAMEBUFFER \<equiv> 5"
abbreviation (input) ZI_BOOT_MEMORY_USABLE :: u32 where "ZI_BOOT_MEMORY_USABLE \<equiv> 0"
abbreviation (input) ZI_BOOT_MEMORY_BOOT_RECLAIMABLE :: u32 where "ZI_BOOT_MEMORY_BOOT_RECLAIMABLE \<equiv> 5"
abbreviation (input) ZI_BOOT_MEMORY_KERNEL_AND_MODULES :: u32 where "ZI_BOOT_MEMORY_KERNEL_AND_MODULES \<equiv> 6"
abbreviation (input) ZI_BOOT_MEMORY_FRAMEBUFFER :: u32 where "ZI_BOOT_MEMORY_FRAMEBUFFER \<equiv> 7"
abbreviation (input) ZI_BOOT_MEMORY_RESERVED_MAPPED :: u32 where "ZI_BOOT_MEMORY_RESERVED_MAPPED \<equiv> 8"

record ZiBootMemoryRange =
  bmr_physical_base :: u64
  bmr_size :: u64
  bmr_type :: u32
  bmr_reserved :: u32

record ZiMemoryRange =
  mr_physical_base :: u64
  mr_page_count :: u64
  mr_type :: u32
  mr_owner :: u32

record ZiMemoryInventory =
  inv_ranges :: "ZiMemoryRange list"
  inv_range_count :: nat
  inv_range_capacity :: nat
  inv_maximum_physical_address :: u64
  inv_managed_page_count :: u64
  inv_initially_usable_page_count :: u64

record ZiMemoryInventoryTotals =
  tot_output_count :: nat
  tot_managed_pages :: u64
  tot_usable_pages :: u64
  tot_maximum_address :: u64

section \<open>The memory inventory\<close>

definition owner_for_boot_type :: "u32 \<Rightarrow> u32" where
  "owner_for_boot_type type =
     (if type = ZI_BOOT_MEMORY_USABLE then ZI_MEMORY_OWNER_NONE
      else if type = ZI_BOOT_MEMORY_BOOT_RECLAIMABLE then ZI_MEMORY_OWNER_BOOTLOADER
      else if type = ZI_BOOT_MEMORY_KERNEL_AND_MODULES then ZI_MEMORY_OWNER_KERNEL
      else if type = ZI_BOOT_MEMORY_FRAMEBUFFER then ZI_MEMORY_OWNER_FRAMEBUFFER
      else ZI_MEMORY_OWNER_FIRMWARE)"

fun copy_boot_ranges :: "ZiBootMemoryRange list \<Rightarrow> nat \<Rightarrow> ZiMemoryRange list \<Rightarrow> ZiStatus \<times> ZiMemoryRange list" where
  "copy_boot_ranges [] index storage = (ZI_STATUS_SUCCESS, storage)"
| "copy_boot_ranges (source # rest) index storage =
     (if bmr_size source = 0 \<or> bmr_type source > ZI_BOOT_MEMORY_RESERVED_MAPPED \<or>
         bmr_physical_base source AND (ZI_MEMORY_PAGE_SIZE - 1) \<noteq> 0 \<or>
         bmr_size source AND (ZI_MEMORY_PAGE_SIZE - 1) \<noteq> 0 \<or>
         bmr_physical_base source > UINT64_MAX - bmr_size source
      then (ZI_STATUS_INVALID_ARGUMENT, storage)
      else copy_boot_ranges rest (Suc index)
        (storage[index := \<lparr>mr_physical_base = bmr_physical_base source,
           mr_page_count = drop_bit ZI_MEMORY_PAGE_SHIFT (bmr_size source), mr_type = bmr_type source,
           mr_owner = owner_for_boot_type (bmr_type source)\<rparr>]))"

text \<open>Insertion sort in place: the inner loop shifts larger elements up, the outer loop takes each element in turn.\<close>

fun sort_shift :: "ZiMemoryRange list \<Rightarrow> nat \<Rightarrow> ZiMemoryRange \<Rightarrow> ZiMemoryRange list" where
  "sort_shift ranges 0 value' = ranges[0 := value']"
| "sort_shift ranges (Suc destination) value' =
     (if mr_physical_base (ranges ! destination) > mr_physical_base value'
      then sort_shift (ranges[Suc destination := ranges ! destination]) destination value'
      else ranges[Suc destination := value'])"

definition sort_ranges :: "ZiMemoryRange list \<Rightarrow> nat \<Rightarrow> ZiMemoryRange list" where
  "sort_ranges ranges count' = fold (\<lambda>index ranges. sort_shift ranges index (ranges ! index)) [1..<count'] ranges"

definition append_inventory_range ::
  "ZiMemoryRange list \<Rightarrow> ZiMemoryRange \<Rightarrow> nat \<Rightarrow> ZiStatus \<times> ZiMemoryRange list \<times> nat" where
  "append_inventory_range storage range' count' =
     (if count' = 0 then (ZI_STATUS_SUCCESS, storage[0 := range'], 1)
      else
        let previous = storage ! (count' - 1);
            previous_end = mr_physical_base previous + push_bit ZI_MEMORY_PAGE_SHIFT (mr_page_count previous) in
        if mr_physical_base range' < previous_end then (ZI_STATUS_ADDRESS_CONFLICT, storage, count')
        else if mr_physical_base range' = previous_end \<and> mr_type range' = mr_type previous then
          (if mr_page_count previous > UINT64_MAX - mr_page_count range'
           then (ZI_STATUS_OUT_OF_BOUNDS, storage, count')
           else (ZI_STATUS_SUCCESS,
                 storage[count' - 1 := previous\<lparr>mr_page_count := mr_page_count previous + mr_page_count range'\<rparr>], count'))
        else (ZI_STATUS_SUCCESS, storage[count' := range'], count' + 1))"

definition account_inventory_range :: "ZiMemoryRange \<Rightarrow> ZiMemoryInventoryTotals \<Rightarrow> ZiStatus \<times> ZiMemoryInventoryTotals" where
  "account_inventory_range range' totals =
     (if tot_managed_pages totals > UINT64_MAX - mr_page_count range' then (ZI_STATUS_OUT_OF_BOUNDS, totals)
      else
        let totals1 = totals\<lparr>tot_managed_pages := tot_managed_pages totals + mr_page_count range'\<rparr> in
        if mr_type range' = ZI_BOOT_MEMORY_USABLE \<and> tot_usable_pages totals1 > UINT64_MAX - mr_page_count range'
        then (ZI_STATUS_OUT_OF_BOUNDS, totals1)
        else
          let totals2 = (if mr_type range' = ZI_BOOT_MEMORY_USABLE
                         then totals1\<lparr>tot_usable_pages := tot_usable_pages totals1 + mr_page_count range'\<rparr> else totals1);
              range_end = mr_physical_base range' + push_bit ZI_MEMORY_PAGE_SHIFT (mr_page_count range') in
          (ZI_STATUS_SUCCESS,
           if range_end > tot_maximum_address totals2 then totals2\<lparr>tot_maximum_address := range_end\<rparr> else totals2))"

fun merge_loop ::
  "ZiMemoryRange list \<Rightarrow> nat \<Rightarrow> nat \<Rightarrow> ZiMemoryInventoryTotals \<Rightarrow> ZiStatus \<times> ZiMemoryRange list \<times> ZiMemoryInventoryTotals" where
  "merge_loop storage index 0 totals = (ZI_STATUS_SUCCESS, storage, totals)"
| "merge_loop storage index (Suc remaining) totals =
     (let range' = storage ! index in
      case append_inventory_range storage range' (tot_output_count totals) of
        (status, storage1, output_count) \<Rightarrow>
          case (if ZiSucceeded status then account_inventory_range range' (totals\<lparr>tot_output_count := output_count\<rparr>)
                else (status, totals\<lparr>tot_output_count := output_count\<rparr>)) of
            (status1, totals1) \<Rightarrow>
              if ZiFailed status1 then (status1, storage1, totals1)
              else merge_loop storage1 (Suc index) remaining totals1)"

definition merge_inventory_ranges ::
  "ZiMemoryRange list \<Rightarrow> nat \<Rightarrow> ZiStatus \<times> ZiMemoryRange list \<times> ZiMemoryInventoryTotals" where
  "merge_inventory_ranges storage count' =
     merge_loop storage 0 count'
       \<lparr>tot_output_count = 0, tot_managed_pages = 0, tot_usable_pages = 0, tot_maximum_address = 0\<rparr>"

definition zi_memory_inventory_build ::
  "ZiBootMemoryRange list \<Rightarrow> ZiMemoryRange list \<Rightarrow> ZiMemoryInventory result \<times> ZiMemoryRange list" where
  "zi_memory_inventory_build boot_ranges storage =
     (if boot_ranges = [] \<or> length storage < length boot_ranges then (Inl ZI_STATUS_INVALID_ARGUMENT, storage)
      else
        case copy_boot_ranges boot_ranges 0 storage of
          (status, storage1) \<Rightarrow>
            if ZiFailed status then (Inl status, storage1)
            else
              case merge_inventory_ranges (sort_ranges storage1 (length boot_ranges)) (length boot_ranges) of
                (status1, storage2, totals) \<Rightarrow>
                  if ZiFailed status1 then (Inl status1, storage2)
                  else
                    (Inr \<lparr>inv_ranges = storage2, inv_range_count = tot_output_count totals,
                          inv_range_capacity = length storage,
                          inv_maximum_physical_address = tot_maximum_address totals,
                          inv_managed_page_count = tot_managed_pages totals,
                          inv_initially_usable_page_count = tot_usable_pages totals\<rparr>, storage2))"

fun find_usable_loop :: "ZiMemoryRange list \<Rightarrow> u64 \<Rightarrow> u64 \<Rightarrow> u64 result" where
  "find_usable_loop [] page_count alignment = Inl ZI_STATUS_NO_MEMORY"
| "find_usable_loop (range' # ranges) page_count alignment =
     (let mask' = alignment - 1 in
      if mr_type range' \<noteq> ZI_BOOT_MEMORY_USABLE \<or> mr_physical_base range' > UINT64_MAX - mask'
      then find_usable_loop ranges page_count alignment
      else
        let candidate = (mr_physical_base range' + mask') AND NOT mask';
            range_end = mr_physical_base range' + push_bit ZI_MEMORY_PAGE_SHIFT (mr_page_count range') in
        if candidate \<le> range_end \<and> page_count \<le> (range_end - candidate) div ZI_MEMORY_PAGE_SIZE
        then Inr candidate
        else find_usable_loop ranges page_count alignment)"

definition zi_memory_inventory_find_usable :: "ZiMemoryInventory \<Rightarrow> u64 \<Rightarrow> u64 \<Rightarrow> u64 result" where
  "zi_memory_inventory_find_usable inventory page_count alignment_pages =
     (if inv_ranges inventory = [] \<or> page_count = 0 \<or> alignment_pages = 0 \<or>
         alignment_pages AND (alignment_pages - 1) \<noteq> 0 \<or> alignment_pages > UINT64_MAX div ZI_MEMORY_PAGE_SIZE
      then Inl ZI_STATUS_INVALID_ARGUMENT
      else find_usable_loop (take (inv_range_count inventory) (inv_ranges inventory)) page_count
             (alignment_pages * ZI_MEMORY_PAGE_SIZE))"

section \<open>Ranges as intervals of addresses\<close>

definition range_start :: "ZiMemoryRange \<Rightarrow> nat" where
  "range_start r = unat (mr_physical_base r)"

definition range_pages :: "ZiMemoryRange \<Rightarrow> nat" where
  "range_pages r = unat (mr_page_count r)"

definition range_end :: "ZiMemoryRange \<Rightarrow> nat" where
  "range_end r = range_start r + range_pages r * 4096"

definition range_ok :: "ZiMemoryRange \<Rightarrow> bool" where
  "range_ok r \<longleftrightarrow> 0 < range_pages r \<and> 4096 dvd range_start r \<and> range_end r < 2 ^ 64 \<and>
     mr_owner r = owner_for_boot_type (mr_type r)"

definition covered :: "ZiMemoryRange list \<Rightarrow> nat \<Rightarrow> u32 \<Rightarrow> bool" where
  "covered rs a t \<longleftrightarrow> (\<exists>r \<in> set rs. range_start r \<le> a \<and> a < range_end r \<and> mr_type r = t)"

definition before :: "ZiMemoryRange \<Rightarrow> ZiMemoryRange \<Rightarrow> bool" where
  "before r r' \<longleftrightarrow> range_end r \<le> range_start r'"

definition separate :: "ZiMemoryRange \<Rightarrow> ZiMemoryRange \<Rightarrow> bool" where
  "separate r r' \<longleftrightarrow> before r r' \<and> (range_end r = range_start r' \<longrightarrow> mr_type r \<noteq> mr_type r')"

definition live_ranges :: "ZiMemoryInventory \<Rightarrow> ZiMemoryRange list" where
  "live_ranges inventory = take (inv_range_count inventory) (inv_ranges inventory)"

definition total_pages :: "ZiMemoryRange list \<Rightarrow> nat" where
  "total_pages rs = sum_list (map range_pages rs)"

definition usable_pages :: "ZiMemoryRange list \<Rightarrow> nat" where
  "usable_pages rs = total_pages (filter (\<lambda>r. mr_type r = ZI_BOOT_MEMORY_USABLE) rs)"

definition inventory_ok :: "ZiMemoryInventory \<Rightarrow> bool" where
  "inventory_ok inventory \<longleftrightarrow>
     live_ranges inventory \<noteq> [] \<and> inv_range_count inventory \<le> length (inv_ranges inventory) \<and>
     (\<forall>r \<in> set (live_ranges inventory). range_ok r) \<and> sorted_wrt separate (live_ranges inventory) \<and>
     unat (inv_managed_page_count inventory) = total_pages (live_ranges inventory) \<and>
     unat (inv_initially_usable_page_count inventory) = usable_pages (live_ranges inventory) \<and>
     unat (inv_maximum_physical_address inventory) = range_end (last (live_ranges inventory))"

lemma range_ok_word:
  assumes "range_ok r"
  shows "unat (push_bit 12 (mr_page_count r)) = range_pages r * 4096"
    and "unat (mr_physical_base r + push_bit 12 (mr_page_count r)) = range_end r"
proof -
  have "unat (mr_page_count r) * 2 ^ 12 < 2 ^ LENGTH(64)"
    using assms by (simp add: range_ok_def range_end_def range_pages_def)
  then show p: "unat (push_bit 12 (mr_page_count r)) = range_pages r * 4096"
    by (simp add: unat_push_bit range_pages_def)
  show "unat (mr_physical_base r + push_bit 12 (mr_page_count r)) = range_end r"
    using assms by (subst unat_add_lem [THEN iffD1]) (simp_all add: p range_ok_def range_end_def range_start_def)
qed

lemma before_end: "range_ok r' \<Longrightarrow> before r r' \<Longrightarrow> range_end r < range_end r'"
  by (simp add: before_def range_ok_def range_end_def)

lemma sorted_before_last:
  assumes "sorted_wrt before rs" "\<forall>r \<in> set rs. range_ok r" "rs \<noteq> []"
  shows "\<forall>r \<in> set rs. range_end r \<le> range_end (last rs)"
  using assms by (induction rs rule: rev_induct) (auto simp: sorted_wrt_append dest: before_end)

lemma sorted_before_snoc:
  assumes "sorted_wrt before rs" "\<forall>r \<in> set rs. range_ok r"
  shows "sorted_wrt before (rs @ [r]) \<longleftrightarrow> rs = [] \<or> range_end (last rs) \<le> range_start r"
proof (cases "rs = []")
  case False
  then have "\<forall>x \<in> set rs. range_end x \<le> range_end (last rs)" using sorted_before_last [OF assms] by simp
  with False assms(1) show ?thesis
    by (auto simp: sorted_wrt_append before_def intro: le_trans)
qed simp

lemma total_pages_bound:
  assumes "sorted_wrt before rs" "\<forall>r \<in> set rs. range_ok r" "rs \<noteq> []"
  shows "total_pages rs * 4096 \<le> range_end (last rs)"
  using assms
proof (induction rs rule: rev_induct)
  case (snoc r rs)
  show ?case
  proof (cases "rs = []")
    case False
    with snoc have "total_pages rs * 4096 \<le> range_end (last rs)" by (simp add: sorted_wrt_append)
    moreover have "range_end (last rs) \<le> range_start r"
      using snoc.prems False by (simp add: sorted_wrt_append before_def)
    ultimately show ?thesis by (simp add: total_pages_def range_end_def)
  qed (simp add: total_pages_def range_end_def)
qed simp

lemma usable_pages_le: "usable_pages rs \<le> total_pages rs"
  by (induction rs) (auto simp: usable_pages_def total_pages_def)

section \<open>Sorting\<close>

lemma sort_shift_split:
  "\<exists>us ws. xs = us @ ws \<and> sort_shift (xs @ y # ys) (length xs) v = us @ v # ws @ ys \<and>
     (\<forall>w \<in> set ws. mr_physical_base v < mr_physical_base w) \<and> (us \<noteq> [] \<longrightarrow> mr_physical_base (last us) \<le> mr_physical_base v)"
proof (induction xs arbitrary: y ys rule: rev_induct)
  case (snoc x xs)
  show ?case
  proof (cases "mr_physical_base v < mr_physical_base x")
    case True
    obtain us ws where split: "xs = us @ ws" "sort_shift (xs @ x # x # ys) (length xs) v = us @ v # ws @ x # ys"
      "\<forall>w \<in> set ws. mr_physical_base v < mr_physical_base w" "us \<noteq> [] \<longrightarrow> mr_physical_base (last us) \<le> mr_physical_base v"
      using snoc.IH [of x "x # ys"] by blast
    with True show ?thesis
      by (intro exI [of _ us] exI [of _ "ws @ [x]"]) (simp add: nth_append list_update_append)
  next
    case False
    then show ?thesis by (intro exI [of _ "xs @ [x]"] exI [of _ "[]"]) (simp add: nth_append list_update_append)
  qed
qed simp

lemma sort_ranges_sorted:
  assumes "k \<le> length ranges" "0 < k"
  shows "\<exists>zs. sort_ranges ranges k = zs @ drop k ranges \<and> mset zs = mset (take k ranges) \<and>
    sorted (map mr_physical_base zs)"
  using assms(2,1)
proof (induction k rule: nat_induct_non_zero)
  case 1
  then show ?case by (cases ranges) (auto simp: sort_ranges_def)
next
  case (Suc k)
  then obtain zs where zs: "sort_ranges ranges k = zs @ drop k ranges" "mset zs = mset (take k ranges)"
      "sorted (map mr_physical_base zs)" by auto
  have len: "length zs = k" using zs(2) Suc.prems by (metis size_mset length_take min.absorb2 Suc_leD)
  have drop: "drop k ranges = ranges ! k # drop (Suc k) ranges" using Suc.prems by (simp add: Cons_nth_drop_Suc)
  let ?v = "ranges ! k"
  obtain us ws where split: "zs = us @ ws" "sort_shift (zs @ ?v # drop (Suc k) ranges) (length zs) ?v = us @ ?v # ws @ drop (Suc k) ranges"
    "\<forall>w \<in> set ws. mr_physical_base ?v < mr_physical_base w" "us \<noteq> [] \<longrightarrow> mr_physical_base (last us) \<le> mr_physical_base ?v"
    using sort_shift_split by blast
  have "sort_ranges ranges (Suc k) = us @ ?v # ws @ drop (Suc k) ranges"
    using Suc.hyps zs(1) split(2) len drop by (simp add: sort_ranges_def nth_append)
  moreover have "\<forall>u \<in> set us. mr_physical_base u \<le> mr_physical_base ?v"
    using zs(3) split(1,4) by (cases us rule: rev_cases) (auto simp: sorted_append)
  ultimately show ?case using zs split Suc.prems
    by (intro exI [of _ "us @ ?v # ws"]) (auto simp: sorted_append take_Suc_conv_app_nth less_imp_le)
qed


section \<open>Merging\<close>

text \<open>
  The ranges merged so far describe the same memory as the ranges read so far, and the totals are
  those of the ranges read.
\<close>

definition merged :: "ZiMemoryRange list \<Rightarrow> ZiMemoryRange list \<Rightarrow> bool" where
  "merged rs out \<longleftrightarrow>
     (\<forall>r \<in> set out. range_ok r) \<and> sorted_wrt separate out \<and> (\<forall>a t. covered out a t \<longleftrightarrow> covered rs a t) \<and>
     (out = [] \<longleftrightarrow> rs = []) \<and> (rs \<noteq> [] \<longrightarrow> range_end (last out) = range_end (last rs)) \<and>
     total_pages out = total_pages rs \<and> usable_pages out = usable_pages rs"

definition totals_ok :: "ZiMemoryRange list \<Rightarrow> ZiMemoryInventoryTotals \<Rightarrow> bool" where
  "totals_ok rs totals \<longleftrightarrow>
     unat (tot_managed_pages totals) = total_pages rs \<and> unat (tot_usable_pages totals) = usable_pages rs \<and>
     unat (tot_maximum_address totals) = (if rs = [] then 0 else range_end (last rs))"

definition merge_step :: "ZiMemoryRange list \<Rightarrow> ZiMemoryRange \<Rightarrow> ZiMemoryRange list" where
  "merge_step out r =
     (if out \<noteq> [] \<and> range_start r = range_end (last out) \<and> mr_type r = mr_type (last out)
      then butlast out @ [(last out)\<lparr>mr_page_count := mr_page_count (last out) + mr_page_count r\<rparr>]
      else out @ [r])"

lemma covered_append [simp]: "covered (rs @ rs') a t \<longleftrightarrow> covered rs a t \<or> covered rs' a t"
  by (auto simp: covered_def)

lemma total_pages_append [simp]: "total_pages (rs @ rs') = total_pages rs + total_pages rs'"
  by (simp add: total_pages_def)

lemma usable_pages_append [simp]: "usable_pages (rs @ rs') = usable_pages rs + usable_pages rs'"
  by (simp add: usable_pages_def)

lemma page_sum_bound:
  assumes "range_ok p" "range_ok r" "range_start r = range_end p"
  shows "range_pages p + range_pages r < 2 ^ 64"
  using assms unfolding range_ok_def range_end_def by linarith

lemma page_sum_word:
  assumes "range_ok p" "range_ok r" "range_start r = range_end p"
  shows "unat (mr_page_count p + mr_page_count r) = range_pages p + range_pages r"
  using page_sum_bound [OF assms] unat_u64_add unfolding range_pages_def by blast

lemma joined_range:
  assumes "range_ok p" "range_ok r" "range_start r = range_end p" "mr_type r = mr_type p"
  defines "j \<equiv> p\<lparr>mr_page_count := mr_page_count p + mr_page_count r\<rparr>"
  shows "range_ok j" "range_start j = range_start p" "range_end j = range_end r" "mr_type j = mr_type p"
    "range_pages j = range_pages p + range_pages r"
  using page_sum_word [OF assms(1-3)] assms(1-4)
  by (simp_all add: j_def range_ok_def range_end_def range_start_def range_pages_def algebra_simps)

lemma merge_step_merged:
  assumes m: "merged rs out" and r: "range_ok r" and next': "rs = [] \<or> range_end (last rs) \<le> range_start r"
  shows "merged (rs @ [r]) (merge_step out r)"
proof (cases "out \<noteq> [] \<and> range_start r = range_end (last out) \<and> mr_type r = mr_type (last out)")
  case True
  then obtain us p where out: "out = us @ [p]" by (cases out rule: rev_cases) auto
  define j where "j = p\<lparr>mr_page_count := mr_page_count p + mr_page_count r\<rparr>"
  have j: "range_ok j" "range_start j = range_start p" "range_end j = range_end r" "mr_type j = mr_type p"
    "range_pages j = range_pages p + range_pages r"
    using joined_range [of p r] True m r unfolding j_def out merged_def by simp_all
  have step: "merge_step (us @ [p]) r = us @ [j]" using True by (simp add: merge_step_def out j_def)
  have ends: "range_end p = range_start r" "mr_type r = mr_type p" using True by (simp_all add: out)
  have "covered [j] a t \<longleftrightarrow> covered [p] a t \<or> covered [r] a t" for a t
    using j ends by (auto simp: covered_def range_end_def)
  moreover have "\<forall>u \<in> set us. separate u j" using m j by (auto simp: merged_def out sorted_wrt_append separate_def before_def)
  moreover have "total_pages [j] = total_pages [p] + total_pages [r]" "usable_pages [j] = usable_pages [p] + usable_pages [r]"
    using j ends by (simp_all add: total_pages_def usable_pages_def)
  ultimately show ?thesis using m j unfolding merged_def out step by (simp add: sorted_wrt_append) blast
next
  case False
  have sep: "\<forall>u \<in> set out. separate u r"
  proof (cases out rule: rev_cases)
    case (snoc us p)
    have end': "range_end p \<le> range_start r" using m next' snoc by (auto simp: merged_def)
    have "range_ok p" using m snoc by (simp add: merged_def)
    moreover have "\<forall>u \<in> set us. before u p" using m snoc by (simp add: merged_def sorted_wrt_append separate_def)
    ultimately have "\<forall>u \<in> set us. range_end u < range_start r" using before_end [of p] end' by fastforce
    with False snoc end' show ?thesis by (auto simp: separate_def before_def)
  qed simp
  have step: "merge_step out r = out @ [r]" using False by (auto simp: merge_step_def)
  from m r sep show ?thesis unfolding merged_def step by (simp add: sorted_wrt_append)
qed

lemma append_inventory_range_step:
  assumes m: "merged rs out" and r: "range_ok r" and out: "take k storage = out" "k = length out" "k < length storage"
  shows "append_inventory_range storage r k =
    (if rs = [] \<or> range_end (last rs) \<le> range_start r
     then (ZI_STATUS_SUCCESS, merge_step out r @ drop (length (merge_step out r)) storage, length (merge_step out r))
     else (ZI_STATUS_ADDRESS_CONFLICT, storage, k))"
proof (cases "out = []")
  case True
  then have "rs = []" using m unfolding merged_def by blast
  moreover have "storage[0 := r] = r # drop 1 storage" using out(3) by (cases storage) simp_all
  ultimately show ?thesis using True out(2) by (simp add: append_inventory_range_def merge_step_def)
next
  case False
  then obtain us p where p: "out = us @ [p]" by (cases out rule: rev_cases) auto
  have k: "k = Suc (length us)" using out p by simp
  obtain y ys where d: "drop k storage = y # ys" using out(3) by (cases "drop k storage") auto
  have st: "storage = us @ p # y # ys" using append_take_drop_id [of k storage] unfolding out(1) p d by simp
  have okp: "range_ok p" using m p by (simp add: merged_def)
  note end' = range_ok_word(2) [OF okp]
  have last': "rs \<noteq> []" "range_end (last rs) = range_end p" using m p by (auto simp: merged_def)
  have less: "mr_physical_base r < mr_physical_base p + push_bit 12 (mr_page_count p) \<longleftrightarrow> range_start r < range_end p"
    and eq: "mr_physical_base r = mr_physical_base p + push_bit 12 (mr_page_count p) \<longleftrightarrow> range_start r = range_end p"
    unfolding word_less_nat_alt word_unat_eq_iff end' range_start_def by (rule refl)+
  have fits: "\<not> UINT64_MAX - mr_page_count r < mr_page_count p" if "range_start r = range_end p"
    using page_sum_bound [OF okp r that] unfolding u64_sum_overflows range_pages_def by linarith
  have upd: "storage ! (k - 1) = p" "storage[k - 1 := x] = us @ x # y # ys" "storage[k := x] = us @ p # x # ys" for x
    by (simp_all add: st k nth_append list_update_append)
  have app: "append_inventory_range storage r k =
    (if range_start r < range_end p then (ZI_STATUS_ADDRESS_CONFLICT, storage, k)
     else if range_start r = range_end p \<and> mr_type r = mr_type p
     then (ZI_STATUS_SUCCESS, us @ p\<lparr>mr_page_count := mr_page_count p + mr_page_count r\<rparr> # y # ys, k)
     else (ZI_STATUS_SUCCESS, us @ p # r # ys, k + 1))"
    using k fits unfolding append_inventory_range_def Let_def upd less eq by simp
  show ?thesis
  proof (cases "range_start r = range_end p \<and> mr_type r = mr_type p")
    case True
    then have "merge_step out r = us @ [p\<lparr>mr_page_count := mr_page_count p + mr_page_count r\<rparr>]"
      by (simp add: merge_step_def p)
    with True last' d show ?thesis unfolding app by (simp add: k)
  next
    case False
    then have "merge_step out r = us @ [p, r]" by (simp add: merge_step_def p)
    moreover have "drop (Suc k) storage = ys" by (simp add: st k)
    ultimately show ?thesis using False last' unfolding app by (simp add: k)
  qed
qed

lemma account_inventory_range_step:
  assumes rs: "sorted_wrt before (rs @ [r])" "\<forall>x \<in> set (rs @ [r]). range_ok x" and t: "totals_ok rs totals"
  shows "\<exists>totals'. account_inventory_range r totals = (ZI_STATUS_SUCCESS, totals') \<and> totals_ok (rs @ [r]) totals' \<and>
    tot_output_count totals' = tot_output_count totals"
proof -
  have r: "range_ok r" using rs(2) by simp
  have bound: "total_pages rs + range_pages r < 2 ^ 64"
    using total_pages_bound [OF rs] r by (simp add: range_ok_def total_pages_def)
  then have usable: "usable_pages rs + range_pages r < 2 ^ 64" using usable_pages_le [of rs] by linarith
  have max: "tot_maximum_address totals < mr_physical_base r + push_bit 12 (mr_page_count r)"
    using t rs before_end [OF r] r unfolding totals_ok_def word_less_nat_alt range_ok_word(2) [OF r]
    by (auto simp: sorted_wrt_append range_ok_def range_end_def)
  have sums: "unat (tot_managed_pages totals + mr_page_count r) = total_pages rs + range_pages r"
    "unat (tot_usable_pages totals + mr_page_count r) = usable_pages rs + range_pages r"
    using t bound usable by (simp_all add: unat_u64_add totals_ok_def range_pages_def)
  have fits: "\<not> UINT64_MAX - mr_page_count r < tot_managed_pages totals" "\<not> UINT64_MAX - mr_page_count r < tot_usable_pages totals"
    using t bound usable unfolding u64_sum_overflows totals_ok_def range_pages_def by linarith+
  show ?thesis
    using t fits max sums range_ok_word(2) [OF r]
    by (simp add: account_inventory_range_def Let_def totals_ok_def total_pages_def usable_pages_def)
qed

lemma merge_loop_correct:
  assumes "merged rs out" "totals_ok rs totals" "sorted_wrt before rs" "\<forall>r \<in> set (rs @ rest). range_ok r"
    and "take (tot_output_count totals) storage = out" "tot_output_count totals = length out" "length out \<le> length rs"
    and "drop (length rs) storage = rest @ spare"
  shows "if sorted_wrt before (rs @ rest)
    then \<exists>storage' totals'. merge_loop storage (length rs) (length rest) totals = (ZI_STATUS_SUCCESS, storage', totals') \<and>
      merged (rs @ rest) (take (tot_output_count totals') storage') \<and> totals_ok (rs @ rest) totals' \<and>
      length storage' = length storage \<and> tot_output_count totals' \<le> length storage
    else fst (merge_loop storage (length rs) (length rest) totals) = ZI_STATUS_ADDRESS_CONFLICT"
  using assms
proof (induction rest arbitrary: rs out totals storage)
  case Nil
  from Nil.prems(5,6) have "length out \<le> length storage" by (metis length_take min.cobounded1)
  with Nil show ?case by simp
next
  case (Cons r rest)
  note p = Cons.prems
  have len: "length rs < length storage" using p(8) by (metis drop_eq_Nil append_is_Nil_conv list.distinct(1) not_le)
  have nth: "storage ! length rs = r" using p(8) len by (metis append_Cons hd_drop_conv_nth list.sel(1))
  have r: "range_ok r" using p(4) by simp
  have k: "length out < length storage" using p(7) len by simp
  have snoc: "sorted_wrt before (rs @ [r]) \<longleftrightarrow> rs = [] \<or> range_end (last rs) \<le> range_start r"
    using p(3,4) by (intro sorted_before_snoc) auto
  have app: "append_inventory_range storage r (tot_output_count totals) =
    (if sorted_wrt before (rs @ [r])
     then (ZI_STATUS_SUCCESS, merge_step out r @ drop (length (merge_step out r)) storage, length (merge_step out r))
     else (ZI_STATUS_ADDRESS_CONFLICT, storage, length out))"
    unfolding snoc using append_inventory_range_step [OF p(1) r, of "length out" storage] p(5,6) k by simp
  show ?case
  proof (cases "sorted_wrt before (rs @ [r])")
    case False
    then have "\<not> sorted_wrt before (rs @ r # rest)" by (auto simp: sorted_wrt_append)
    with False show ?thesis by (simp add: nth app)
  next
    case True
    let ?out = "merge_step out r"
    let ?storage = "?out @ drop (length ?out) storage" and ?totals = "totals\<lparr>tot_output_count := length ?out\<rparr>"
    have "totals_ok rs ?totals" using p(2) by (simp add: totals_ok_def)
    then obtain totals' where acc: "account_inventory_range r ?totals = (ZI_STATUS_SUCCESS, totals')"
      "totals_ok (rs @ [r]) totals'" "tot_output_count totals' = length ?out"
      using account_inventory_range_step [OF True] p(4) by fastforce
    have step: "merge_loop storage (length rs) (length (r # rest)) totals =
        merge_loop ?storage (length (rs @ [r])) (length rest) totals'"
      using True acc(1) by (simp add: nth app)
    have size: "length ?out \<le> length (rs @ [r])" using p(7) by (auto simp: merge_step_def)
    have merged': "merged (rs @ [r]) ?out" using merge_step_merged [OF p(1) r] True snoc by blast
    define storage1 where "storage1 = ?storage"
    have take1: "take (length ?out) storage1 = ?out" by (simp add: storage1_def)
    have length1: "length storage1 = length storage" using size len by (simp add: storage1_def)
    have "drop (length (rs @ [r])) storage1 = drop (length (rs @ [r])) storage" using size by (simp add: storage1_def)
    also have "\<dots> = drop 1 (drop (length rs) storage)" by simp
    finally have drop1: "drop (length (rs @ [r])) storage1 = rest @ spare" by (simp add: p(8))
    have ok: "\<forall>x \<in> set ((rs @ [r]) @ rest). range_ok x" using p(4) by simp
    note IH = Cons.IH [OF merged' acc(2) True ok _ acc(3) size drop1, unfolded acc(3), OF take1]
    show ?thesis unfolding step storage1_def [symmetric] using IH unfolding length1 append.assoc append.simps .
  qed
qed

section \<open>The boot memory map\<close>

definition boot_valid :: "ZiBootMemoryRange \<Rightarrow> bool" where
  "boot_valid b \<longleftrightarrow> 0 < unat (bmr_size b) \<and> bmr_type b \<le> ZI_BOOT_MEMORY_RESERVED_MAPPED \<and>
     4096 dvd unat (bmr_physical_base b) \<and> 4096 dvd unat (bmr_size b) \<and>
     unat (bmr_physical_base b) + unat (bmr_size b) < 2 ^ 64"

definition boot_disjoint :: "ZiBootMemoryRange \<Rightarrow> ZiBootMemoryRange \<Rightarrow> bool" where
  "boot_disjoint b b' \<longleftrightarrow>
     unat (bmr_physical_base b) + unat (bmr_size b) \<le> unat (bmr_physical_base b') \<or>
     unat (bmr_physical_base b') + unat (bmr_size b') \<le> unat (bmr_physical_base b)"

definition boot_covered :: "ZiBootMemoryRange list \<Rightarrow> nat \<Rightarrow> u32 \<Rightarrow> bool" where
  "boot_covered bs a t \<longleftrightarrow>
     (\<exists>b \<in> set bs. unat (bmr_physical_base b) \<le> a \<and> a < unat (bmr_physical_base b) + unat (bmr_size b) \<and> bmr_type b = t)"

definition convert_boot :: "ZiBootMemoryRange \<Rightarrow> ZiMemoryRange" where
  "convert_boot b = \<lparr>mr_physical_base = bmr_physical_base b, mr_page_count = drop_bit 12 (bmr_size b),
     mr_type = bmr_type b, mr_owner = owner_for_boot_type (bmr_type b)\<rparr>"

lemma page_aligned_iff: "w AND 0xfff = 0 \<longleftrightarrow> 4096 dvd unat w" for w :: u64
proof -
  have "unat (w AND 0xfff) = unat w mod 4096" using unat_and_mask [of w 12] by (simp add: mask_eq_exp_minus_1)
  then show ?thesis by (metis dvd_eq_mod_eq_0 unat_eq_0)
qed

lemma boot_valid_iff:
  "boot_valid b \<longleftrightarrow> \<not> (bmr_size b = 0 \<or> bmr_type b > ZI_BOOT_MEMORY_RESERVED_MAPPED \<or>
     bmr_physical_base b AND 0xfff \<noteq> 0 \<or> bmr_size b AND 0xfff \<noteq> 0 \<or> bmr_physical_base b > UINT64_MAX - bmr_size b)"
  unfolding boot_valid_def page_aligned_iff u64_sum_overflows by (auto simp: unat_gt_0)

lemma convert_boot_ok:
  assumes "boot_valid b"
  shows "range_ok (convert_boot b)" "range_start (convert_boot b) = unat (bmr_physical_base b)"
    "range_end (convert_boot b) = unat (bmr_physical_base b) + unat (bmr_size b)" "mr_type (convert_boot b) = bmr_type b"
proof -
  have "4096 dvd unat (bmr_size b)" using assms by (simp add: boot_valid_def)
  then have "unat (bmr_size b) div 4096 * 4096 = unat (bmr_size b)" "0 < unat (bmr_size b) div 4096"
    using assms by (simp_all add: boot_valid_def div_greater_zero_iff dvd_imp_le)
  then show "range_ok (convert_boot b)" "range_start (convert_boot b) = unat (bmr_physical_base b)"
    "range_end (convert_boot b) = unat (bmr_physical_base b) + unat (bmr_size b)" "mr_type (convert_boot b) = bmr_type b"
    using assms by (auto simp: range_ok_def range_end_def range_start_def range_pages_def convert_boot_def boot_valid_def
        unat_drop_bit)
qed

lemma copy_boot_ranges_eq:
  "i + length bs \<le> length storage \<Longrightarrow>
   (if \<forall>b \<in> set bs. boot_valid b
    then copy_boot_ranges bs i storage =
      (ZI_STATUS_SUCCESS, take i storage @ map convert_boot bs @ drop (i + length bs) storage)
    else fst (copy_boot_ranges bs i storage) = ZI_STATUS_INVALID_ARGUMENT)"
proof (induction bs arbitrary: i storage)
  case (Cons b bs)
  have "copy_boot_ranges (b # bs) i storage =
    (if boot_valid b then copy_boot_ranges bs (Suc i) (storage[i := convert_boot b]) else (ZI_STATUS_INVALID_ARGUMENT, storage))"
    using boot_valid_iff [of b] by (simp add: convert_boot_def)
  with Cons.IH [of "Suc i" "storage[i := convert_boot b]"] Cons.prems show ?case
    by (auto simp: take_Suc_conv_app_nth split: if_splits)
qed simp

lemma sorted_wrt_mset:
  assumes "\<And>x y. R x y \<longleftrightarrow> R y x" "mset xs = mset ys"
  shows "sorted_wrt R xs \<longleftrightarrow> sorted_wrt R ys"
  using assms(2)
proof (induction xs arbitrary: ys)
  case (Cons x xs)
  then have "x \<in> set ys" by (metis list.set_intros(1) set_mset_mset)
  then obtain us vs where ys: "ys = us @ x # vs" by (metis split_list)
  with Cons.prems have "mset xs = mset (us @ vs)" by simp
  with Cons.IH have "sorted_wrt R xs \<longleftrightarrow> sorted_wrt R (us @ vs)" "set xs = set us \<union> set vs"
    by (blast, metis set_append set_mset_mset)
  then show ?case using assms(1) by (auto simp: ys sorted_wrt_append)
qed simp


lemma sorted_disjoint_before:
  assumes "sorted (map mr_physical_base rs)" "\<forall>r \<in> set rs. range_ok r"
  shows "sorted_wrt (\<lambda>r r'. before r r' \<or> before r' r) rs \<longleftrightarrow> sorted_wrt before rs"
  using assms
proof (induction rs)
  case (Cons r rs)
  have "before r r' \<or> before r' r \<longleftrightarrow> before r r'" if "r' \<in> set rs" for r'
  proof -
    have "range_start r \<le> range_start r'" using Cons.prems(1) that by (simp add: range_start_def word_le_nat_alt)
    moreover have "range_start r' < range_end r'" using Cons.prems(2) that by (simp add: range_ok_def range_end_def)
    ultimately show ?thesis by (auto simp: before_def)
  qed
  with Cons show ?case by simp
qed simp

section \<open>The inventory describes the boot memory map\<close>

lemma inventory_sorted_copy:
  assumes "bs \<noteq> []" "length bs \<le> length storage" "\<forall>b \<in> set bs. boot_valid b"
  obtains zs where "sort_ranges (take 0 storage @ map convert_boot bs @ drop (0 + length bs) storage) (length bs) =
      zs @ drop (length bs) storage"
    "length zs = length bs" "\<forall>r \<in> set zs. range_ok r" "sorted_wrt before zs \<longleftrightarrow> sorted_wrt boot_disjoint bs"
    "\<And>a t. covered zs a t \<longleftrightarrow> boot_covered bs a t"
proof -
  let ?st = "map convert_boot bs @ drop (length bs) storage"
  have "length bs \<le> length ?st" "0 < length bs" using assms by simp_all
  from sort_ranges_sorted [OF this] obtain zs where zs: "sort_ranges ?st (length bs) = zs @ drop (length bs) storage"
    "mset zs = mset (map convert_boot bs)" "sorted (map mr_physical_base zs)" by auto
  have set': "set zs = convert_boot ` set bs" using zs(2) by (metis set_map set_mset_mset)
  have len: "length zs = length bs" using zs(2) by (metis length_map size_mset)
  have ok: "\<forall>r \<in> set zs. range_ok r" using assms(3) convert_boot_ok(1) by (auto simp: set')
  have "sorted_wrt before zs \<longleftrightarrow> sorted_wrt (\<lambda>r r'. before r r' \<or> before r' r) zs"
    using sorted_disjoint_before [OF zs(3) ok] by blast
  also have "\<dots> \<longleftrightarrow> sorted_wrt (\<lambda>r r'. before r r' \<or> before r' r) (map convert_boot bs)"
    by (rule sorted_wrt_mset [OF _ zs(2)]) blast
  also have "\<dots> \<longleftrightarrow> sorted_wrt (\<lambda>b b'. before (convert_boot b) (convert_boot b') \<or> before (convert_boot b') (convert_boot b)) bs"
    by (simp add: sorted_wrt_map)
  also have "\<dots> \<longleftrightarrow> sorted_wrt boot_disjoint bs"
  proof -
    have "(before (convert_boot b) (convert_boot b') \<or> before (convert_boot b') (convert_boot b)) = boot_disjoint b b'"
      if "b \<in> set bs" "b' \<in> set bs" for b b'
      using that assms(3) by (simp add: before_def boot_disjoint_def convert_boot_ok)
    then show ?thesis using sorted_wrt_mono_rel [of bs] by (metis (no_types, lifting))
  qed
  finally have "sorted_wrt before zs \<longleftrightarrow> sorted_wrt boot_disjoint bs" .
  moreover have "covered zs a t \<longleftrightarrow> boot_covered bs a t" for a t
    using assms(3) by (auto simp: covered_def boot_covered_def set' convert_boot_ok)
  ultimately show ?thesis using zs(1) by (intro that [OF _ len ok]) simp_all
qed

section \<open>Properties\<close>

text \<open>
  C31: the inventory describes exactly the boot memory map. Building it succeeds exactly when every boot
  range is valid and no two overlap; then the ranges are page aligned, sorted, disjoint and maximal (two
  adjacent ranges differ in type), each address has the type the memory map gives it, and the page totals and
  the highest address are those of the ranges. An invalid range is refused as an invalid argument and
  an overlap as an address conflict.
\<close>

theorem zi_memory_inventory_build_correct:
  assumes "bs \<noteq> []" "length bs \<le> length storage"
  shows "case fst (zi_memory_inventory_build bs storage) of
      Inr inventory \<Rightarrow>
        (\<forall>b \<in> set bs. boot_valid b) \<and> sorted_wrt boot_disjoint bs \<and> inventory_ok inventory \<and>
        (\<forall>a t. covered (live_ranges inventory) a t \<longleftrightarrow> boot_covered bs a t)
    | Inl status \<Rightarrow>
        if \<forall>b \<in> set bs. boot_valid b
        then status = ZI_STATUS_ADDRESS_CONFLICT \<and> \<not> sorted_wrt boot_disjoint bs
        else status = ZI_STATUS_INVALID_ARGUMENT"
proof (cases "\<forall>b \<in> set bs. boot_valid b")
  case False
  then have "fst (copy_boot_ranges bs 0 storage) = ZI_STATUS_INVALID_ARGUMENT"
    using copy_boot_ranges_eq [of 0 bs storage] assms(2) by simp
  with assms False show ?thesis
    by (cases "copy_boot_ranges bs 0 storage") (simp add: zi_memory_inventory_build_def)
next
  case True
  let ?copy = "take 0 storage @ map convert_boot bs @ drop (0 + length bs) storage"
  have copy: "copy_boot_ranges bs 0 storage = (ZI_STATUS_SUCCESS, ?copy)"
    using copy_boot_ranges_eq [of 0 bs storage] assms(2) True by simp
  obtain zs where zs: "sort_ranges ?copy (length bs) = zs @ drop (length bs) storage"
    "length zs = length bs" "\<forall>r \<in> set zs. range_ok r" "sorted_wrt before zs \<longleftrightarrow> sorted_wrt boot_disjoint bs"
    "\<And>a t. covered zs a t \<longleftrightarrow> boot_covered bs a t"
    using inventory_sorted_copy [OF assms True] by blast
  let ?storage = "zs @ drop (length bs) storage"
  let ?zero = "\<lparr>tot_output_count = 0, tot_managed_pages = 0, tot_usable_pages = 0, tot_maximum_address = 0\<rparr>"
  have build: "zi_memory_inventory_build bs storage =
      (case merge_loop ?storage 0 (length bs) ?zero of
         (status1, storage2, totals) \<Rightarrow>
           if ZiFailed status1 then (Inl status1, storage2)
           else (Inr \<lparr>inv_ranges = storage2, inv_range_count = tot_output_count totals,
                   inv_range_capacity = length storage, inv_maximum_physical_address = tot_maximum_address totals,
                   inv_managed_page_count = tot_managed_pages totals,
                   inv_initially_usable_page_count = tot_usable_pages totals\<rparr>, storage2))"
    using assms unfolding zi_memory_inventory_build_def copy merge_inventory_ranges_def prod.case zs(1) by simp
  have "merged [] []" "totals_ok [] ?zero"
    by (simp_all add: merged_def totals_ok_def total_pages_def usable_pages_def)
  note loop = merge_loop_correct [OF this, of zs ?storage "drop (length bs) storage", simplified, OF zs(3), unfolded zs(2)]
  show ?thesis
  proof (cases "sorted_wrt before zs")
    case sorted: True
    from loop sorted obtain storage' totals' where
      result: "merge_loop ?storage 0 (length bs) ?zero = (ZI_STATUS_SUCCESS, storage', totals')"
      and m: "merged zs (take (tot_output_count totals') storage')" and t: "totals_ok zs totals'"
      and len: "length storage' = length ?storage" "tot_output_count totals' \<le> length ?storage" by auto
    have ne: "zs \<noteq> []" using zs(2) assms(1) by auto
    have "inventory_ok \<lparr>inv_ranges = storage', inv_range_count = tot_output_count totals',
        inv_range_capacity = length storage, inv_maximum_physical_address = tot_maximum_address totals',
        inv_managed_page_count = tot_managed_pages totals', inv_initially_usable_page_count = tot_usable_pages totals'\<rparr>"
      using m t len ne unfolding inventory_ok_def live_ranges_def merged_def totals_ok_def by auto
    moreover have "covered (take (tot_output_count totals') storage') a t \<longleftrightarrow> boot_covered bs a t" for a t
      using m zs(5) unfolding merged_def by blast
    ultimately show ?thesis using True sorted zs(4) unfolding build result by (simp add: live_ranges_def)
  next
    case unsorted: False
    with loop have "fst (merge_loop ?storage 0 (length bs) ?zero) = ZI_STATUS_ADDRESS_CONFLICT" by simp
    then show ?thesis using True unsorted zs(4) unfolding build
      by (cases "merge_loop ?storage 0 (length bs) ?zero") simp
  qed
qed


theorem zi_memory_inventory_build_correct_witness:
  "case fst (zi_memory_inventory_build
       [\<lparr>bmr_physical_base = 0x3000, bmr_size = 0x2000, bmr_type = ZI_BOOT_MEMORY_USABLE, bmr_reserved = 0\<rparr>,
        \<lparr>bmr_physical_base = 0x1000, bmr_size = 0x2000, bmr_type = ZI_BOOT_MEMORY_USABLE, bmr_reserved = 0\<rparr>]
       (replicate 4 \<lparr>mr_physical_base = 0, mr_page_count = 0, mr_type = 0, mr_owner = 0\<rparr>)) of
     Inr inventory \<Rightarrow> inventory_ok inventory \<and> covered (live_ranges inventory) 0x2abc ZI_BOOT_MEMORY_USABLE
   | Inl status \<Rightarrow> False"
proof -
  let ?a = "\<lparr>bmr_physical_base = 0x3000, bmr_size = 0x2000, bmr_type = ZI_BOOT_MEMORY_USABLE, bmr_reserved = 0\<rparr>"
  let ?b = "\<lparr>bmr_physical_base = 0x1000, bmr_size = 0x2000, bmr_type = ZI_BOOT_MEMORY_USABLE, bmr_reserved = 0\<rparr>"
  let ?st = "replicate 4 \<lparr>mr_physical_base = 0, mr_page_count = 0, mr_type = 0, mr_owner = 0\<rparr>"
  have "boot_valid ?a" "boot_valid ?b" "sorted_wrt boot_disjoint [?a, ?b]" "boot_covered [?a, ?b] 0x2abc ZI_BOOT_MEMORY_USABLE"
    by (simp_all add: boot_valid_def boot_disjoint_def boot_covered_def)
  with zi_memory_inventory_build_correct [of "[?a, ?b]" ?st] show ?thesis
    by (cases "fst (zi_memory_inventory_build [?a, ?b] ?st)") auto
qed

text \<open>
  A run of pages that fits a usable range at an aligned address.
\<close>

definition usable_run :: "ZiMemoryRange \<Rightarrow> nat \<Rightarrow> nat \<Rightarrow> nat \<Rightarrow> bool" where
  "usable_run r alignment pages c \<longleftrightarrow>
     mr_type r = ZI_BOOT_MEMORY_USABLE \<and> alignment dvd c \<and> range_start r \<le> c \<and> c + pages * 4096 \<le> range_end r"

lemma align_up_fits:
  fixes s :: nat
  assumes "(s + (2 ^ k - 1)) div 2 ^ k * 2 ^ k < 2 ^ n" "k < n"
  shows "s + (2 ^ k - 1) < 2 ^ n"
proof -
  have "(2 :: nat) ^ n = 2 ^ (n - k) * 2 ^ k" using assms(2) by (simp add: power_add [symmetric])
  with assms(1) show ?thesis by (simp add: div_less_iff_less_mult)
qed

lemma find_usable_loop_correct:
  assumes "\<forall>r \<in> set rs. range_ok r" "k < 64"
  shows "case find_usable_loop rs page_count (2 ^ k) of
      Inr c \<Rightarrow> \<exists>r \<in> set rs. usable_run r (2 ^ k) (unat page_count) (unat c)
    | Inl status \<Rightarrow> status = ZI_STATUS_NO_MEMORY \<and> (\<forall>r \<in> set rs. \<forall>c. \<not> usable_run r (2 ^ k) (unat page_count) c)"
  using assms(1)
proof (induction rs)
  case (Cons r rs)
  have r: "range_ok r" using Cons.prems by simp
  define up where "up = (range_start r + (2 ^ k - 1)) div 2 ^ k * 2 ^ k"
  have "(0 :: nat) < 2 ^ k" by simp
  note up = align_up_least [OF this, where s = "range_start r", folded up_def]
  have mask': "unat (2 ^ k - 1 :: u64) = 2 ^ k - 1"
    using unat_minus_one [of "2 ^ k :: u64"] unat_power_of_two [of k, where 'a = 64] assms(2) by auto
  define step where "step \<longleftrightarrow> mr_type r = ZI_BOOT_MEMORY_USABLE \<and> range_start r + (2 ^ k - 1) < 2 ^ 64 \<and>
    up + unat page_count * 4096 \<le> range_end r"
  define candidate :: u64 where "candidate = (mr_physical_base r + (2 ^ k - 1)) AND NOT (2 ^ k - 1)"
  have cand: "unat candidate = up" if "range_start r + (2 ^ k - 1) < 2 ^ 64"
    using unat_align_up [of "mr_physical_base r" k] that assms(2) by (simp add: candidate_def up_def range_start_def)
  have over: "UINT64_MAX - (2 ^ k - 1) < mr_physical_base r \<longleftrightarrow> \<not> range_start r + (2 ^ k - 1) < 2 ^ 64"
    unfolding u64_sum_overflows mask' range_start_def by linarith
  let ?stop = "mr_physical_base r + push_bit 12 (mr_page_count r)"
  have fit: "candidate \<le> ?stop \<and> page_count \<le> (?stop - candidate) div 4096 \<longleftrightarrow> up + unat page_count * 4096 \<le> range_end r"
    if "range_start r + (2 ^ k - 1) < 2 ^ 64"
  proof (cases "candidate \<le> ?stop")
    case True
    then have le: "up \<le> range_end r" by (simp only: word_le_nat_alt cand [OF that] range_ok_word(2) [OF r])
    have "unat (?stop - candidate) = range_end r - up" using True by (simp add: unat_sub cand [OF that] range_ok_word(2) [OF r])
    then have "page_count \<le> (?stop - candidate) div 4096 \<longleftrightarrow> unat page_count \<le> (range_end r - up) div 4096"
      by (simp add: word_le_nat_alt unat_div_distrib)
    also have "\<dots> \<longleftrightarrow> unat page_count * 4096 \<le> range_end r - up" by (rule less_eq_div_iff_mult_less_eq) simp
    also have "\<dots> \<longleftrightarrow> up + unat page_count * 4096 \<le> range_end r" using le by linarith
    finally show ?thesis using True by blast
  next
    case False
    then have "range_end r < up" by (simp only: word_le_nat_alt cand [OF that] range_ok_word(2) [OF r] not_le)
    with False show ?thesis by linarith
  qed
  have loop: "find_usable_loop (r # rs) page_count (2 ^ k) =
      (if step then Inr candidate else find_usable_loop rs page_count (2 ^ k))"
    using fit over unfolding step_def candidate_def by (auto simp: Let_def)
  show ?case
  proof (cases step)
    case True
    then have "usable_run r (2 ^ k) (unat page_count) (unat candidate)"
      using up cand by (simp add: step_def usable_run_def)
    with True show ?thesis unfolding loop by simp
  next
    case False
    have "\<not> usable_run r (2 ^ k) (unat page_count) c" for c
    proof
      assume run: "usable_run r (2 ^ k) (unat page_count) c"
      then have "up \<le> c" "c < 2 ^ 64" using up(3) [of c] r by (simp_all add: usable_run_def range_ok_def)
      then have "up < 2 ^ 64" "up + unat page_count * 4096 \<le> range_end r" using run by (simp_all add: usable_run_def)
      moreover have "range_start r + (2 ^ k - 1) < 2 ^ 64"
        using align_up_fits [OF \<open>up < 2 ^ 64\<close> [unfolded up_def]] assms(2) by simp
      ultimately show False using False run by (simp add: step_def usable_run_def)
    qed
    with False Cons show ?thesis unfolding loop by (auto split: sum.splits)
  qed
qed simp

text \<open>
  C32: the early search for memory is sound and complete. For a power-of-two alignment it returns an
  address that is aligned and from which the requested pages lie in usable memory of one range, or it reports
  no memory, and then no usable range has room for such a run.
\<close>

theorem zi_memory_inventory_find_usable_correct:
  assumes "inventory_ok inventory" "page_count \<noteq> 0" "k < 52"
  shows "case zi_memory_inventory_find_usable inventory page_count (2 ^ k) of
      Inr c \<Rightarrow> \<exists>r \<in> set (live_ranges inventory). usable_run r (2 ^ k * 4096) (unat page_count) (unat c)
    | Inl status \<Rightarrow> status = ZI_STATUS_NO_MEMORY \<and>
        (\<forall>r \<in> set (live_ranges inventory). \<forall>c. \<not> usable_run r (2 ^ k * 4096) (unat page_count) c)"
proof -
  have pow: "unat (2 ^ k :: u64) = 2 ^ k" using assms(3) by (intro unat_power_of_two) simp
  have "(2 :: nat) ^ k \<le> 2 ^ 51" using assms(3) by (intro power_increasing) auto
  then have "\<not> (UINT64_MAX div 4096 :: u64) < 2 ^ k" by (simp add: word_less_nat_alt pow)
  moreover have "(2 ^ k :: u64) \<noteq> 0" using pow by (metis power_not_zero unat_0 zero_neq_numeral)
  moreover have "(2 ^ k :: u64) AND (2 ^ k - 1) = 0"
    by (simp flip: mask_eq_exp_minus_1) (auto intro!: bit_eqI simp: bit_simps)
  moreover have "inv_ranges inventory \<noteq> []" using assms(1) by (auto simp: inventory_ok_def live_ranges_def)
  ultimately have find': "zi_memory_inventory_find_usable inventory page_count (2 ^ k) =
      find_usable_loop (live_ranges inventory) page_count (2 ^ k * 4096)"
    using assms(2) unfolding zi_memory_inventory_find_usable_def live_ranges_def by simp
  have pow': "2 ^ k * 4096 = (2 ^ (k + 12) :: u64)" "2 ^ k * 4096 = (2 ^ (k + 12) :: nat)" by (simp_all add: power_add)
  have "\<forall>r \<in> set (live_ranges inventory). range_ok r" "k + 12 < 64" using assms by (simp_all add: inventory_ok_def)
  then show ?thesis unfolding find' pow' by (rule find_usable_loop_correct)
qed

theorem zi_memory_inventory_find_usable_correct_witness:
  "let inventory = \<lparr>inv_ranges = [\<lparr>mr_physical_base = 0x1000, mr_page_count = 8, mr_type = ZI_BOOT_MEMORY_USABLE, mr_owner = 0\<rparr>],
       inv_range_count = 1, inv_range_capacity = 1, inv_maximum_physical_address = 0x9000, inv_managed_page_count = 8,
       inv_initially_usable_page_count = 8\<rparr> in
   \<exists>c. zi_memory_inventory_find_usable inventory 2 (2 ^ 2) = Inr c \<and>
     (\<exists>r \<in> set (live_ranges inventory). usable_run r (2 ^ 2 * 4096) 2 (unat c))"
proof -
  let ?inv = "\<lparr>inv_ranges = [\<lparr>mr_physical_base = 0x1000, mr_page_count = 8, mr_type = ZI_BOOT_MEMORY_USABLE, mr_owner = 0\<rparr>],
       inv_range_count = 1, inv_range_capacity = 1, inv_maximum_physical_address = 0x9000, inv_managed_page_count = 8,
       inv_initially_usable_page_count = 8\<rparr>"
  have ok: "inventory_ok ?inv" and run: "\<exists>r \<in> set (live_ranges ?inv). usable_run r (2 ^ 2 * 4096) 2 0x4000"
    by (simp_all add: inventory_ok_def live_ranges_def range_ok_def range_start_def range_end_def range_pages_def
        total_pages_def usable_pages_def owner_for_boot_type_def usable_run_def)
  from zi_memory_inventory_find_usable_correct [OF ok, of 2 2] run show ?thesis
    by (cases "zi_memory_inventory_find_usable ?inv 2 (2 ^ 2)") (auto simp: Let_def)
qed

end
