(* ===== verification/Zi_Pmm.thy ===== *)
theory Zi_Pmm
  imports Zi_Inventory
begin

text \<open>
  The physical memory manager of \<^verbatim>\<open>kernel/mm/pmm/pmm.c\<close>: the page metadata that records the state and
  owner of every managed page, with the operations that reserve, allocate and free runs of pages.

  A manager whose \<^verbatim>\<open>pages\<close> pointer is \<^verbatim>\<open>NULL\<close> has no pages. The scan for an aligned free run adds the
  alignment to its offset until it leaves the range, and a wrap-around could keep it going: it is a
  partial function, and \<^term>\<open>None\<close> stands for a call that does not return.
\<close>

unbundle bit_operations_syntax

abbreviation (input) ZI_MEMORY_PAGE_FREE :: byte where "ZI_MEMORY_PAGE_FREE \<equiv> 1"
abbreviation (input) ZI_MEMORY_PAGE_RESERVED :: byte where "ZI_MEMORY_PAGE_RESERVED \<equiv> 2"
abbreviation (input) ZI_MEMORY_PAGE_ALLOCATED :: byte where "ZI_MEMORY_PAGE_ALLOCATED \<equiv> 3"
abbreviation (input) ZI_MEMORY_OWNER_ALLOCATOR_METADATA :: u32 where "ZI_MEMORY_OWNER_ALLOCATOR_METADATA \<equiv> 6"
abbreviation (input) ZI_MEMORY_OWNER_TEST :: u32 where "ZI_MEMORY_OWNER_TEST \<equiv> 11"
abbreviation (input) ZI_MEMORY_OWNER_ZERO_GUARD :: u32 where "ZI_MEMORY_OWNER_ZERO_GUARD \<equiv> 12"
abbreviation (input) ZI_MEMORY_OWNER_PROCESS_IMAGE :: u32 where "ZI_MEMORY_OWNER_PROCESS_IMAGE \<equiv> 13"
abbreviation (input) ZI_MEMORY_OWNER_DMA :: u32 where "ZI_MEMORY_OWNER_DMA \<equiv> 16"

record ZiPhysicalPageMetadata =
  pg_state :: byte
  pg_owner :: byte

record ZiPhysicalMemoryStatistics =
  st_managed_pages :: u64
  st_free_pages :: u64
  st_reserved_pages :: u64
  st_allocated_pages :: u64

record ZiPhysicalMemoryManager =
  pmm_inventory :: ZiMemoryInventory
  pmm_pages :: "ZiPhysicalPageMetadata list"
  pmm_metadata_page_count :: u64
  pmm_statistics :: ZiPhysicalMemoryStatistics

record ZiPmmAllocationRequest =
  req_page_count :: u64
  req_alignment_pages :: u64
  req_maximum_physical_address :: u64
  req_owner :: u32

section \<open>Page metadata\<close>

definition zi_pmm_metadata_size :: "u64 \<Rightarrow> nat result" where
  "zi_pmm_metadata_size page_count =
     (if page_count = 0 \<or> page_count > UINT64_MAX div 2 then Inl ZI_STATUS_INVALID_ARGUMENT
      else Inr (unat page_count * 2))"

text \<open>The loops over a run of pages: one that checks every page and one that changes every page.\<close>

fun page_run_all :: "ZiPhysicalPageMetadata list \<Rightarrow> u64 \<Rightarrow> nat \<Rightarrow> (ZiPhysicalPageMetadata \<Rightarrow> bool) \<Rightarrow> bool" where
  "page_run_all pages first_page 0 P \<longleftrightarrow> True"
| "page_run_all pages first_page (Suc remaining) P \<longleftrightarrow>
     P (pages ! unat first_page) \<and> page_run_all pages (first_page + 1) remaining P"

fun page_run_update ::
  "ZiPhysicalPageMetadata list \<Rightarrow> u64 \<Rightarrow> nat \<Rightarrow> (ZiPhysicalPageMetadata \<Rightarrow> ZiPhysicalPageMetadata) \<Rightarrow> ZiPhysicalPageMetadata list" where
  "page_run_update pages first_page 0 f = pages"
| "page_run_update pages first_page (Suc remaining) f =
     page_run_update (pages[unat first_page := f (pages ! unat first_page)]) (first_page + 1) remaining f"

definition run_is_free :: "ZiPhysicalMemoryManager \<Rightarrow> u64 \<Rightarrow> u64 \<Rightarrow> bool" where
  "run_is_free manager first_page page_count \<longleftrightarrow>
     page_run_all (pmm_pages manager) first_page (unat page_count) (\<lambda>page. pg_state page = ZI_MEMORY_PAGE_FREE)"

definition allocation_owner_is_valid :: "u32 \<Rightarrow> bool" where
  "allocation_owner_is_valid owner \<longleftrightarrow>
     (owner \<ge> ZI_MEMORY_OWNER_ALLOCATOR_METADATA \<and> owner \<le> ZI_MEMORY_OWNER_TEST) \<or>
     (owner \<ge> ZI_MEMORY_OWNER_PROCESS_IMAGE \<and> owner \<le> ZI_MEMORY_OWNER_DMA)"

definition reservation_owner_is_valid :: "u32 \<Rightarrow> bool" where
  "reservation_owner_is_valid owner \<longleftrightarrow> allocation_owner_is_valid owner \<or> owner = ZI_MEMORY_OWNER_ZERO_GUARD"

definition range_metadata_start :: "ZiMemoryInventory \<Rightarrow> nat \<Rightarrow> u64" where
  "range_metadata_start inventory range_index =
     fold (\<lambda>range' metadata_start. metadata_start + mr_page_count range') (take range_index (inv_ranges inventory)) 0"

fun locate_interval_loop :: "ZiMemoryInventory \<Rightarrow> nat \<Rightarrow> nat \<Rightarrow> u64 \<Rightarrow> u64 \<Rightarrow> u64 result" where
  "locate_interval_loop inventory index 0 physical_base size' = Inl ZI_STATUS_OUT_OF_BOUNDS"
| "locate_interval_loop inventory index (Suc remaining) physical_base size' =
     (let range' = inv_ranges inventory ! index;
          range_size = push_bit ZI_MEMORY_PAGE_SHIFT (mr_page_count range') in
      if physical_base \<ge> mr_physical_base range' \<and> physical_base - mr_physical_base range' \<le> range_size \<and>
         size' \<le> range_size - (physical_base - mr_physical_base range')
      then Inr (range_metadata_start inventory index + drop_bit ZI_MEMORY_PAGE_SHIFT (physical_base - mr_physical_base range'))
      else locate_interval_loop inventory (Suc index) remaining physical_base size')"

definition locate_page_interval :: "ZiPhysicalMemoryManager \<Rightarrow> u64 \<Rightarrow> u64 \<Rightarrow> u64 result" where
  "locate_page_interval manager physical_base page_count =
     (if page_count = 0 \<or> physical_base AND (ZI_MEMORY_PAGE_SIZE - 1) \<noteq> 0 \<or>
         page_count > UINT64_MAX div ZI_MEMORY_PAGE_SIZE
      then Inl ZI_STATUS_INVALID_ARGUMENT
      else
        let size' = page_count * ZI_MEMORY_PAGE_SIZE in
        if physical_base > UINT64_MAX - size' then Inl ZI_STATUS_OUT_OF_BOUNDS
        else locate_interval_loop (pmm_inventory manager) 0 (inv_range_count (pmm_inventory manager)) physical_base size')"

fun locate_page_loop :: "ZiMemoryInventory \<Rightarrow> nat \<Rightarrow> nat \<Rightarrow> u64 \<Rightarrow> u64 result" where
  "locate_page_loop inventory index 0 physical_address = Inl ZI_STATUS_OUT_OF_BOUNDS"
| "locate_page_loop inventory index (Suc remaining) physical_address =
     (let range' = inv_ranges inventory ! index;
          range_size = push_bit ZI_MEMORY_PAGE_SHIFT (mr_page_count range') in
      if physical_address \<ge> mr_physical_base range' \<and> physical_address - mr_physical_base range' < range_size
      then Inr (range_metadata_start inventory index + drop_bit ZI_MEMORY_PAGE_SHIFT (physical_address - mr_physical_base range'))
      else locate_page_loop inventory (Suc index) remaining physical_address)"

definition locate_page :: "ZiPhysicalMemoryManager \<Rightarrow> u64 \<Rightarrow> u64 result" where
  "locate_page manager physical_address =
     locate_page_loop (pmm_inventory manager) 0 (inv_range_count (pmm_inventory manager)) physical_address"

section \<open>Operations of the manager\<close>

definition initialise_range ::
  "ZiMemoryRange \<Rightarrow> ZiPhysicalPageMetadata list \<times> ZiPhysicalMemoryStatistics \<times> u64 \<Rightarrow>
   ZiPhysicalPageMetadata list \<times> ZiPhysicalMemoryStatistics \<times> u64" where
  "initialise_range range' = (\<lambda>(pages, statistics, metadata_index).
     let usable = (mr_type range' = ZI_BOOT_MEMORY_USABLE);
         state = (if usable then ZI_MEMORY_PAGE_FREE else ZI_MEMORY_PAGE_RESERVED);
         owner = (if usable then ucast ZI_MEMORY_OWNER_NONE else ucast (mr_owner range'));
         statistics1 = (if usable
                        then statistics\<lparr>st_free_pages := st_free_pages statistics + mr_page_count range'\<rparr>
                        else statistics\<lparr>st_reserved_pages := st_reserved_pages statistics + mr_page_count range'\<rparr>) in
     (page_run_update pages metadata_index (unat (mr_page_count range')) (\<lambda>page. page\<lparr>pg_state := state, pg_owner := owner\<rparr>),
      statistics1\<lparr>st_managed_pages := st_managed_pages statistics1 + mr_page_count range'\<rparr>,
      metadata_index + mr_page_count range'))"

definition zi_pmm_initialise :: "ZiMemoryInventory \<Rightarrow> bytes option \<Rightarrow> ZiPhysicalMemoryManager result" where
  "zi_pmm_initialise inventory metadata_storage =
     (case metadata_storage of
        None \<Rightarrow> Inl ZI_STATUS_INVALID_ARGUMENT
      | Some storage \<Rightarrow>
          if inv_ranges inventory = [] \<or> inv_range_count inventory = 0 \<or> inv_managed_page_count inventory = 0
          then Inl ZI_STATUS_INVALID_ARGUMENT
          else
            case zi_pmm_metadata_size (inv_managed_page_count inventory) of
              Inl status \<Rightarrow> Inl status
            | Inr required_size \<Rightarrow>
                if length storage < required_size then Inl ZI_STATUS_BUFFER_TOO_SMALL
                else
                  case fold initialise_range (take (inv_range_count inventory) (inv_ranges inventory))
                         (replicate (unat (inv_managed_page_count inventory)) \<lparr>pg_state = 0, pg_owner = 0\<rparr>,
                          \<lparr>st_managed_pages = 0, st_free_pages = 0, st_reserved_pages = 0, st_allocated_pages = 0\<rparr>, 0) of
                    (pages, statistics, _) \<Rightarrow>
                      Inr \<lparr>pmm_inventory = inventory, pmm_pages = pages,
                           pmm_metadata_page_count = inv_managed_page_count inventory, pmm_statistics = statistics\<rparr>)"

definition zi_pmm_reserve :: "ZiPhysicalMemoryManager \<Rightarrow> u64 \<Rightarrow> u64 \<Rightarrow> u32 \<Rightarrow> ZiStatus \<times> ZiPhysicalMemoryManager" where
  "zi_pmm_reserve manager physical_base page_count owner =
     (if pmm_pages manager = [] \<or> \<not> reservation_owner_is_valid owner then (ZI_STATUS_INVALID_ARGUMENT, manager)
      else
        case locate_page_interval manager physical_base page_count of
          Inl status \<Rightarrow> (status, manager)
        | Inr first_page \<Rightarrow>
            if \<not> run_is_free manager first_page page_count then (ZI_STATUS_RESOURCE_IN_USE, manager)
            else
              (ZI_STATUS_SUCCESS,
               manager\<lparr>pmm_pages := page_run_update (pmm_pages manager) first_page (unat page_count)
                         (\<lambda>page. page\<lparr>pg_state := ZI_MEMORY_PAGE_RESERVED, pg_owner := ucast owner\<rparr>),
                       pmm_statistics := (pmm_statistics manager)
                         \<lparr>st_free_pages := st_free_pages (pmm_statistics manager) - page_count,
                          st_reserved_pages := st_reserved_pages (pmm_statistics manager) + page_count\<rparr>\<rparr>))"

definition zi_pmm_reassign_reserved ::
  "ZiPhysicalMemoryManager \<Rightarrow> u64 \<Rightarrow> u64 \<Rightarrow> u32 \<Rightarrow> u32 \<Rightarrow> ZiStatus \<times> ZiPhysicalMemoryManager" where
  "zi_pmm_reassign_reserved manager physical_base page_count expected_owner new_owner =
     (if pmm_pages manager = [] \<or> expected_owner = ZI_MEMORY_OWNER_NONE \<or> expected_owner > ZI_MEMORY_OWNER_TEST \<or>
         new_owner = ZI_MEMORY_OWNER_NONE \<or> new_owner > ZI_MEMORY_OWNER_TEST
      then (ZI_STATUS_INVALID_ARGUMENT, manager)
      else
        case locate_page_interval manager physical_base page_count of
          Inl status \<Rightarrow> (status, manager)
        | Inr first_page \<Rightarrow>
            if \<not> page_run_all (pmm_pages manager) first_page (unat page_count)
                   (\<lambda>page. pg_state page = ZI_MEMORY_PAGE_RESERVED \<and> ucast (pg_owner page) = expected_owner)
            then (ZI_STATUS_INVALID_STATE, manager)
            else
              (ZI_STATUS_SUCCESS,
               manager\<lparr>pmm_pages := page_run_update (pmm_pages manager) first_page (unat page_count)
                         (\<lambda>page. page\<lparr>pg_owner := ucast new_owner\<rparr>)\<rparr>))"

text \<open>The scan of one range; \<open>Inl\<close> is a failing status and \<open>Inr\<close> the base address with the changed manager.\<close>

partial_function (option) allocate_scan ::
  "ZiPhysicalMemoryManager \<Rightarrow> ZiMemoryRange \<Rightarrow> u64 \<Rightarrow> ZiPmmAllocationRequest \<Rightarrow> u64 \<Rightarrow> u64 \<Rightarrow>
   (u64 \<times> ZiPhysicalMemoryManager) result option" where
  "allocate_scan manager range' metadata_start request candidate_offset candidate_physical_page =
     (if candidate_offset < mr_page_count range' \<and> req_page_count request \<le> mr_page_count range' - candidate_offset then
        let candidate_metadata = metadata_start + candidate_offset;
            candidate_base = push_bit ZI_MEMORY_PAGE_SHIFT candidate_physical_page;
            allocation_size = push_bit ZI_MEMORY_PAGE_SHIFT (req_page_count request) in
        if candidate_base > req_maximum_physical_address request \<or>
           allocation_size - 1 > req_maximum_physical_address request - candidate_base
        then Some (Inl ZI_STATUS_NOT_FOUND)
        else if run_is_free manager candidate_metadata (req_page_count request) then
          Some (Inr (push_bit ZI_MEMORY_PAGE_SHIFT candidate_physical_page,
            manager\<lparr>pmm_pages := page_run_update (pmm_pages manager) candidate_metadata (unat (req_page_count request))
                      (\<lambda>page. page\<lparr>pg_state := ZI_MEMORY_PAGE_ALLOCATED, pg_owner := ucast (req_owner request)\<rparr>),
                    pmm_statistics := (pmm_statistics manager)
                      \<lparr>st_free_pages := st_free_pages (pmm_statistics manager) - req_page_count request,
                       st_allocated_pages := st_allocated_pages (pmm_statistics manager) + req_page_count request\<rparr>\<rparr>))
        else allocate_scan manager range' metadata_start request
               (candidate_offset + req_alignment_pages request) (candidate_physical_page + req_alignment_pages request)
      else Some (Inl ZI_STATUS_NOT_FOUND))"

declare allocate_scan.simps [code]

definition allocate_from_range ::
  "ZiPhysicalMemoryManager \<Rightarrow> ZiMemoryRange \<Rightarrow> u64 \<Rightarrow> ZiPmmAllocationRequest \<Rightarrow>
   (u64 \<times> ZiPhysicalMemoryManager) result option" where
  "allocate_from_range manager range' metadata_start request =
     (if mr_type range' \<noteq> ZI_BOOT_MEMORY_USABLE \<or> req_page_count request > mr_page_count range'
      then Some (Inl ZI_STATUS_NOT_FOUND)
      else
        let first_physical_page = drop_bit ZI_MEMORY_PAGE_SHIFT (mr_physical_base range');
            mask' = req_alignment_pages request - 1 in
        if first_physical_page > UINT64_MAX - mask' then Some (Inl ZI_STATUS_NOT_FOUND)
        else
          let candidate_physical_page = (first_physical_page + mask') AND NOT mask' in
          allocate_scan manager range' metadata_start request
            (candidate_physical_page - first_physical_page) candidate_physical_page)"

fun allocate_loop ::
  "ZiPhysicalMemoryManager \<Rightarrow> ZiMemoryRange list \<Rightarrow> u64 \<Rightarrow> ZiPmmAllocationRequest \<Rightarrow>
   (u64 \<times> ZiPhysicalMemoryManager) result option" where
  "allocate_loop manager [] metadata_start request = Some (Inl ZI_STATUS_NO_MEMORY)"
| "allocate_loop manager (range' # ranges) metadata_start request =
     (case allocate_from_range manager range' metadata_start request of
        None \<Rightarrow> None
      | Some (Inr result) \<Rightarrow> Some (Inr result)
      | Some (Inl status) \<Rightarrow>
          if status \<noteq> ZI_STATUS_NOT_FOUND then Some (Inl status)
          else allocate_loop manager ranges (metadata_start + mr_page_count range') request)"

definition zi_pmm_allocate_below ::
  "ZiPhysicalMemoryManager \<Rightarrow> u64 \<Rightarrow> u64 \<Rightarrow> u64 \<Rightarrow> u32 \<Rightarrow> (u64 \<times> ZiPhysicalMemoryManager) result option" where
  "zi_pmm_allocate_below manager page_count alignment_pages maximum_physical_address owner =
     (if pmm_pages manager = [] \<or> page_count = 0 \<or> alignment_pages = 0 \<or>
         alignment_pages AND (alignment_pages - 1) \<noteq> 0 \<or> \<not> allocation_owner_is_valid owner \<or>
         maximum_physical_address < ZI_MEMORY_PAGE_SIZE - 1
      then Some (Inl ZI_STATUS_INVALID_ARGUMENT)
      else if page_count > st_free_pages (pmm_statistics manager) \<or> page_count > pmm_metadata_page_count manager
      then Some (Inl ZI_STATUS_NO_MEMORY)
      else allocate_loop manager (take (inv_range_count (pmm_inventory manager)) (inv_ranges (pmm_inventory manager))) 0
             \<lparr>req_page_count = page_count, req_alignment_pages = alignment_pages,
              req_maximum_physical_address = maximum_physical_address, req_owner = owner\<rparr>)"

definition zi_pmm_allocate ::
  "ZiPhysicalMemoryManager \<Rightarrow> u64 \<Rightarrow> u64 \<Rightarrow> u32 \<Rightarrow> (u64 \<times> ZiPhysicalMemoryManager) result option" where
  "zi_pmm_allocate manager page_count alignment_pages owner =
     zi_pmm_allocate_below manager page_count alignment_pages UINT64_MAX owner"

definition zi_pmm_free :: "ZiPhysicalMemoryManager \<Rightarrow> u64 \<Rightarrow> u64 \<Rightarrow> u32 \<Rightarrow> ZiStatus \<times> ZiPhysicalMemoryManager" where
  "zi_pmm_free manager physical_base page_count expected_owner =
     (if pmm_pages manager = [] \<or> \<not> allocation_owner_is_valid expected_owner then (ZI_STATUS_INVALID_ARGUMENT, manager)
      else
        case locate_page_interval manager physical_base page_count of
          Inl status \<Rightarrow> (status, manager)
        | Inr first_page \<Rightarrow>
            if \<not> page_run_all (pmm_pages manager) first_page (unat page_count)
                   (\<lambda>page. pg_state page = ZI_MEMORY_PAGE_ALLOCATED \<and> ucast (pg_owner page) = expected_owner)
            then (ZI_STATUS_INVALID_STATE, manager)
            else
              (ZI_STATUS_SUCCESS,
               manager\<lparr>pmm_pages := page_run_update (pmm_pages manager) first_page (unat page_count)
                         (\<lambda>page. page\<lparr>pg_state := ZI_MEMORY_PAGE_FREE, pg_owner := ucast ZI_MEMORY_OWNER_NONE\<rparr>),
                       pmm_statistics := (pmm_statistics manager)
                         \<lparr>st_allocated_pages := st_allocated_pages (pmm_statistics manager) - page_count,
                          st_free_pages := st_free_pages (pmm_statistics manager) + page_count\<rparr>\<rparr>))"

definition zi_pmm_query :: "ZiPhysicalMemoryManager \<Rightarrow> u64 \<Rightarrow> ZiPhysicalPageMetadata result" where
  "zi_pmm_query manager physical_address =
     (if pmm_pages manager = [] then Inl ZI_STATUS_INVALID_ARGUMENT
      else
        case locate_page manager physical_address of
          Inl status \<Rightarrow> Inl status
        | Inr metadata_index \<Rightarrow> Inr (pmm_pages manager ! unat metadata_index))"

definition zi_pmm_statistics :: "ZiPhysicalMemoryManager option \<Rightarrow> ZiPhysicalMemoryStatistics" where
  "zi_pmm_statistics manager =
     (case manager of
        None \<Rightarrow> \<lparr>st_managed_pages = 0, st_free_pages = 0, st_reserved_pages = 0, st_allocated_pages = 0\<rparr>
      | Some m \<Rightarrow> pmm_statistics m)"


section \<open>Runs of pages\<close>

lemma page_run_slices:
  fixes first_page :: u64
  assumes "unat first_page + n \<le> length pages" "length pages < 2 ^ 64"
  shows "(page_run_all pages first_page n P \<longleftrightarrow> (\<forall>p \<in> set (take n (drop (unat first_page) pages)). P p)) \<and>
    page_run_update pages first_page n f =
      take (unat first_page) pages @ map f (take n (drop (unat first_page) pages)) @ drop (unat first_page + n) pages"
  using assms
proof (induction n arbitrary: first_page pages)
  case (Suc n)
  let ?i = "unat first_page"
  let ?pages = "pages[?i := f (pages ! ?i)]"
  have i: "?i < length pages" using Suc.prems by simp
  have next': "unat (first_page + 1) = Suc ?i" using Suc.prems by (subst unat_u64_add) simp_all
  have head: "drop ?i pages = pages ! ?i # drop (Suc ?i) pages" using i by (rule Cons_nth_drop_Suc [symmetric])
  have "page_run_update ?pages (first_page + 1) n f =
    take (Suc ?i) ?pages @ map f (take n (drop (Suc ?i) ?pages)) @ drop (Suc ?i + n) ?pages"
    using Suc.prems Suc.IH [of "first_page + 1" ?pages] by (simp add: next')
  also have "\<dots> = take ?i pages @ map f (take (Suc n) (drop ?i pages)) @ drop (?i + Suc n) pages"
    using i by (simp add: take_Suc_conv_app_nth head)
  finally show ?case using Suc.prems Suc.IH [of "first_page + 1" pages] by (simp add: next' head)
qed simp

lemmas page_run_slice = page_run_slices [THEN conjunct1] page_run_slices [THEN conjunct2]

definition state_count :: "byte \<Rightarrow> ZiPhysicalPageMetadata list \<Rightarrow> nat" where
  "state_count state pages = length (filter (\<lambda>p. pg_state p = state) pages)"

lemma state_count_append [simp]: "state_count s (xs @ ys) = state_count s xs + state_count s ys"
  by (simp add: state_count_def)

lemma state_count_uniform:
  assumes "\<forall>p \<in> set xs. pg_state p = s"
  shows "state_count s' xs = (if s' = s then length xs else 0)"
  using assms by (induction xs) (auto simp: state_count_def)

lemma state_count_le: "state_count s xs \<le> length xs"
  by (simp add: state_count_def)

text \<open>What a change of a uniform run does to the number of pages in each state.\<close>

lemma state_count_update:
  assumes "i + n \<le> length pages" "\<forall>p \<in> set (take n (drop i pages)). pg_state p = old \<and> pg_state (f p) = new"
  defines "pages' \<equiv> take i pages @ map f (take n (drop i pages)) @ drop (i + n) pages"
  shows "state_count s pages' + (if s = old then n else 0) = state_count s pages + (if s = new then n else 0)"
proof -
  have len: "length (take n (drop i pages)) = n" using assms(1) by simp
  have split: "pages = take i pages @ take n (drop i pages) @ drop (i + n) pages"
    by (metis append_take_drop_id drop_drop add.commute)
  have old: "\<forall>p \<in> set (take n (drop i pages)). pg_state p = old"
    and new: "\<forall>p \<in> set (map f (take n (drop i pages))). pg_state p = new" using assms(2) by auto
  have "state_count s pages = state_count s (take i pages) + (if s = old then n else 0) + state_count s (drop (i + n) pages)"
    using arg_cong [OF split, of "state_count s"] state_count_uniform [OF old, of s] len by simp
  moreover have "state_count s pages' = state_count s (take i pages) + (if s = new then n else 0) + state_count s (drop (i + n) pages)"
    using state_count_uniform [OF new, of s] assms(1) by (simp add: pages'_def)
  ultimately show ?thesis by simp
qed

section \<open>Frames\<close>

text \<open>
  The page metadata lists the frames of the ranges one range after the other. A run of metadata entries
  that lies in one range describes consecutive frames.
\<close>

definition range_frames :: "ZiMemoryRange \<Rightarrow> nat list" where
  "range_frames r = map (\<lambda>k. range_start r div 4096 + k) [0..<range_pages r]"

definition frames :: "ZiMemoryRange list \<Rightarrow> nat list" where
  "frames rs = concat (map range_frames rs)"

definition run_at :: "nat list \<Rightarrow> nat \<Rightarrow> nat \<Rightarrow> nat \<Rightarrow> bool" where
  "run_at fs i f n \<longleftrightarrow> i + n \<le> length fs \<and> take n (drop i fs) = [f..<f + n]"

lemma frames_simps [simp]: "frames [] = []" "frames (r # rs) = range_frames r @ frames rs" "frames (rs @ rs') = frames rs @ frames rs'"
  by (simp_all add: frames_def)

lemma length_frames: "length (frames rs) = total_pages rs"
  by (induction rs) (simp_all add: total_pages_def range_frames_def)

lemma range_frames_upt: "range_frames r = [range_start r div 4096 ..< range_start r div 4096 + range_pages r]"
  by (simp add: range_frames_def map_add_upt [of _ "range_pages r"] add.commute)

lemma range_frames_bounds:
  assumes "range_ok r" "f \<in> set (range_frames r)"
  shows "range_start r \<le> f * 4096" "f * 4096 < range_end r"
  using assms by (auto simp: range_frames_upt range_ok_def range_end_def)

lemma distinct_frames:
  assumes "sorted_wrt separate rs" "\<forall>r \<in> set rs. range_ok r"
  shows "distinct (frames rs)"
  using assms
proof (induction rs)
  case (Cons r rs)
  have "f \<notin> set (frames rs)" if f: "f \<in> set (range_frames r)" for f
  proof
    assume "f \<in> set (frames rs)"
    then obtain r' where r': "r' \<in> set rs" "f \<in> set (range_frames r')" by (auto simp: frames_def)
    then have "range_end r \<le> range_start r'" using Cons.prems by (simp add: separate_def before_def)
    with range_frames_bounds [of r f] range_frames_bounds [of r' f] f r' Cons.prems show False by force
  qed
  with Cons show ?case by (auto simp: range_frames_upt)
qed simp

lemma run_at_range:
  assumes "o' + n \<le> range_pages r"
  shows "run_at (frames (rs @ r # rs')) (total_pages rs + o') (range_start r div 4096 + o') n"
proof -
  have "drop (total_pages rs + o') (frames (rs @ r # rs')) = drop o' (range_frames r) @ frames rs'"
    using assms length_frames [of rs] by (simp add: range_frames_upt)
  moreover have "total_pages rs + o' + n \<le> length (frames (rs @ r # rs'))"
    using assms unfolding length_frames by (simp add: total_pages_def)
  ultimately show ?thesis using assms by (simp add: run_at_def range_frames_upt)
qed

lemma run_at_unique:
  assumes "distinct fs" "run_at fs i f n" "run_at fs j f n" "0 < n"
  shows "i = j"
proof -
  have "fs ! x = f" if "run_at fs x f n" for x
  proof -
    have "take n (drop x fs) ! 0 = [f..<f + n] ! 0" using that by (simp add: run_at_def)
    moreover have "x < length fs" using assms(4) that by (simp add: run_at_def)
    ultimately show ?thesis using assms(4) by (simp del: upt_conv_Cons)
  qed
  with assms show ?thesis by (metis add_lessD1 le_neq_implies_less less_add_same_cancel1 nth_eq_iff_index_eq run_at_def order_less_le_trans)
qed


definition frame_map :: "nat list \<Rightarrow> ZiPhysicalPageMetadata list \<Rightarrow> nat \<Rightarrow> ZiPhysicalPageMetadata option" where
  "frame_map fs pages = map_of (zip fs pages)"

lemma run_at_nth: "run_at fs i f n \<Longrightarrow> k < n \<Longrightarrow> fs ! (i + k) = f + k"
  by (metis (no_types, lifting) add_leD1 le_add1 nth_drop nth_take nth_upt nat_add_left_cancel_less run_at_def)

lemma run_at_index:
  assumes "distinct fs" "run_at fs i f n" "j < length fs"
  shows "f \<le> fs ! j \<and> fs ! j < f + n \<longleftrightarrow> i \<le> j \<and> j < i + n"
proof
  assume "f \<le> fs ! j \<and> fs ! j < f + n"
  then obtain k where k: "k < n" "fs ! j = f + k" by (metis le_iff_add nat_add_left_cancel_less)
  then have "fs ! (i + k) = fs ! j" using run_at_nth [OF assms(2)] by simp
  then have "j = i + k" using assms k(1) by (simp add: nth_eq_iff_index_eq run_at_def)
  with k show "i \<le> j \<and> j < i + n" by simp
next
  assume "i \<le> j \<and> j < i + n"
  then obtain k where "j = i + k" "k < n" by (metis le_iff_add nat_add_left_cancel_less)
  with run_at_nth [OF assms(2)] show "f \<le> fs ! j \<and> fs ! j < f + n" by simp
qed

lemma run_at_in:
  assumes "run_at fs i f n" "f \<le> x" "x < f + n"
  shows "x \<in> set fs"
proof -
  have "x \<in> set (take n (drop i fs))" using assms by (simp add: run_at_def)
  then show ?thesis by (metis in_set_dropD in_set_takeD)
qed

lemma frame_map_update:
  fixes g :: "ZiPhysicalPageMetadata \<Rightarrow> ZiPhysicalPageMetadata"
  assumes fs: "distinct fs" "length fs = length pages" "run_at fs i f n"
  defines "pages' \<equiv> take i pages @ map g (take n (drop i pages)) @ drop (i + n) pages"
  shows "frame_map fs pages' x = (if f \<le> x \<and> x < f + n then map_option g (frame_map fs pages x) else frame_map fs pages x)"
proof (cases "x \<in> set fs")
  case True
  then obtain j where j: "j < length fs" "x = fs ! j" by (metis in_set_conv_nth)
  have le: "i + n \<le> length pages" using fs(2,3) by (simp add: run_at_def)
  then have len: "length pages' = length fs" by (simp add: pages'_def fs(2))
  have "pages' ! j = (if i \<le> j \<and> j < i + n then g (pages ! j) else pages ! j)"
    using le fs(2) j(1) by (auto simp: pages'_def nth_append)
  moreover have "frame_map fs ps x = Some (ps ! j)" if "length ps = length fs" for ps
    using that fs(1) j by (simp add: frame_map_def map_of_zip_nth)
  ultimately show ?thesis using run_at_index [OF fs(1,3) j(1)] len fs(2) j(2) by simp
next
  case False
  then have "frame_map fs ps x = None" for ps by (auto simp: frame_map_def map_of_eq_None_iff dest: set_zip_leftD)
  with False show ?thesis using run_at_in [OF fs(3)] by auto
qed

lemma frame_map_run:
  assumes fs: "distinct fs" "length fs = length pages" "run_at fs i f n"
  shows "(\<forall>p \<in> set (take n (drop i pages)). P p) \<longleftrightarrow> (\<forall>x. f \<le> x \<and> x < f + n \<longrightarrow> (\<exists>p. frame_map fs pages x = Some p \<and> P p))"
proof -
  have at: "frame_map fs pages (f + k) = Some (pages ! (i + k))" if "k < n" for k
  proof -
    have "i + k < length fs" using fs(3) that by (simp add: run_at_def)
    then show ?thesis using fs(1,2) run_at_nth [OF fs(3) that] by (metis frame_map_def map_of_zip_nth)
  qed
  have "(\<forall>p \<in> set (take n (drop i pages)). P p) \<longleftrightarrow> (\<forall>k < n. P (pages ! (i + k)))"
    using fs(2,3) by (auto simp: all_set_conv_all_nth run_at_def)
  also have "\<dots> \<longleftrightarrow> (\<forall>x. f \<le> x \<and> x < f + n \<longrightarrow> (\<exists>p. frame_map fs pages x = Some p \<and> P p))"
    using at by (metis le_add1 le_iff_add nat_add_left_cancel_less option.inject)
  finally show ?thesis .
qed

section \<open>Locating a run\<close>

definition run_in_range :: "ZiMemoryRange \<Rightarrow> nat \<Rightarrow> nat \<Rightarrow> bool" where
  "run_in_range r c n \<longleftrightarrow> range_start r \<le> c \<and> c + n * 4096 \<le> range_end r"

lemma inventory_okD:
  assumes "inventory_ok inventory"
  shows "\<forall>r \<in> set (live_ranges inventory). range_ok r" "sorted_wrt separate (live_ranges inventory)"
    "sorted_wrt before (live_ranges inventory)" "distinct (frames (live_ranges inventory))"
    "unat (inv_managed_page_count inventory) = total_pages (live_ranges inventory)"
    "total_pages (live_ranges inventory) * 4096 < 2 ^ 64"
    "length (live_ranges inventory) = inv_range_count inventory"
proof -
  show r: "\<forall>r \<in> set (live_ranges inventory). range_ok r" "sorted_wrt separate (live_ranges inventory)"
    "unat (inv_managed_page_count inventory) = total_pages (live_ranges inventory)"
    using assms by (simp_all add: inventory_ok_def)
  show b: "sorted_wrt before (live_ranges inventory)"
    using r(2) by (rule sorted_wrt_mono_rel [rotated]) (simp add: separate_def)
  show "distinct (frames (live_ranges inventory))" using distinct_frames r by blast
  have ne: "live_ranges inventory \<noteq> []" using assms by (simp add: inventory_ok_def)
  then have "range_end (last (live_ranges inventory)) < 2 ^ 64" using r(1) by (simp add: range_ok_def)
  with total_pages_bound [OF b r(1) ne] show "total_pages (live_ranges inventory) * 4096 < 2 ^ 64" by linarith
  show "length (live_ranges inventory) = inv_range_count inventory" using assms by (simp add: inventory_ok_def live_ranges_def)
qed

lemma metadata_start_fold:
  "unat s + total_pages rs < 2 ^ 64 \<Longrightarrow> unat (fold (\<lambda>r s. s + mr_page_count r) rs s) = unat s + total_pages rs" for s :: u64
proof (induction rs arbitrary: s)
  case (Cons r rs)
  have "unat (s + mr_page_count r) = unat s + range_pages r"
    using Cons.prems by (subst unat_u64_add) (simp_all add: total_pages_def range_pages_def)
  with Cons show ?case by (simp add: total_pages_def)
qed (simp add: total_pages_def)

lemma range_metadata_start_eq:
  assumes ok: "inventory_ok inventory" and split: "live_ranges inventory = rs @ r # rs'"
  shows "unat (range_metadata_start inventory (length rs)) = total_pages rs" "inv_ranges inventory ! length rs = r"
proof -
  have "length rs < inv_range_count inventory" using inventory_okD(7) [OF ok] by (simp add: split)
  then have "take (length rs) (inv_ranges inventory) = take (length rs) (live_ranges inventory)"
    and nth: "inv_ranges inventory ! length rs = live_ranges inventory ! length rs" by (simp_all add: live_ranges_def min_def)
  then have take': "take (length rs) (inv_ranges inventory) = rs" by (simp add: split)
  have "total_pages rs < 2 ^ 64" using inventory_okD(6) [OF ok] by (simp add: split)
  then show "unat (range_metadata_start inventory (length rs)) = total_pages rs"
    using metadata_start_fold [of 0 rs] by (simp add: range_metadata_start_def take')
  show "inv_ranges inventory ! length rs = r" using nth by (simp add: split)
qed

lemma in_range_word:
  assumes r: "range_ok r"
  shows "mr_physical_base r \<le> base \<and> base - mr_physical_base r \<le> push_bit 12 (mr_page_count r) \<and>
      size' \<le> push_bit 12 (mr_page_count r) - (base - mr_physical_base r) \<longleftrightarrow>
    range_start r \<le> unat base \<and> unat base + unat size' \<le> range_end r"
proof (cases "mr_physical_base r \<le> base")
  case True
  note size = range_ok_word(1) [OF r]
  have start: "range_start r \<le> unat base" using True by (simp add: range_start_def word_le_nat_alt)
  have diff: "unat (base - mr_physical_base r) = unat base - range_start r" using True by (simp add: unat_sub range_start_def)
  show ?thesis
  proof (cases "base - mr_physical_base r \<le> push_bit 12 (mr_page_count r)")
    case le: True
    have "unat (push_bit 12 (mr_page_count r) - (base - mr_physical_base r)) = range_pages r * 4096 - (unat base - range_start r)"
      using unat_sub [OF le] by (simp only: size diff)
    moreover have "unat base - range_start r \<le> range_pages r * 4096" using le by (simp only: word_le_nat_alt size diff)
    ultimately show ?thesis using True le start by (simp add: word_le_nat_alt [of size'] range_end_def) linarith
  next
    case False
    then have "range_pages r * 4096 < unat base - range_start r" by (simp only: word_le_nat_alt size diff not_le)
    with False start show ?thesis by (simp add: range_end_def)
  qed
qed (simp add: range_start_def word_le_nat_alt)


lemma locate_interval_loop_correct:
  assumes ok: "inventory_ok inventory" and split: "live_ranges inventory = rs @ rs'"
  shows "case locate_interval_loop inventory (length rs) (length rs') base size' of
      Inr w \<Rightarrow> \<exists>us r vs. live_ranges inventory = us @ r # vs \<and> range_start r \<le> unat base \<and> unat base + unat size' \<le> range_end r \<and>
        unat w = total_pages us + (unat base - range_start r) div 4096
    | Inl status \<Rightarrow> status = ZI_STATUS_OUT_OF_BOUNDS \<and>
        (\<forall>r \<in> set rs'. \<not> (range_start r \<le> unat base \<and> unat base + unat size' \<le> range_end r))"
  using split
proof (induction rs' arbitrary: rs)
  case (Cons r rs')
  have r: "range_ok r" using inventory_okD(1) [OF ok] Cons.prems by simp
  note start = range_metadata_start_eq [OF ok Cons.prems]
  define hit where "hit \<longleftrightarrow> range_start r \<le> unat base \<and> unat base + unat size' \<le> range_end r"
  let ?index = "range_metadata_start inventory (length rs) + drop_bit 12 (base - mr_physical_base r)"
  have loop: "locate_interval_loop inventory (length rs) (length (r # rs')) base size' =
      (if hit then Inr ?index else locate_interval_loop inventory (length (rs @ [r])) (length rs') base size')"
    using in_range_word [OF r, of base size'] by (simp add: start(2) Let_def hit_def)
  show ?case
  proof (cases hit)
    case True
    then have le: "mr_physical_base r \<le> base" by (simp add: hit_def range_start_def word_le_nat_alt)
    have offset: "unat (drop_bit 12 (base - mr_physical_base r)) = (unat base - range_start r) div 4096"
      using unat_sub [OF le] by (simp add: unat_drop_bit range_start_def)
    have "unat base - range_start r \<le> range_pages r * 4096" using True unfolding hit_def range_end_def by linarith
    from div_le_mono [OF this, of 4096] have "(unat base - range_start r) div 4096 \<le> range_pages r" by simp
    then have "total_pages rs + (unat base - range_start r) div 4096 \<le> total_pages (live_ranges inventory)"
      using Cons.prems by (simp add: total_pages_def)
    then have "unat ?index = total_pages rs + (unat base - range_start r) div 4096"
      using inventory_okD(6) [OF ok] by (subst unat_u64_add) (simp_all add: start(1) offset)
    with True Cons.prems show ?thesis unfolding loop by (auto simp: hit_def)
  next
    case False
    then show ?thesis using Cons.IH [of "rs @ [r]"] Cons.prems unfolding loop by (auto simp: hit_def split: sum.splits)
  qed
qed simp

lemma locate_page_interval_correct:
  assumes ok: "inventory_ok (pmm_inventory m)"
  defines "live \<equiv> live_ranges (pmm_inventory m)"
  shows "case locate_page_interval m base n of
      Inr w \<Rightarrow> 0 < unat n \<and> 4096 dvd unat base \<and> (\<exists>r \<in> set live. run_in_range r (unat base) (unat n)) \<and>
        run_at (frames live) (unat w) (unat base div 4096) (unat n)
    | Inl status \<Rightarrow> \<not> (0 < unat n \<and> 4096 dvd unat base \<and> (\<exists>r \<in> set live. run_in_range r (unat base) (unat n)))"
proof (cases "n = 0 \<or> \<not> 4096 dvd unat base \<or> 2 ^ 64 \<le> unat base + unat n * 4096")
  case True
  have none: "\<not> (0 < unat n \<and> 4096 dvd unat base \<and> (\<exists>r \<in> set live. run_in_range r (unat base) (unat n)))"
  proof
    assume H: "0 < unat n \<and> 4096 dvd unat base \<and> (\<exists>r \<in> set live. run_in_range r (unat base) (unat n))"
    then obtain r where r: "r \<in> set live" "unat base + unat n * 4096 \<le> range_end r" unfolding run_in_range_def by blast
    then have "range_end r < 2 ^ 64" using inventory_okD(1) [OF ok] by (simp add: live_def range_ok_def)
    moreover have "2 ^ 64 \<le> unat base + unat n * 4096" using True H by (auto simp: unat_gt_0)
    ultimately show False using r(2) by linarith
  qed
  moreover have "\<exists>status. locate_page_interval m base n = Inl status"
  proof (cases "n = 0 \<or> \<not> 4096 dvd unat base \<or> UINT64_MAX div 4096 < n")
    case False
    then have "unat n * 4096 < 2 ^ 64" by (simp add: word_less_nat_alt not_less)
    then have "unat (n * 4096) = unat n * 4096" by (simp add: unat_word_ariths)
    then have "UINT64_MAX - n * 4096 < base" using True False by (simp add: u64_sum_overflows add.commute)
    with False show ?thesis by (simp add: locate_page_interval_def page_aligned_iff Let_def)
  qed (auto simp: locate_page_interval_def page_aligned_iff)
  ultimately show ?thesis by auto
next
  case False
  then have small: "unat n * 4096 < 2 ^ 64" by linarith
  then have size: "unat (n * 4096) = unat n * 4096" by (simp add: unat_word_ariths)
  have "\<not> UINT64_MAX div 4096 < n" using small by (simp add: word_less_nat_alt not_less)
  moreover have "\<not> UINT64_MAX - n * 4096 < base" using False by (simp add: u64_sum_overflows size add.commute)
  ultimately have loop: "locate_page_interval m base n =
      locate_interval_loop (pmm_inventory m) (length ([] :: ZiMemoryRange list)) (length live) base (n * 4096)"
    using False inventory_okD(7) [OF ok] by (simp add: locate_page_interval_def page_aligned_iff Let_def live_def)
  have "live_ranges (pmm_inventory m) = [] @ live" by (simp add: live_def)
  note hit = locate_interval_loop_correct [OF ok this, of base "n * 4096", unfolded size]
  have n: "0 < unat n" using False by (simp add: unat_gt_0)
  show ?thesis
  proof (cases "locate_interval_loop (pmm_inventory m) (length ([] :: ZiMemoryRange list)) (length live) base (n * 4096)")
    case (Inl status)
    with hit show ?thesis unfolding loop by (auto simp: run_in_range_def)
  next
    case (Inr w)
    with hit obtain us r vs where r: "live = us @ r # vs" "range_start r \<le> unat base" "unat base + unat n * 4096 \<le> range_end r"
      "unat w = total_pages us + (unat base - range_start r) div 4096" by (auto simp: live_def)
    have "4096 dvd range_start r" using inventory_okD(1) [OF ok] r(1) by (simp add: live_def [symmetric] range_ok_def)
    then obtain s b where sb: "range_start r = 4096 * s" "unat base = 4096 * b" using False by (auto elim!: dvdE)
    have "4096 * b - 4096 * s = 4096 * (b - s)" by simp
    then have w: "unat w = total_pages us + (b - s)" using r(4) by (simp only: sb)
    have le: "s \<le> b" "b - s + unat n \<le> range_pages r" using r(2,3) unfolding range_end_def sb by linarith+
    have "run_at (frames live) (unat w) (unat base div 4096) (unat n)"
      using run_at_range [OF le(2), of us vs] le(1) sb unfolding w r(1) by simp
    moreover have "\<exists>r \<in> set live. run_in_range r (unat base) (unat n)" using r by (auto simp: run_in_range_def)
    ultimately show ?thesis using Inr n False unfolding loop by simp
  qed
qed


section \<open>The invariant of the manager\<close>

text \<open>
  Every page is free, reserved or allocated, the statistics count the pages of each state, and a free page has
  no owner.
\<close>

definition statistics_ok :: "ZiPhysicalMemoryStatistics \<Rightarrow> ZiPhysicalPageMetadata list \<Rightarrow> bool" where
  "statistics_ok st pages \<longleftrightarrow>
     unat (st_managed_pages st) = length pages \<and> unat (st_free_pages st) = state_count ZI_MEMORY_PAGE_FREE pages \<and>
     unat (st_reserved_pages st) = state_count ZI_MEMORY_PAGE_RESERVED pages \<and>
     unat (st_allocated_pages st) = state_count ZI_MEMORY_PAGE_ALLOCATED pages"

definition page_ok :: "ZiPhysicalPageMetadata \<Rightarrow> bool" where
  "page_ok p \<longleftrightarrow> pg_state p \<in> {ZI_MEMORY_PAGE_FREE, ZI_MEMORY_PAGE_RESERVED, ZI_MEMORY_PAGE_ALLOCATED} \<and>
     (pg_state p = ZI_MEMORY_PAGE_FREE \<longrightarrow> pg_owner p = 0)"

definition manager_ok :: "ZiPhysicalMemoryManager \<Rightarrow> bool" where
  "manager_ok m \<longleftrightarrow>
     inventory_ok (pmm_inventory m) \<and> length (pmm_pages m) = total_pages (live_ranges (pmm_inventory m)) \<and>
     pmm_metadata_page_count m = inv_managed_page_count (pmm_inventory m) \<and>
     statistics_ok (pmm_statistics m) (pmm_pages m) \<and> (\<forall>p \<in> set (pmm_pages m). page_ok p)"

definition manager_map :: "ZiPhysicalMemoryManager \<Rightarrow> nat \<Rightarrow> ZiPhysicalPageMetadata option" where
  "manager_map m = frame_map (frames (live_ranges (pmm_inventory m))) (pmm_pages m)"

definition run_satisfies :: "ZiPhysicalMemoryManager \<Rightarrow> nat \<Rightarrow> nat \<Rightarrow> (ZiPhysicalPageMetadata \<Rightarrow> bool) \<Rightarrow> bool" where
  "run_satisfies m f n P \<longleftrightarrow> (\<forall>x. f \<le> x \<and> x < f + n \<longrightarrow> (\<exists>p. manager_map m x = Some p \<and> P p))"

lemma page_states [simp]:
  "ZI_MEMORY_PAGE_FREE \<noteq> ZI_MEMORY_PAGE_RESERVED" "ZI_MEMORY_PAGE_FREE \<noteq> ZI_MEMORY_PAGE_ALLOCATED"
  "ZI_MEMORY_PAGE_RESERVED \<noteq> ZI_MEMORY_PAGE_ALLOCATED"
  by simp_all

lemma manager_okD:
  assumes "manager_ok m"
  shows "inventory_ok (pmm_inventory m)" "distinct (frames (live_ranges (pmm_inventory m)))"
    "length (frames (live_ranges (pmm_inventory m))) = length (pmm_pages m)" "length (pmm_pages m) < 2 ^ 52"
    "0 < length (pmm_pages m)"
proof -
  show ok: "inventory_ok (pmm_inventory m)" using assms by (simp add: manager_ok_def)
  show "distinct (frames (live_ranges (pmm_inventory m)))" using inventory_okD(4) [OF ok] .
  show "length (frames (live_ranges (pmm_inventory m))) = length (pmm_pages m)" "length (pmm_pages m) < 2 ^ 52"
    using assms inventory_okD(6) [OF ok] by (simp_all add: manager_ok_def length_frames)
  obtain r rs where "live_ranges (pmm_inventory m) = r # rs" using ok by (cases "live_ranges (pmm_inventory m)") (auto simp: inventory_ok_def)
  then have "0 < total_pages (live_ranges (pmm_inventory m))" using inventory_okD(1) [OF ok] by (simp add: total_pages_def range_ok_def)
  then show "0 < length (pmm_pages m)" using assms by (simp add: manager_ok_def)
qed

lemma run_all_iff:
  assumes m: "manager_ok m" and run: "run_at (frames (live_ranges (pmm_inventory m))) (unat first_page) f n"
  shows "page_run_all (pmm_pages m) first_page n P \<longleftrightarrow> run_satisfies m f n P"
proof -
  note D = manager_okD [OF m]
  have le: "unat first_page + n \<le> length (pmm_pages m)" using run D(3) by (simp add: run_at_def)
  have small: "length (pmm_pages m) < 2 ^ 64" using D(4) by simp
  show ?thesis
    unfolding page_run_slice(1) [OF le small] run_satisfies_def manager_map_def by (rule frame_map_run [OF D(2,3) run])
qed

text \<open>Changing the state of a uniform run: the pages, the frames and the number of pages in each state.\<close>

lemma change_run:
  assumes m: "manager_ok m" and run: "run_at (frames (live_ranges (pmm_inventory m))) (unat first_page) f n"
    and old: "run_satisfies m f n (\<lambda>p. pg_state p = old)"
    and new: "\<And>p. pg_state p = old \<Longrightarrow> pg_state (g p) = new \<and> page_ok (g p)"
  defines "pages' \<equiv> page_run_update (pmm_pages m) first_page n g"
  shows "length pages' = length (pmm_pages m)" "\<forall>p \<in> set pages'. page_ok p"
    "state_count s pages' + (if s = old then n else 0) = state_count s (pmm_pages m) + (if s = new then n else 0)"
    "frame_map (frames (live_ranges (pmm_inventory m))) pages' x =
      (if f \<le> x \<and> x < f + n then map_option g (manager_map m x) else manager_map m x)"
proof -
  note D = manager_okD [OF m]
  let ?i = "unat first_page"
  have le: "?i + n \<le> length (pmm_pages m)" using run D(3) by (simp add: run_at_def)
  have small: "length (pmm_pages m) < 2 ^ 64" using D(4) by simp
  have eq: "pages' = take ?i (pmm_pages m) @ map g (take n (drop ?i (pmm_pages m))) @ drop (?i + n) (pmm_pages m)"
    unfolding pages'_def by (rule page_run_slice(2) [OF le small])
  have all: "\<forall>p \<in> set (take n (drop ?i (pmm_pages m))). pg_state p = old"
    using old unfolding run_satisfies_def manager_map_def frame_map_run [OF D(2,3) run, symmetric] .
  show "length pages' = length (pmm_pages m)" using le by (simp add: eq)
  show "state_count s pages' + (if s = old then n else 0) = state_count s (pmm_pages m) + (if s = new then n else 0)"
    unfolding eq by (rule state_count_update [OF le]) (use all new in blast)
  have "\<forall>p \<in> set (pmm_pages m). page_ok p" using m by (simp add: manager_ok_def)
  then show "\<forall>p \<in> set pages'. page_ok p" unfolding eq using new all by (auto dest: in_set_takeD in_set_dropD)
  show "frame_map (frames (live_ranges (pmm_inventory m))) pages' x =
      (if f \<le> x \<and> x < f + n then map_option g (manager_map m x) else manager_map m x)"
    unfolding eq manager_map_def by (rule frame_map_update [OF D(2,3) run])
qed

section \<open>Initialisation\<close>

definition initial_page :: "ZiMemoryRange \<Rightarrow> ZiPhysicalPageMetadata" where
  "initial_page r =
     (if mr_type r = ZI_BOOT_MEMORY_USABLE then \<lparr>pg_state = ZI_MEMORY_PAGE_FREE, pg_owner = 0\<rparr>
      else \<lparr>pg_state = ZI_MEMORY_PAGE_RESERVED, pg_owner = ucast (mr_owner r)\<rparr>)"

definition initial_pages :: "ZiMemoryRange list \<Rightarrow> ZiPhysicalPageMetadata list" where
  "initial_pages rs = concat (map (\<lambda>r. replicate (range_pages r) (initial_page r)) rs)"

lemma initialise_range_step:
  fixes w :: u64
  assumes w: "unat w = length ps" "length ps + range_pages r + k < 2 ^ 64" and st: "statistics_ok st ps"
  shows "\<exists>st' w'. initialise_range r (ps @ replicate (range_pages r + k) z, st, w) =
      ((ps @ replicate (range_pages r) (initial_page r)) @ replicate k z, st', w') \<and>
    statistics_ok st' (ps @ replicate (range_pages r) (initial_page r)) \<and> unat w' = length ps + range_pages r"
proof -
  let ?new = "replicate (range_pages r) (initial_page r)"
  have w': "unat (w + mr_page_count r) = length ps + range_pages r"
    using w by (subst unat_u64_add) (simp_all add: range_pages_def)
  define g where "g = (\<lambda>page. page\<lparr>pg_state := if mr_type r = ZI_BOOT_MEMORY_USABLE then ZI_MEMORY_PAGE_FREE else ZI_MEMORY_PAGE_RESERVED,
    pg_owner := if mr_type r = ZI_BOOT_MEMORY_USABLE then ucast ZI_MEMORY_OWNER_NONE else ucast (mr_owner r)\<rparr>
    :: ZiPhysicalPageMetadata)"
  have g: "g p = initial_page r" for p by (cases p) (simp add: g_def initial_page_def)
  have "page_run_update (ps @ replicate (range_pages r + k) z) w (range_pages r) g = (ps @ ?new) @ replicate k z"
    using w by (subst page_run_slice(2)) (simp_all add: g map_replicate_const)
  then have run: "page_run_update (ps @ replicate (range_pages r + k) z) w (unat (mr_page_count r)) g = (ps @ ?new) @ replicate k z"
    by (simp only: range_pages_def)
  have le: "state_count s ps \<le> length ps" for s by (rule state_count_le)
  have add: "unat (v + mr_page_count r) = unat v + range_pages r" if "unat v \<le> length ps" for v :: u64
    using that w(2) by (subst unat_u64_add) (simp_all add: range_pages_def)
  have count: "state_count s ?new = (if s = pg_state (initial_page r) then range_pages r else 0)" for s
    using state_count_uniform [of ?new "pg_state (initial_page r)" s] by simp
  have state: "pg_state (initial_page r) = (if mr_type r = ZI_BOOT_MEMORY_USABLE then ZI_MEMORY_PAGE_FREE else ZI_MEMORY_PAGE_RESERVED)"
    by (simp add: initial_page_def)
  define st' where "st' = (if mr_type r = ZI_BOOT_MEMORY_USABLE
    then st\<lparr>st_free_pages := st_free_pages st + mr_page_count r, st_managed_pages := st_managed_pages st + mr_page_count r\<rparr>
    else st\<lparr>st_reserved_pages := st_reserved_pages st + mr_page_count r, st_managed_pages := st_managed_pages st + mr_page_count r\<rparr>)"
  have "initialise_range r (ps @ replicate (range_pages r + k) z, st, w) = ((ps @ ?new) @ replicate k z, st', w + mr_page_count r)"
    unfolding run [symmetric] g_def st'_def by (simp add: initialise_range_def Let_def)
  moreover have "statistics_ok st' (ps @ ?new)"
    using st le [of ZI_MEMORY_PAGE_FREE] le [of ZI_MEMORY_PAGE_RESERVED]
    by (auto simp: st'_def statistics_ok_def add count state)
  ultimately show ?thesis using w' by blast
qed

lemma initialise_fold:
  fixes w :: u64
  assumes "unat w = length ps" "length ps + total_pages rs < 2 ^ 64" "statistics_ok st ps"
  shows "\<exists>st' w'. fold initialise_range rs (ps @ replicate (total_pages rs) z, st, w) = (ps @ initial_pages rs, st', w') \<and>
    statistics_ok st' (ps @ initial_pages rs)"
  using assms
proof (induction rs arbitrary: ps st w)
  case (Cons r rs)
  have total: "total_pages (r # rs) = range_pages r + total_pages rs" by (simp add: total_pages_def)
  obtain st' w' where step: "initialise_range r (ps @ replicate (range_pages r + total_pages rs) z, st, w) =
      ((ps @ replicate (range_pages r) (initial_page r)) @ replicate (total_pages rs) z, st', w')"
    "statistics_ok st' (ps @ replicate (range_pages r) (initial_page r))" "unat w' = length ps + range_pages r"
    using initialise_range_step [of w ps r "total_pages rs" st z] Cons.prems by (auto simp: total)
  then show ?case using Cons.IH [of w' "ps @ replicate (range_pages r) (initial_page r)" st'] Cons.prems
    by (simp add: total initial_pages_def)
qed (simp add: initial_pages_def total_pages_def)

lemma zi_pmm_initialise_ok:
  assumes ok: "inventory_ok inventory" and init: "zi_pmm_initialise inventory storage = Inr m"
  shows "manager_ok m" "pmm_inventory m = inventory" "pmm_pages m = initial_pages (live_ranges inventory)"
proof -
  let ?zero = "\<lparr>st_managed_pages = 0, st_free_pages = 0, st_reserved_pages = 0, st_allocated_pages = 0\<rparr>"
  let ?rs = "live_ranges inventory" and ?z = "\<lparr>pg_state = 0, pg_owner = 0\<rparr>"
  have "statistics_ok ?zero []" by (simp add: statistics_ok_def state_count_def)
  moreover have "total_pages ?rs < 2 ^ 64" using inventory_okD(6) [OF ok] by simp
  ultimately obtain st w where fold: "fold initialise_range ?rs (replicate (total_pages ?rs) ?z, ?zero, 0) = (initial_pages ?rs, st, w)"
    and st: "statistics_ok st (initial_pages ?rs)"
    using initialise_fold [of 0 "[]" ?rs ?zero ?z] by auto
  have m: "m = \<lparr>pmm_inventory = inventory, pmm_pages = initial_pages ?rs,
      pmm_metadata_page_count = inv_managed_page_count inventory, pmm_statistics = st\<rparr>"
    using init fold unfolding zi_pmm_initialise_def live_ranges_def [symmetric] inventory_okD(5) [OF ok]
    by (auto split: option.splits sum.splits if_splits)
  have "length (initial_pages rs) = total_pages rs" for rs
    by (induction rs) (simp_all add: initial_pages_def total_pages_def)
  moreover have "\<forall>p \<in> set (initial_pages ?rs). page_ok p"
    by (auto simp: initial_pages_def initial_page_def page_ok_def)
  ultimately show "manager_ok m" using ok st by (simp add: m manager_ok_def)
  show "pmm_inventory m = inventory" "pmm_pages m = initial_pages ?rs" by (simp_all add: m)
qed

section \<open>Reserving, reassigning and freeing\<close>

definition in_memory :: "ZiPhysicalMemoryManager \<Rightarrow> u64 \<Rightarrow> u64 \<Rightarrow> bool" where
  "in_memory m base n \<longleftrightarrow> 0 < unat n \<and> 4096 dvd unat base \<and>
     (\<exists>r \<in> set (live_ranges (pmm_inventory m)). run_in_range r (unat base) (unat n))"

definition map_run :: "(nat \<Rightarrow> ZiPhysicalPageMetadata option) \<Rightarrow> u64 \<Rightarrow> u64 \<Rightarrow> (ZiPhysicalPageMetadata \<Rightarrow> ZiPhysicalPageMetadata) \<Rightarrow>
    nat \<Rightarrow> ZiPhysicalPageMetadata option" where
  "map_run mm base n g x =
     (if unat base div 4096 \<le> x \<and> x < unat base div 4096 + unat n then map_option g (mm x) else mm x)"

lemma locate_cases:
  assumes "manager_ok m"
  obtains (found) w where "locate_page_interval m base n = Inr w" "in_memory m base n"
      "run_at (frames (live_ranges (pmm_inventory m))) (unat w) (unat base div 4096) (unat n)"
  | (missing) status where "locate_page_interval m base n = Inl status" "\<not> in_memory m base n"
  using locate_page_interval_correct [OF manager_okD(1) [OF assms], where base = base and n = n]
  by (cases "locate_page_interval m base n") (auto simp: in_memory_def)

lemma run_satisfies_mono: "run_satisfies m f n P \<Longrightarrow> (\<And>p. P p \<Longrightarrow> Q p) \<Longrightarrow> run_satisfies m f n Q"
  unfolding run_satisfies_def by blast

lemma unat_count_diff: "unat a = k + unat n \<Longrightarrow> unat (a - n) = k" for a n :: u64
  by (subst unat_sub) (simp_all add: word_le_nat_alt)


lemma changed_manager_ok:
  assumes m: "manager_ok m" and run: "run_at (frames (live_ranges (pmm_inventory m))) (unat first_page) (unat base div 4096) (unat n)"
    and old: "run_satisfies m (unat base div 4096) (unat n) (\<lambda>p. pg_state p = old)"
    and new: "\<And>p. pg_state p = old \<Longrightarrow> pg_state (g p) = new \<and> page_ok (g p)"
    and st: "\<And>pages'. length pages' = length (pmm_pages m) \<Longrightarrow>
      (\<And>s. state_count s pages' + (if s = old then unat n else 0) = state_count s (pmm_pages m) + (if s = new then unat n else 0)) \<Longrightarrow>
      statistics_ok st' pages'"
  shows "manager_ok (m\<lparr>pmm_pages := page_run_update (pmm_pages m) first_page (unat n) g, pmm_statistics := st'\<rparr>)"
    and "manager_map (m\<lparr>pmm_pages := page_run_update (pmm_pages m) first_page (unat n) g, pmm_statistics := st'\<rparr>) =
      map_run (manager_map m) base n g"
proof -
  note C = change_run [OF m run old, of g, OF new]
  have "statistics_ok st' (page_run_update (pmm_pages m) first_page (unat n) g)" by (rule st) (use C(1,3) in simp_all)
  then show "manager_ok (m\<lparr>pmm_pages := page_run_update (pmm_pages m) first_page (unat n) g, pmm_statistics := st'\<rparr>)"
    using m C(1,2) by (simp add: manager_ok_def)
  have "manager_map (m\<lparr>pmm_pages := page_run_update (pmm_pages m) first_page (unat n) g, pmm_statistics := st'\<rparr>) =
      frame_map (frames (live_ranges (pmm_inventory m))) (page_run_update (pmm_pages m) first_page (unat n) g)"
    by (simp add: manager_map_def)
  then show "manager_map (m\<lparr>pmm_pages := page_run_update (pmm_pages m) first_page (unat n) g, pmm_statistics := st'\<rparr>) =
      map_run (manager_map m) base n g"
    by (auto simp: map_run_def C(4))
qed

text \<open>Moving \<open>n\<close> pages from one counter to another.\<close>

lemma statistics_move:
  assumes m: "manager_ok m" and len: "length pages' = length (pmm_pages m)"
    and count: "\<And>s. state_count s pages' + (if s = old then unat n else 0) = state_count s (pmm_pages m) + (if s = new then unat n else 0)"
  defines "st \<equiv> pmm_statistics m"
  shows "old = ZI_MEMORY_PAGE_FREE \<Longrightarrow> new = ZI_MEMORY_PAGE_RESERVED \<Longrightarrow>
      statistics_ok (st\<lparr>st_free_pages := st_free_pages st - n, st_reserved_pages := st_reserved_pages st + n\<rparr>) pages'"
    and "old = ZI_MEMORY_PAGE_FREE \<Longrightarrow> new = ZI_MEMORY_PAGE_ALLOCATED \<Longrightarrow>
      statistics_ok (st\<lparr>st_free_pages := st_free_pages st - n, st_allocated_pages := st_allocated_pages st + n\<rparr>) pages'"
    and "old = ZI_MEMORY_PAGE_ALLOCATED \<Longrightarrow> new = ZI_MEMORY_PAGE_FREE \<Longrightarrow>
      statistics_ok (st\<lparr>st_allocated_pages := st_allocated_pages st - n, st_free_pages := st_free_pages st + n\<rparr>) pages'"
proof -
  have st: "statistics_ok st (pmm_pages m)" using m by (simp add: manager_ok_def st_def)
  have small: "state_count s pages' < 2 ^ 64" for s
    using state_count_le [of s pages'] len manager_okD(4) [OF m] by simp
  have add: "unat (v + n) = unat v + unat n" if "unat v + unat n = state_count s pages'" for v :: u64 and s
    using small [of s] that by (intro unat_u64_add) simp
  note counts = count [of ZI_MEMORY_PAGE_FREE] count [of ZI_MEMORY_PAGE_RESERVED] count [of ZI_MEMORY_PAGE_ALLOCATED]
  show "old = ZI_MEMORY_PAGE_FREE \<Longrightarrow> new = ZI_MEMORY_PAGE_RESERVED \<Longrightarrow>
      statistics_ok (st\<lparr>st_free_pages := st_free_pages st - n, st_reserved_pages := st_reserved_pages st + n\<rparr>) pages'"
    using st counts len unat_count_diff [of "st_free_pages st" "state_count ZI_MEMORY_PAGE_FREE pages'" n]
      add [of "st_reserved_pages st" ZI_MEMORY_PAGE_RESERVED] by (simp add: statistics_ok_def)
  show "old = ZI_MEMORY_PAGE_FREE \<Longrightarrow> new = ZI_MEMORY_PAGE_ALLOCATED \<Longrightarrow>
      statistics_ok (st\<lparr>st_free_pages := st_free_pages st - n, st_allocated_pages := st_allocated_pages st + n\<rparr>) pages'"
    using st counts len unat_count_diff [of "st_free_pages st" "state_count ZI_MEMORY_PAGE_FREE pages'" n]
      add [of "st_allocated_pages st" ZI_MEMORY_PAGE_ALLOCATED] by (simp add: statistics_ok_def)
  show "old = ZI_MEMORY_PAGE_ALLOCATED \<Longrightarrow> new = ZI_MEMORY_PAGE_FREE \<Longrightarrow>
      statistics_ok (st\<lparr>st_allocated_pages := st_allocated_pages st - n, st_free_pages := st_free_pages st + n\<rparr>) pages'"
    using st counts len unat_count_diff [of "st_allocated_pages st" "state_count ZI_MEMORY_PAGE_ALLOCATED pages'" n]
      add [of "st_free_pages st" ZI_MEMORY_PAGE_FREE] by (simp add: statistics_ok_def)
qed

text \<open>What the three operations on a given run do, in terms of the frames.\<close>

lemma zi_pmm_reserve_correct:
  assumes m: "manager_ok m"
  shows "if reservation_owner_is_valid owner \<and> in_memory m base n \<and>
      run_satisfies m (unat base div 4096) (unat n) (\<lambda>p. pg_state p = ZI_MEMORY_PAGE_FREE)
    then \<exists>m'. zi_pmm_reserve m base n owner = (ZI_STATUS_SUCCESS, m') \<and> manager_ok m' \<and> pmm_inventory m' = pmm_inventory m \<and>
      manager_map m' = map_run (manager_map m) base n (\<lambda>p. p\<lparr>pg_state := ZI_MEMORY_PAGE_RESERVED, pg_owner := ucast owner\<rparr>)
    else \<exists>status. zi_pmm_reserve m base n owner = (status, m)"
  using m
proof (cases rule: locate_cases [where base = base and n = n])
  case (found w)
  note all = run_all_iff [OF m found(3)]
  let ?g = "\<lambda>p. p\<lparr>pg_state := ZI_MEMORY_PAGE_RESERVED, pg_owner := ucast owner\<rparr>"
  show ?thesis
  proof (cases "reservation_owner_is_valid owner \<and> run_satisfies m (unat base div 4096) (unat n) (\<lambda>p. pg_state p = ZI_MEMORY_PAGE_FREE)")
    case True
    note C = changed_manager_ok [OF m found(3) conjunct2 [OF True], of ?g, OF _ statistics_move(1) [OF m]]
    from True found C manager_okD(5) [OF m] show ?thesis
      by (auto simp: zi_pmm_reserve_def run_is_free_def all page_ok_def)
  next
    case False
    with found manager_okD(5) [OF m] show ?thesis by (auto simp: zi_pmm_reserve_def run_is_free_def all)
  qed
qed (auto simp: zi_pmm_reserve_def)


lemma zi_pmm_free_correct:
  assumes m: "manager_ok m"
  shows "if allocation_owner_is_valid owner \<and> in_memory m base n \<and>
      run_satisfies m (unat base div 4096) (unat n) (\<lambda>p. pg_state p = ZI_MEMORY_PAGE_ALLOCATED \<and> ucast (pg_owner p) = owner)
    then \<exists>m'. zi_pmm_free m base n owner = (ZI_STATUS_SUCCESS, m') \<and> manager_ok m' \<and> pmm_inventory m' = pmm_inventory m \<and>
      manager_map m' = map_run (manager_map m) base n (\<lambda>p. p\<lparr>pg_state := ZI_MEMORY_PAGE_FREE, pg_owner := 0\<rparr>)
    else \<exists>status. zi_pmm_free m base n owner = (status, m) \<and>
      (allocation_owner_is_valid owner \<and> in_memory m base n \<longrightarrow> status = ZI_STATUS_INVALID_STATE)"
  using m
proof (cases rule: locate_cases [where base = base and n = n])
  case (found w)
  note all = run_all_iff [OF m found(3)]
  let ?P = "\<lambda>p. pg_state p = ZI_MEMORY_PAGE_ALLOCATED \<and> ucast (pg_owner p) = owner"
  let ?g = "\<lambda>p. p\<lparr>pg_state := ZI_MEMORY_PAGE_FREE, pg_owner := 0\<rparr>"
  show ?thesis
  proof (cases "allocation_owner_is_valid owner \<and> run_satisfies m (unat base div 4096) (unat n) ?P")
    case True
    then have "run_satisfies m (unat base div 4096) (unat n) (\<lambda>p. pg_state p = ZI_MEMORY_PAGE_ALLOCATED)"
      by (blast intro: run_satisfies_mono)
    note C = changed_manager_ok [OF m found(3) this, of ?g, OF _ statistics_move(3) [OF m]]
    from True found C manager_okD(5) [OF m] show ?thesis by (auto simp: zi_pmm_free_def all page_ok_def)
  next
    case False
    with found manager_okD(5) [OF m] show ?thesis by (auto simp: zi_pmm_free_def all)
  qed
qed (auto simp: zi_pmm_free_def)

lemma zi_pmm_reassign_reserved_correct:
  assumes m: "manager_ok m"
  shows "if expected \<noteq> ZI_MEMORY_OWNER_NONE \<and> expected \<le> ZI_MEMORY_OWNER_TEST \<and> new_owner \<noteq> ZI_MEMORY_OWNER_NONE \<and>
      new_owner \<le> ZI_MEMORY_OWNER_TEST \<and> in_memory m base n \<and>
      run_satisfies m (unat base div 4096) (unat n) (\<lambda>p. pg_state p = ZI_MEMORY_PAGE_RESERVED \<and> ucast (pg_owner p) = expected)
    then \<exists>m'. zi_pmm_reassign_reserved m base n expected new_owner = (ZI_STATUS_SUCCESS, m') \<and> manager_ok m' \<and>
      pmm_inventory m' = pmm_inventory m \<and> manager_map m' = map_run (manager_map m) base n (\<lambda>p. p\<lparr>pg_owner := ucast new_owner\<rparr>)
    else \<exists>status. zi_pmm_reassign_reserved m base n expected new_owner = (status, m)"
  using m
proof (cases rule: locate_cases [where base = base and n = n])
  case (found w)
  note all = run_all_iff [OF m found(3)]
  let ?P = "\<lambda>p. pg_state p = ZI_MEMORY_PAGE_RESERVED \<and> ucast (pg_owner p) = expected"
  let ?g = "\<lambda>p. p\<lparr>pg_owner := ucast new_owner\<rparr>"
  show ?thesis
  proof (cases "expected \<noteq> ZI_MEMORY_OWNER_NONE \<and> expected \<le> ZI_MEMORY_OWNER_TEST \<and> new_owner \<noteq> ZI_MEMORY_OWNER_NONE \<and>
      new_owner \<le> ZI_MEMORY_OWNER_TEST \<and> run_satisfies m (unat base div 4096) (unat n) ?P")
    case True
    then have reserved: "run_satisfies m (unat base div 4096) (unat n) (\<lambda>p. pg_state p = ZI_MEMORY_PAGE_RESERVED)"
      by (blast intro: run_satisfies_mono)
    have "statistics_ok (pmm_statistics m) (pmm_pages m)" using m by (simp add: manager_ok_def)
    then have st: "statistics_ok (pmm_statistics m) pages'" if "length pages' = length (pmm_pages m)"
      "\<And>s. state_count s pages' + (if s = ZI_MEMORY_PAGE_RESERVED then unat n else 0) =
        state_count s (pmm_pages m) + (if s = ZI_MEMORY_PAGE_RESERVED then unat n else 0)" for pages'
      using that by (simp add: statistics_ok_def)
    have g: "pg_state p = ZI_MEMORY_PAGE_RESERVED \<Longrightarrow> pg_state (?g p) = ZI_MEMORY_PAGE_RESERVED \<and> page_ok (?g p)" for p
      by (simp add: page_ok_def)
    note C = changed_manager_ok [OF m found(3) reserved, of ?g, OF g st]
    have same: "m\<lparr>pmm_pages := pages, pmm_statistics := pmm_statistics m\<rparr> = m\<lparr>pmm_pages := pages\<rparr>" for pages by simp
    let ?m = "m\<lparr>pmm_pages := page_run_update (pmm_pages m) w (unat n) ?g\<rparr>"
    have "zi_pmm_reassign_reserved m base n expected new_owner = (ZI_STATUS_SUCCESS, ?m)"
      using True found(1) manager_okD(5) [OF m] by (auto simp: zi_pmm_reassign_reserved_def all)
    moreover have "manager_ok ?m \<and> manager_map ?m = map_run (manager_map m) base n ?g" using C unfolding same by blast
    ultimately show ?thesis using True found(2) by (simp del: not_less) 
  next
    case False
    with found manager_okD(5) [OF m] show ?thesis by (auto simp: zi_pmm_reassign_reserved_def all)
  qed
qed (auto simp: zi_pmm_reassign_reserved_def)


section \<open>Allocation\<close>

definition mark_allocated :: "ZiPhysicalMemoryManager \<Rightarrow> u64 \<Rightarrow> u64 \<Rightarrow> u32 \<Rightarrow> ZiPhysicalMemoryManager" where
  "mark_allocated m w n owner =
     m\<lparr>pmm_pages := page_run_update (pmm_pages m) w (unat n)
         (\<lambda>page. page\<lparr>pg_state := ZI_MEMORY_PAGE_ALLOCATED, pg_owner := ucast owner\<rparr>),
       pmm_statistics := (pmm_statistics m)
         \<lparr>st_free_pages := st_free_pages (pmm_statistics m) - n, st_allocated_pages := st_allocated_pages (pmm_statistics m) + n\<rparr>\<rparr>"

text \<open>An aligned free run at page \<open>y\<close> of a range, below the limit.\<close>

definition free_slot :: "ZiPhysicalMemoryManager \<Rightarrow> ZiMemoryRange \<Rightarrow> ZiPmmAllocationRequest \<Rightarrow> nat \<Rightarrow> bool" where
  "free_slot m r req y \<longleftrightarrow>
     unat (req_alignment_pages req) dvd range_start r div 4096 + y \<and> y + unat (req_page_count req) \<le> range_pages r \<and>
     (range_start r div 4096 + y) * 4096 + unat (req_page_count req) * 4096 \<le> unat (req_maximum_physical_address req) + 1 \<and>
     run_satisfies m (range_start r div 4096 + y) (unat (req_page_count req)) (\<lambda>p. pg_state p = ZI_MEMORY_PAGE_FREE)"

lemma limit_word:
  fixes c s l :: u64
  assumes "0 < unat s" "unat c + unat s < 2 ^ 64"
  shows "l < c \<or> l - c < s - 1 \<longleftrightarrow> \<not> unat c + unat s \<le> unat l + 1"
proof (cases "l < c")
  case True
  then have "unat l < unat c" by (simp only: word_less_nat_alt)
  with True assms(1) show ?thesis by simp
next
  case False
  then have le: "c \<le> l" by simp
  have "s \<noteq> 0" using assms(1) by auto
  then have "unat (s - 1) = unat s - 1" by (rule unat_minus_one)
  moreover have "unat (l - c) = unat l - unat c" using le by (rule unat_sub)
  moreover have "unat c \<le> unat l" using le by (simp only: word_le_nat_alt)
  ultimately have "l - c < s - 1 \<longleftrightarrow> \<not> unat c + unat s \<le> unat l + 1" unfolding word_less_nat_alt using assms(1) by linarith
  with False show ?thesis by blast
qed

lemma aligned_next:
  fixes a x y d :: nat
  assumes "d dvd a + x" "d dvd a + y" "x \<le> y" "x \<noteq> y"
  shows "x + d \<le> y"
proof -
  have "d dvd y - x" using dvd_diff_nat [OF assms(2,1)] by simp
  then show ?thesis using assms(3,4) dvd_imp_le [of d "y - x"] by simp
qed

lemma range_page_facts:
  assumes "range_ok r"
  shows "range_start r div 4096 * 4096 = range_start r" "range_start r div 4096 + range_pages r < 2 ^ 52"
    "unat (drop_bit 12 (mr_physical_base r)) = range_start r div 4096"
proof -
  show "range_start r div 4096 * 4096 = range_start r" using assms by (simp add: range_ok_def)
  moreover have "range_start r + range_pages r * 4096 < 2 ^ 52 * 4096" using assms by (simp add: range_ok_def range_end_def)
  ultimately have "(range_start r div 4096 + range_pages r) * 4096 < 2 ^ 52 * 4096" by (simp only: distrib_right)
  then show "range_start r div 4096 + range_pages r < 2 ^ 52" by (simp only: mult_less_cancel2)
  show "unat (drop_bit 12 (mr_physical_base r)) = range_start r div 4096" by (simp add: unat_drop_bit range_start_def)
qed

lemma allocate_scan_step:
  assumes m: "manager_ok m" and split: "live_ranges (pmm_inventory m) = us @ r # vs"
    and start: "unat metadata_start = total_pages us" and n: "req_page_count req \<noteq> 0"
    and al: "unat (req_alignment_pages req) dvd range_start r div 4096 + unat c"
    and page: "unat page = range_start r div 4096 + unat c"
  shows "allocate_scan m r metadata_start req c page =
    (if unat c + unat (req_page_count req) \<le> range_pages r \<and>
        (range_start r div 4096 + unat c) * 4096 + unat (req_page_count req) * 4096 \<le> unat (req_maximum_physical_address req) + 1
     then (if free_slot m r req (unat c)
           then Some (Inr (push_bit 12 page, mark_allocated m (metadata_start + c) (req_page_count req) (req_owner req)))
           else allocate_scan m r metadata_start req (c + req_alignment_pages req) (page + req_alignment_pages req))
     else Some (Inl ZI_STATUS_NOT_FOUND))"
    and "unat c + unat (req_page_count req) \<le> range_pages r \<Longrightarrow>
      unat (push_bit 12 page) = (range_start r div 4096 + unat c) * 4096 \<and> unat (metadata_start + c) = total_pages us + unat c"
proof -
  let ?f = "range_start r div 4096" and ?n = "unat (req_page_count req)"
  have r: "range_ok r" using inventory_okD(1) [OF manager_okD(1) [OF m]] split by simp
  note facts = range_page_facts [OF r]
  have n': "0 < ?n" using n by (simp add: unat_gt_0)
  have cond: "c < mr_page_count r \<and> req_page_count req \<le> mr_page_count r - c \<longleftrightarrow> unat c + ?n \<le> range_pages r"
  proof (cases "c < mr_page_count r")
    case True
    then have "unat (mr_page_count r - c) = range_pages r - unat c" by (simp add: unat_sub range_pages_def less_imp_le)
    moreover have "unat c < range_pages r" using True by (simp only: range_pages_def word_less_nat_alt)
    ultimately have "req_page_count req \<le> mr_page_count r - c \<longleftrightarrow> unat c + ?n \<le> range_pages r"
      unfolding word_le_nat_alt by linarith
    with True show ?thesis by blast
  next
    case False
    then have "range_pages r \<le> unat c" by (simp only: range_pages_def word_less_nat_alt not_less)
    with False n' show ?thesis by linarith
  qed
  have words: "unat (push_bit 12 page) = (?f + unat c) * 4096" "unat (push_bit 12 (req_page_count req)) = ?n * 4096"
    "unat (metadata_start + c) = total_pages us + unat c" if fit: "unat c + ?n \<le> range_pages r"
  proof -
    have "unat page * 2 ^ 12 < 2 ^ 64" "?n * 2 ^ 12 < 2 ^ 64" using facts(2) fit page by simp_all
    then show "unat (push_bit 12 page) = (?f + unat c) * 4096" "unat (push_bit 12 (req_page_count req)) = ?n * 4096"
      by (simp_all add: unat_push_bit page)
    have "total_pages us + range_pages r < 2 ^ 64"
      using inventory_okD(6) [OF manager_okD(1) [OF m]] by (simp add: split total_pages_def)
    then show "unat (metadata_start + c) = total_pages us + unat c"
      using fit by (subst unat_u64_add) (simp_all add: start)
  qed
  show "unat c + ?n \<le> range_pages r \<Longrightarrow> unat (push_bit 12 page) = (?f + unat c) * 4096 \<and>
      unat (metadata_start + c) = total_pages us + unat c" using words by blast
  show "allocate_scan m r metadata_start req c page =
    (if unat c + ?n \<le> range_pages r \<and> (?f + unat c) * 4096 + ?n * 4096 \<le> unat (req_maximum_physical_address req) + 1
     then (if free_slot m r req (unat c)
           then Some (Inr (push_bit 12 page, mark_allocated m (metadata_start + c) (req_page_count req) (req_owner req)))
           else allocate_scan m r metadata_start req (c + req_alignment_pages req) (page + req_alignment_pages req))
     else Some (Inl ZI_STATUS_NOT_FOUND))"
  proof (cases "unat c + ?n \<le> range_pages r")
    case True
    note w = words [OF True]
    have "unat (push_bit 12 page) + unat (push_bit 12 (req_page_count req)) < 2 ^ 64"
      unfolding w using facts(2) True by simp
    then have limit: "req_maximum_physical_address req < push_bit 12 page \<or>
        req_maximum_physical_address req - push_bit 12 page < push_bit 12 (req_page_count req) - 1 \<longleftrightarrow>
      \<not> (?f + unat c) * 4096 + ?n * 4096 \<le> unat (req_maximum_physical_address req) + 1"
      using limit_word [of "push_bit 12 (req_page_count req)" "push_bit 12 page"] n' unfolding w by simp
    have "run_at (frames (live_ranges (pmm_inventory m))) (unat (metadata_start + c)) (?f + unat c) ?n"
      unfolding split w by (rule run_at_range [OF True])
    from run_all_iff [OF m this] have free: "run_is_free m (metadata_start + c) (req_page_count req) \<longleftrightarrow>
        run_satisfies m (?f + unat c) ?n (\<lambda>p. pg_state p = ZI_MEMORY_PAGE_FREE)" by (simp add: run_is_free_def)
    show ?thesis
      by (subst allocate_scan.simps, unfold Let_def cond limit free)
        (simp add: True al free_slot_def mark_allocated_def)
  next
    case False
    then show ?thesis by (subst allocate_scan.simps, unfold cond) simp
  qed
qed


lemma allocate_scan_correct:
  assumes m: "manager_ok m" and split: "live_ranges (pmm_inventory m) = us @ r # vs"
    and start: "unat metadata_start = total_pages us" and n: "req_page_count req \<noteq> 0"
    and d: "0 < unat (req_alignment_pages req)" "unat (req_alignment_pages req) \<le> 2 ^ 63"
    and al: "unat (req_alignment_pages req) dvd range_start r div 4096 + unat c"
    and page: "unat page = range_start r div 4096 + unat c"
  shows "(\<exists>y w base. unat c \<le> y \<and> free_slot m r req y \<and> unat base = (range_start r div 4096 + y) * 4096 \<and>
      unat w = total_pages us + y \<and>
      allocate_scan m r metadata_start req c page = Some (Inr (base, mark_allocated m w (req_page_count req) (req_owner req)))) \<or>
    allocate_scan m r metadata_start req c page = Some (Inl ZI_STATUS_NOT_FOUND) \<and> (\<forall>y. unat c \<le> y \<longrightarrow> \<not> free_slot m r req y)"
  using al page
proof (induction "range_pages r - unat c" arbitrary: c page rule: less_induct)
  case less
  let ?f = "range_start r div 4096" and ?n = "unat (req_page_count req)" and ?d = "unat (req_alignment_pages req)"
  let ?fit = "unat c + ?n \<le> range_pages r \<and> (?f + unat c) * 4096 + ?n * 4096 \<le> unat (req_maximum_physical_address req) + 1"
  note step = allocate_scan_step [OF m split start n less.prems]
  have r: "range_ok r" using inventory_okD(1) [OF manager_okD(1) [OF m]] split by simp
  have n': "0 < ?n" using n by (simp add: unat_gt_0)
  consider "\<not> ?fit" | "?fit" "free_slot m r req (unat c)" | "?fit" "\<not> free_slot m r req (unat c)" by blast
  then show ?case
  proof cases
    case 1
    then have "\<not> free_slot m r req y" if "unat c \<le> y" for y using that by (auto simp: free_slot_def)
    with 1 show ?thesis unfolding step(1) by auto
  next
    case 2
    with step(2) show ?thesis unfolding step(1) by auto
  next
    case 3
    have "unat c < 2 ^ 52" "?f + unat c < 2 ^ 52" using range_page_facts(2) [OF r] conjunct1 [OF 3(1)] by linarith+
    then have c': "unat (c + req_alignment_pages req) = unat c + ?d" and p': "unat (page + req_alignment_pages req) = ?f + (unat c + ?d)"
      using d(2) by (subst unat_u64_add, simp_all add: less.prems(2))+
    have smaller: "range_pages r - unat (c + req_alignment_pages req) < range_pages r - unat c"
      using 3(1) n' d(1) unfolding c' by linarith
    have next': "?d dvd ?f + unat (c + req_alignment_pages req)" "unat (page + req_alignment_pages req) = ?f + unat (c + req_alignment_pages req)"
      using less.prems(1) unfolding c' p' by (simp_all add: add.assoc [symmetric])
    have "\<not> free_slot m r req y" if "unat c \<le> y" "\<not> unat c + ?d \<le> y" for y
      using aligned_next [OF less.prems(1) _ that(1)] that 3(2) by (auto simp: free_slot_def)
    with less.hyps [OF smaller next'] 3 show ?thesis unfolding step(1) c' by (auto dest: add_leD1)
  qed
qed

lemma allocate_from_range_correct:
  assumes m: "manager_ok m" and split: "live_ranges (pmm_inventory m) = us @ r # vs"
    and start: "unat metadata_start = total_pages us" and n: "req_page_count req \<noteq> 0"
    and k: "k < 64" "req_alignment_pages req = 2 ^ k"
  shows "(\<exists>y w base. mr_type r = ZI_BOOT_MEMORY_USABLE \<and> free_slot m r req y \<and> unat base = (range_start r div 4096 + y) * 4096 \<and>
      unat w = total_pages us + y \<and>
      allocate_from_range m r metadata_start req = Some (Inr (base, mark_allocated m w (req_page_count req) (req_owner req)))) \<or>
    allocate_from_range m r metadata_start req = Some (Inl ZI_STATUS_NOT_FOUND) \<and>
      (mr_type r = ZI_BOOT_MEMORY_USABLE \<longrightarrow> (\<forall>y. \<not> free_slot m r req y))"
proof (cases "mr_type r \<noteq> ZI_BOOT_MEMORY_USABLE \<or> mr_page_count r < req_page_count req")
  case True
  then have "\<not> free_slot m r req y" if "mr_type r = ZI_BOOT_MEMORY_USABLE" for y
    using that by (auto simp: free_slot_def word_less_nat_alt range_pages_def)
  with True show ?thesis by (auto simp: allocate_from_range_def)
next
  case False
  let ?f = "range_start r div 4096"
  let ?page = "drop_bit 12 (mr_physical_base r)"
  define up where "up = (?f + (2 ^ k - 1)) div 2 ^ k * 2 ^ k"
  have r: "range_ok r" using inventory_okD(1) [OF manager_okD(1) [OF m]] split by simp
  note facts = range_page_facts [OF r]
  have d: "unat (req_alignment_pages req) = 2 ^ k" using k by (simp add: unat_power_of_two)
  have k63: "(2 :: nat) ^ k \<le> 2 ^ 63" using k(1) by (intro power_increasing) auto
  have fits: "?f + (2 ^ k - 1) < 2 ^ 64" using facts(2) k63 by simp
  have "(0 :: nat) < 2 ^ k" by simp
  note up = align_up_least [OF this, where s = ?f, folded up_def]
  define c where "c = (?page + (2 ^ k - 1)) AND NOT (2 ^ k - 1)"
  have c: "unat c = up" using unat_align_up [of ?page k] fits k(1) by (simp add: c_def up_def facts(3))
  have diff: "unat (c - ?page) = up - ?f" using up(2) by (subst unat_sub) (simp_all add: word_le_nat_alt c facts(3))
  have "unat (2 ^ k - 1 :: u64) = 2 ^ k - 1" using unat_minus_one [of "2 ^ k :: u64"] d k by auto
  then have "\<not> UINT64_MAX - (2 ^ k - 1) < ?page" using fits unfolding u64_sum_overflows facts(3) by simp
  then have eq: "allocate_from_range m r metadata_start req = allocate_scan m r metadata_start req (c - ?page) c"
    using False by (simp add: allocate_from_range_def Let_def k(2) c_def)
  have "unat (req_alignment_pages req) dvd ?f + unat (c - ?page)" "unat c = ?f + unat (c - ?page)"
    using up(1,2) by (simp_all add: d diff c)
  note scan = allocate_scan_correct [OF m split start n _ _ this]
  have "up - ?f \<le> y" if "free_slot m r req y" for y
    using that up(3) [of "?f + y"] by (auto simp: free_slot_def d)
  with scan d k63 False show ?thesis unfolding eq diff by (auto simp: d)
qed

lemma allocate_loop_correct:
  assumes m: "manager_ok m" and n: "req_page_count req \<noteq> 0" and k: "k < 64" "req_alignment_pages req = 2 ^ k"
    and split: "live_ranges (pmm_inventory m) = us @ rs" and start: "unat metadata_start = total_pages us"
  shows "(\<exists>us' r vs y w base. live_ranges (pmm_inventory m) = us' @ r # vs \<and> mr_type r = ZI_BOOT_MEMORY_USABLE \<and> free_slot m r req y \<and>
      unat base = (range_start r div 4096 + y) * 4096 \<and> unat w = total_pages us' + y \<and>
      allocate_loop m rs metadata_start req = Some (Inr (base, mark_allocated m w (req_page_count req) (req_owner req)))) \<or>
    allocate_loop m rs metadata_start req = Some (Inl ZI_STATUS_NO_MEMORY) \<and>
      (\<forall>r \<in> set rs. mr_type r = ZI_BOOT_MEMORY_USABLE \<longrightarrow> (\<forall>y. \<not> free_slot m r req y))"
  using split start
proof (induction rs arbitrary: us metadata_start)
  case (Cons r rs)
  from allocate_from_range_correct [OF m Cons.prems(1,2) n k] show ?case
  proof (elim disjE exE conjE)
    fix y w base
    assume "mr_type r = ZI_BOOT_MEMORY_USABLE" "free_slot m r req y" "unat base = (range_start r div 4096 + y) * 4096"
      "unat w = total_pages us + y"
      "allocate_from_range m r metadata_start req = Some (Inr (base, mark_allocated m w (req_page_count req) (req_owner req)))"
    then show ?case using Cons.prems(1)
      by (intro disjI1 exI [of _ us] exI [of _ r] exI [of _ rs] exI [of _ y] exI [of _ w] exI [of _ base]) simp
  next
    assume none: "allocate_from_range m r metadata_start req = Some (Inl ZI_STATUS_NOT_FOUND)"
      "mr_type r = ZI_BOOT_MEMORY_USABLE \<longrightarrow> (\<forall>y. \<not> free_slot m r req y)"
    have "total_pages us + range_pages r < 2 ^ 64"
      using inventory_okD(6) [OF manager_okD(1) [OF m]] by (simp add: Cons.prems(1) total_pages_def)
    then have next': "unat (metadata_start + mr_page_count r) = total_pages (us @ [r])"
      by (subst unat_u64_add) (simp_all add: Cons.prems(2) total_pages_def range_pages_def)
    have "live_ranges (pmm_inventory m) = (us @ [r]) @ rs" using Cons.prems(1) by simp
    from Cons.IH [OF this next'] none show ?case by simp
  qed
qed simp


definition available :: "ZiPhysicalMemoryManager \<Rightarrow> nat \<Rightarrow> nat \<Rightarrow> nat \<Rightarrow> nat \<Rightarrow> bool" where
  "available m n alignment limit c \<longleftrightarrow>
     (\<exists>r \<in> set (live_ranges (pmm_inventory m)). usable_run r (alignment * 4096) n c) \<and> c + n * 4096 \<le> limit + 1 \<and>
     run_satisfies m (c div 4096) n (\<lambda>p. pg_state p = ZI_MEMORY_PAGE_FREE)"

lemma free_slot_available:
  assumes m: "manager_ok m" and r: "r \<in> set (live_ranges (pmm_inventory m))" "mr_type r = ZI_BOOT_MEMORY_USABLE" and slot: "free_slot m r req y"
  shows "available m (unat (req_page_count req)) (unat (req_alignment_pages req)) (unat (req_maximum_physical_address req))
    ((range_start r div 4096 + y) * 4096)"
proof -
  have "range_ok r" using inventory_okD(1) [OF manager_okD(1) [OF m]] r(1) by blast
  note f = range_page_facts(1) [OF this]
  have "unat (req_alignment_pages req) * 4096 dvd (range_start r div 4096 + y) * 4096"
    using slot by (intro mult_dvd_mono) (simp_all add: free_slot_def)
  then have "usable_run r (unat (req_alignment_pages req) * 4096) (unat (req_page_count req)) ((range_start r div 4096 + y) * 4096)"
    using slot r(2) f by (simp add: usable_run_def free_slot_def range_end_def distrib_right)
  with slot r(1) show ?thesis by (auto simp: available_def free_slot_def)
qed

lemma available_free_slot:
  assumes m: "manager_ok m"
    and av: "available m (unat (req_page_count req)) (unat (req_alignment_pages req)) (unat (req_maximum_physical_address req)) c"
  obtains r y where "r \<in> set (live_ranges (pmm_inventory m))" "mr_type r = ZI_BOOT_MEMORY_USABLE" "free_slot m r req y"
proof -
  let ?d = "unat (req_alignment_pages req)" and ?n = "unat (req_page_count req)"
  from av obtain r where r: "r \<in> set (live_ranges (pmm_inventory m))" "usable_run r (?d * 4096) ?n c" by (auto simp: available_def)
  have "range_ok r" using inventory_okD(1) [OF manager_okD(1) [OF m]] r(1) by blast
  note f = range_page_facts(1) [OF this]
  let ?f = "range_start r div 4096"
  have "?d * 4096 dvd c" using r(2) by (simp add: usable_run_def)
  then obtain q where "c = ?d * 4096 * q" by (rule dvdE)
  then have q: "c = ?d * q * 4096" by simp
  have le: "?f \<le> ?d * q" using r(2) f unfolding usable_run_def q by linarith
  have "free_slot m r req (?d * q - ?f)"
    using av r(2) le f unfolding free_slot_def available_def usable_run_def range_end_def q by auto
  with r that show ?thesis by (auto simp: usable_run_def)
qed

lemma run_free_count:
  assumes m: "manager_ok m" and run: "run_at (frames (live_ranges (pmm_inventory m))) i f n"
    and free: "run_satisfies m f n (\<lambda>p. pg_state p = s)"
  shows "n \<le> state_count s (pmm_pages m)"
proof -
  note D = manager_okD [OF m]
  have le: "i + n \<le> length (pmm_pages m)" using run D(3) by (simp add: run_at_def)
  have all: "\<forall>p \<in> set (take n (drop i (pmm_pages m))). pg_state p = s"
    using free unfolding run_satisfies_def manager_map_def frame_map_run [OF D(2,3) run, symmetric] .
  have "pmm_pages m = take i (pmm_pages m) @ take n (drop i (pmm_pages m)) @ drop (i + n) (pmm_pages m)"
    by (metis append_take_drop_id drop_drop add.commute)
  from arg_cong [OF this, of "state_count s"] state_count_uniform [OF all, of s] le show ?thesis by simp
qed

lemma free_slot_run:
  assumes "live_ranges (pmm_inventory m) = us @ r # vs" "free_slot m r req y"
  shows "run_at (frames (live_ranges (pmm_inventory m))) (total_pages us + y) (range_start r div 4096 + y) (unat (req_page_count req))"
  using assms run_at_range [of y "unat (req_page_count req)" r us vs] by (simp add: free_slot_def)

lemma available_count:
  fixes n alignment limit :: u64
  assumes m: "manager_ok m" and av: "available m (unat n) (unat alignment) (unat limit) c"
  shows "n \<le> st_free_pages (pmm_statistics m)" "n \<le> pmm_metadata_page_count m"
proof -
  define req where "req = \<lparr>req_page_count = n, req_alignment_pages = alignment, req_maximum_physical_address = limit, req_owner = 0\<rparr>"
  have "available m (unat (req_page_count req)) (unat (req_alignment_pages req)) (unat (req_maximum_physical_address req)) c"
    using av by (simp add: req_def)
  then obtain r y where r: "r \<in> set (live_ranges (pmm_inventory m))" "free_slot m r req y" by (rule available_free_slot [OF m])
  then obtain us vs where split: "live_ranges (pmm_inventory m) = us @ r # vs" by (metis split_list)
  have "unat n \<le> state_count ZI_MEMORY_PAGE_FREE (pmm_pages m)"
    using run_free_count [OF m free_slot_run [OF split r(2)]] r(2) by (simp add: free_slot_def req_def)
  moreover have "unat (pmm_metadata_page_count m) = length (pmm_pages m)"
    using m inventory_okD(5) [OF manager_okD(1) [OF m]] by (simp add: manager_ok_def)
  ultimately show "n \<le> st_free_pages (pmm_statistics m)" "n \<le> pmm_metadata_page_count m"
    using m state_count_le [of ZI_MEMORY_PAGE_FREE "pmm_pages m"]
    by (simp_all add: manager_ok_def statistics_ok_def word_le_nat_alt)
qed

definition allocation_guard :: "u64 \<Rightarrow> u64 \<Rightarrow> u64 \<Rightarrow> u32 \<Rightarrow> bool" where
  "allocation_guard n alignment limit owner \<longleftrightarrow>
     n \<noteq> 0 \<and> alignment \<noteq> 0 \<and> alignment AND (alignment - 1) = 0 \<and> allocation_owner_is_valid owner \<and> 0xfff \<le> limit"

lemma allocate_below_cases:
  assumes m: "manager_ok m" and guard: "allocation_guard n alignment limit owner"
  obtains (found) w base where
      "zi_pmm_allocate_below m n alignment limit owner = Some (Inr (base, mark_allocated m w n owner))"
      "available m (unat n) (unat alignment) (unat limit) (unat base)" "4096 dvd unat base" "in_memory m base n"
      "run_at (frames (live_ranges (pmm_inventory m))) (unat w) (unat base div 4096) (unat n)"
      "run_satisfies m (unat base div 4096) (unat n) (\<lambda>p. pg_state p = ZI_MEMORY_PAGE_FREE)"
  | (missing) "zi_pmm_allocate_below m n alignment limit owner = Some (Inl ZI_STATUS_NO_MEMORY)"
      "\<And>c. \<not> available m (unat n) (unat alignment) (unat limit) c"
proof -
  define req where "req = \<lparr>req_page_count = n, req_alignment_pages = alignment, req_maximum_physical_address = limit, req_owner = owner\<rparr>"
  have req: "req_page_count req = n" "req_alignment_pages req = alignment" "req_maximum_physical_address req = limit" "req_owner req = owner"
    by (simp_all add: req_def)
  have g: "n \<noteq> 0" "\<not> limit < 0xfff" "pmm_pages m \<noteq> []" using guard manager_okD(5) [OF m] by (auto simp: allocation_guard_def)
  have body: "zi_pmm_allocate_below m n alignment limit owner =
      (if st_free_pages (pmm_statistics m) < n \<or> pmm_metadata_page_count m < n then Some (Inl ZI_STATUS_NO_MEMORY)
       else allocate_loop m (live_ranges (pmm_inventory m)) 0 req)"
    using guard g unfolding allocation_guard_def zi_pmm_allocate_below_def live_ranges_def req_def by simp
  show ?thesis
  proof (cases "st_free_pages (pmm_statistics m) < n \<or> pmm_metadata_page_count m < n")
    case True
    then have "\<not> available m (unat n) (unat alignment) (unat limit) c" for c using available_count [OF m] by (metis not_le)
    with True body show ?thesis by (intro missing) simp_all
  next
    case False
    obtain k where k: "k < 64" "alignment = 2 ^ k"
      using guard power_of_two_guard [of alignment] by (auto simp: allocation_guard_def)
    have "req_page_count req \<noteq> 0" "req_alignment_pages req = 2 ^ k" using g k by (simp_all add: req)
    moreover have "unat (0 :: u64) = total_pages []" by (simp add: total_pages_def)
    ultimately have "(\<exists>us r vs y w base. live_ranges (pmm_inventory m) = us @ r # vs \<and> mr_type r = ZI_BOOT_MEMORY_USABLE \<and>
        free_slot m r req y \<and> unat base = (range_start r div 4096 + y) * 4096 \<and> unat w = total_pages us + y \<and>
        allocate_loop m (live_ranges (pmm_inventory m)) 0 req =
          Some (Inr (base, mark_allocated m w (req_page_count req) (req_owner req)))) \<or>
      allocate_loop m (live_ranges (pmm_inventory m)) 0 req = Some (Inl ZI_STATUS_NO_MEMORY) \<and>
        (\<forall>r \<in> set (live_ranges (pmm_inventory m)). mr_type r = ZI_BOOT_MEMORY_USABLE \<longrightarrow> (\<forall>y. \<not> free_slot m r req y))"
      using allocate_loop_correct [OF m _ k(1), of req "[]" "live_ranges (pmm_inventory m)" 0] by simp
    then show ?thesis
    proof (elim disjE exE conjE)
      fix us r vs y w base
      assume split: "live_ranges (pmm_inventory m) = us @ r # vs" and r: "mr_type r = ZI_BOOT_MEMORY_USABLE" "free_slot m r req y"
        and base: "unat base = (range_start r div 4096 + y) * 4096" "unat w = total_pages us + y"
        and result: "allocate_loop m (live_ranges (pmm_inventory m)) 0 req =
          Some (Inr (base, mark_allocated m w (req_page_count req) (req_owner req)))"
      have av: "available m (unat n) (unat alignment) (unat limit) (unat base)"
        using free_slot_available [OF m _ r] by (simp add: split req base)
      have frame: "unat base div 4096 = range_start r div 4096 + y" by (simp add: base)
      have "in_memory m base n" using av g(1) by (auto simp: in_memory_def available_def usable_run_def run_in_range_def unat_gt_0 base)
      moreover have "run_at (frames (live_ranges (pmm_inventory m))) (unat w) (unat base div 4096) (unat n)"
        using free_slot_run [OF split r(2)] unfolding frame base(2) req .
      ultimately show ?thesis using av result False body
        by (intro found [of base w]) (simp_all add: req available_def base)
    next
      assume "allocate_loop m (live_ranges (pmm_inventory m)) 0 req = Some (Inl ZI_STATUS_NO_MEMORY)"
        and none: "\<forall>r \<in> set (live_ranges (pmm_inventory m)). mr_type r = ZI_BOOT_MEMORY_USABLE \<longrightarrow> (\<forall>y. \<not> free_slot m r req y)"
      then have "zi_pmm_allocate_below m n alignment limit owner = Some (Inl ZI_STATUS_NO_MEMORY)" using False body by simp
      moreover have "\<not> available m (unat n) (unat alignment) (unat limit) c" for c
        using available_free_slot [OF m, of req c] none unfolding req by blast
      ultimately show ?thesis by (rule missing)
    qed
  qed
qed

lemma mark_allocated_ok:
  assumes m: "manager_ok m" and run: "run_at (frames (live_ranges (pmm_inventory m))) (unat w) (unat base div 4096) (unat n)"
    and free: "run_satisfies m (unat base div 4096) (unat n) (\<lambda>p. pg_state p = ZI_MEMORY_PAGE_FREE)"
  shows "manager_ok (mark_allocated m w n owner)" "pmm_inventory (mark_allocated m w n owner) = pmm_inventory m"
    "manager_map (mark_allocated m w n owner) =
      map_run (manager_map m) base n (\<lambda>p. p\<lparr>pg_state := ZI_MEMORY_PAGE_ALLOCATED, pg_owner := ucast owner\<rparr>)"
  using changed_manager_ok [OF m run free, of "\<lambda>p. p\<lparr>pg_state := ZI_MEMORY_PAGE_ALLOCATED, pg_owner := ucast owner\<rparr>",
      OF _ statistics_move(2) [OF m]]
  unfolding mark_allocated_def by (simp_all add: page_ok_def)


lemma allocation_owner_byte: "allocation_owner_is_valid owner \<Longrightarrow> ucast (ucast owner :: byte) = owner"
proof -
  assume "allocation_owner_is_valid owner"
  then have "unat owner < 2 ^ 8" by (auto simp: allocation_owner_is_valid_def word_le_nat_alt)
  then have "take_bit 8 (unat owner) = unat owner" by (rule take_bit_nat_eq_self)
  then show ?thesis by (simp add: word_unat_eq_iff unsigned_ucast_eq unsigned_take_bit_eq)
qed

lemma free_marked:
  assumes m: "manager_ok m" and run: "run_at (frames (live_ranges (pmm_inventory m))) (unat w) (unat base div 4096) (unat n)"
    and free: "run_satisfies m (unat base div 4096) (unat n) (\<lambda>p. pg_state p = ZI_MEMORY_PAGE_FREE)"
    and mem: "in_memory (mark_allocated m w n owner) base n"
    and owner: "allocation_owner_is_valid owner" "ucast (ucast owner :: byte) = owner" and n: "0 < unat n"
  shows "zi_pmm_free (mark_allocated m w n owner) base n owner = (ZI_STATUS_SUCCESS, m)"
proof -
  note D = manager_okD [OF m]
  let ?m = "mark_allocated m w n owner" and ?i = "unat w" and ?n = "unat n"
  let ?g = "\<lambda>page :: ZiPhysicalPageMetadata. page\<lparr>pg_state := ZI_MEMORY_PAGE_ALLOCATED, pg_owner := ucast owner\<rparr>"
  let ?h = "\<lambda>page :: ZiPhysicalPageMetadata. page\<lparr>pg_state := ZI_MEMORY_PAGE_FREE, pg_owner := ucast ZI_MEMORY_OWNER_NONE\<rparr>"
  note ok = mark_allocated_ok [OF m run free, of owner]
  have le: "?i + ?n \<le> length (pmm_pages m)" using run D(3) by (simp add: run_at_def)
  have small: "length (pmm_pages m) < 2 ^ 64" using D(4) by simp
  have marked: "pmm_pages ?m = take ?i (pmm_pages m) @ map ?g (take ?n (drop ?i (pmm_pages m))) @ drop (?i + ?n) (pmm_pages m)"
    using page_run_slice(2) [OF le small] by (simp add: mark_allocated_def)
  have le': "?i + ?n \<le> length (pmm_pages ?m)" and small': "length (pmm_pages ?m) < 2 ^ 64" using le small by (simp_all add: marked)
  obtain w' where w': "locate_page_interval ?m base n = Inr w'"
    "run_at (frames (live_ranges (pmm_inventory m))) (unat w') (unat base div 4096) ?n"
    using locate_cases [OF ok(1), of base n] mem ok(2) by metis
  have "unat w' = ?i" using run_at_unique [OF D(2) w'(2) run n] .
  then have w: "w' = w" by (simp add: word_unat_eq_iff)
  have slice: "take ?n (drop ?i (pmm_pages ?m)) = map ?g (take ?n (drop ?i (pmm_pages m)))" using le by (simp add: marked)
  have all: "page_run_all (pmm_pages ?m) w ?n (\<lambda>page. pg_state page = ZI_MEMORY_PAGE_ALLOCATED \<and> ucast (pg_owner page) = owner)"
    unfolding page_run_slice(1) [OF le' small'] slice by (simp add: owner(2))
  have "\<forall>p \<in> set (take ?n (drop ?i (pmm_pages m))). pg_state p = ZI_MEMORY_PAGE_FREE"
    using free unfolding run_satisfies_def manager_map_def frame_map_run [OF D(2,3) run, symmetric] .
  moreover have "\<forall>p \<in> set (pmm_pages m). page_ok p" using m by (simp add: manager_ok_def)
  moreover have "?h (?g p) = p" if "pg_state p = ZI_MEMORY_PAGE_FREE" "page_ok p" for p
    using that by (cases p) (simp add: page_ok_def)
  ultimately have "\<forall>p \<in> set (take ?n (drop ?i (pmm_pages m))). ?h (?g p) = p" by (metis in_set_takeD in_set_dropD)
  then have "map ?h (map ?g (take ?n (drop ?i (pmm_pages m)))) = take ?n (drop ?i (pmm_pages m))" by (simp add: map_idI)
  then have restored: "page_run_update (pmm_pages ?m) w ?n ?h = pmm_pages m"
    unfolding page_run_slice(2) [OF le' small'] slice using le
    by (simp add: marked) (metis append_take_drop_id drop_drop add.commute)
  have "zi_pmm_free ?m base n owner = (ZI_STATUS_SUCCESS,
      ?m\<lparr>pmm_pages := pmm_pages m, pmm_statistics := pmm_statistics m\<rparr>)"
    using w'(1) all restored owner(1) manager_okD(5) [OF ok(1)] by (simp add: zi_pmm_free_def w) (simp add: mark_allocated_def)
  then show ?thesis by (simp add: mark_allocated_def)
qed

section \<open>Steps of the manager\<close>

text \<open>The operations as the steps of a transition system; a refused operation changes nothing.\<close>

inductive pmm_step :: "ZiPhysicalMemoryManager \<Rightarrow> ZiPhysicalMemoryManager \<Rightarrow> bool" where
  reserve: "zi_pmm_reserve m base n owner = (status, m') \<Longrightarrow> pmm_step m m'"
| reassign: "zi_pmm_reassign_reserved m base n expected new_owner = (status, m') \<Longrightarrow> pmm_step m m'"
| allocate: "zi_pmm_allocate_below m n alignment limit owner = Some (Inr (base, m')) \<Longrightarrow> pmm_step m m'"
| free: "zi_pmm_free m base n owner = (status, m') \<Longrightarrow> pmm_step m m'"

lemma allocate_below_guard:
  assumes "zi_pmm_allocate_below m n alignment limit owner = Some (Inr result)"
  shows "allocation_guard n alignment limit owner"
  using assms by (auto simp: zi_pmm_allocate_below_def allocation_guard_def not_less split: if_splits)

lemma pmm_step_ok:
  assumes "pmm_step m m'" "manager_ok m"
  shows "manager_ok m' \<and> pmm_inventory m' = pmm_inventory m"
  using assms
proof cases
  case (reserve base n owner status)
  with zi_pmm_reserve_correct [OF assms(2), of owner base n] assms(2) show ?thesis by (auto split: if_splits)
next
  case (reassign base n expected new_owner status)
  with zi_pmm_reassign_reserved_correct [OF assms(2), of expected new_owner base n] assms(2) show ?thesis by (auto split: if_splits)
next
  case (allocate n alignment limit owner base)
  from assms(2) allocate_below_guard [OF allocate] show ?thesis
  proof (cases rule: allocate_below_cases)
    case (found w b)
    then have "m' = mark_allocated m w n owner" using allocate by simp
    with mark_allocated_ok(1,2) [OF assms(2) found(5,6)] show ?thesis by simp
  qed (use allocate in simp)
next
  case (free base n owner status)
  with zi_pmm_free_correct [OF assms(2), of owner base n] assms(2) show ?thesis by (auto split: if_splits)
qed

section \<open>Allocators of disjoint blocks\<close>

text \<open>
  The contract of an allocator: a block comes out of the free resources, and what is left is the rest.
  Blocks that are allocated one after the other are then disjoint.
\<close>

fun allocate_all :: "('r \<Rightarrow> 'm \<Rightarrow> (nat set \<times> 'm) option) \<Rightarrow> 'r list \<Rightarrow> 'm \<Rightarrow> (nat set list \<times> 'm) option" where
  "allocate_all take_block [] m = Some ([], m)"
| "allocate_all take_block (r # rs) m =
     (case take_block r m of
        None \<Rightarrow> None
      | Some (block, m1) \<Rightarrow>
          (case allocate_all take_block rs m1 of
             None \<Rightarrow> None
           | Some (blocks, m2) \<Rightarrow> Some (block # blocks, m2)))"

locale block_allocator =
  fixes valid :: "'m \<Rightarrow> bool" and available_blocks :: "'m \<Rightarrow> nat set" and take_block :: "'r \<Rightarrow> 'm \<Rightarrow> (nat set \<times> 'm) option"
  assumes take_block_law: "valid m \<Longrightarrow> take_block r m = Some (block, m') \<Longrightarrow>
    valid m' \<and> block \<subseteq> available_blocks m \<and> available_blocks m' = available_blocks m - block"
begin

lemma blocks_disjoint:
  "valid m \<Longrightarrow> allocate_all take_block rs m = Some (blocks, m') \<Longrightarrow>
   valid m' \<and> (\<forall>b \<in> set blocks. b \<subseteq> available_blocks m) \<and> sorted_wrt (\<lambda>a b. a \<inter> b = {}) blocks \<and>
   available_blocks m' = available_blocks m - \<Union> (set blocks)"
proof (induction rs arbitrary: m blocks)
  case (Cons r rs)
  then obtain block m1 blocks1 where step: "take_block r m = Some (block, m1)" "allocate_all take_block rs m1 = Some (blocks1, m')"
    "blocks = block # blocks1" by (auto split: option.splits)
  with take_block_law [OF Cons.prems(1) step(1)] Cons.IH [of m1 blocks1] show ?case by auto
qed simp

end

definition free_frames :: "ZiPhysicalMemoryManager \<Rightarrow> nat set" where
  "free_frames m = {f. \<exists>p. manager_map m f = Some p \<and> pg_state p = ZI_MEMORY_PAGE_FREE}"

definition frame_block :: "u64 \<Rightarrow> u64 \<Rightarrow> nat set" where
  "frame_block base n = {unat base div 4096 ..< unat base div 4096 + unat n}"

definition pmm_take :: "u64 \<times> u64 \<times> u64 \<times> u32 \<Rightarrow> ZiPhysicalMemoryManager \<Rightarrow> (nat set \<times> ZiPhysicalMemoryManager) option" where
  "pmm_take r m =
     (case r of (n, alignment, limit, owner) \<Rightarrow>
        (case zi_pmm_allocate_below m n alignment limit owner of
           Some (Inr (base, m')) \<Rightarrow> Some (frame_block base n, m')
         | _ \<Rightarrow> None))"

lemma pmm_take_law:
  assumes m: "manager_ok m" and taken: "pmm_take r m = Some (block, m')"
  shows "manager_ok m' \<and> block \<subseteq> free_frames m \<and> free_frames m' = free_frames m - block"
proof -
  obtain n alignment limit owner base where r: "r = (n, alignment, limit, owner)"
    and result: "zi_pmm_allocate_below m n alignment limit owner = Some (Inr (base, m'))" and block: "block = frame_block base n"
    using taken by (cases r) (auto simp: pmm_take_def split: option.splits sum.splits prod.splits)
  from m allocate_below_guard [OF result] show ?thesis
  proof (cases rule: allocate_below_cases)
    case (found w b)
    with result have eq: "b = base" "m' = mark_allocated m w n owner" by simp_all
    note ok = mark_allocated_ok [OF m found(5,6), of owner]
    have "block \<subseteq> free_frames m" using found(6) unfolding eq block frame_block_def free_frames_def run_satisfies_def by auto
    moreover have "free_frames m' = free_frames m - block"
      unfolding eq(2) free_frames_def ok(3) block frame_block_def map_run_def eq(1) by auto
    ultimately show ?thesis using ok(1) eq(2) by blast
  qed (use result in simp)
qed

interpretation pmm_blocks: block_allocator manager_ok free_frames pmm_take
  by unfold_locales (rule pmm_take_law)

section \<open>A sample manager\<close>

definition sample_inventory :: ZiMemoryInventory where
  "sample_inventory =
     \<lparr>inv_ranges = [\<lparr>mr_physical_base = 0, mr_page_count = 1, mr_type = 1, mr_owner = ZI_MEMORY_OWNER_FIRMWARE\<rparr>,
        \<lparr>mr_physical_base = 0x1000, mr_page_count = 8, mr_type = ZI_BOOT_MEMORY_USABLE, mr_owner = ZI_MEMORY_OWNER_NONE\<rparr>],
      inv_range_count = 2, inv_range_capacity = 2, inv_maximum_physical_address = 0x9000, inv_managed_page_count = 9,
      inv_initially_usable_page_count = 8\<rparr>"

definition sample_manager :: ZiPhysicalMemoryManager where
  "sample_manager = (case zi_pmm_initialise sample_inventory (Some (replicate 18 0)) of Inr m \<Rightarrow> m)"

lemma sample_inventory_ok: "inventory_ok sample_inventory"
  by (simp add: inventory_ok_def live_ranges_def range_ok_def range_start_def range_end_def range_pages_def before_def
      total_pages_def usable_pages_def owner_for_boot_type_def separate_def sample_inventory_def)

lemma sample_manager_init: "zi_pmm_initialise sample_inventory (Some (replicate 18 0)) = Inr sample_manager"
proof -
  have "\<exists>m. zi_pmm_initialise sample_inventory (Some (replicate 18 0)) = Inr m"
    by (simp add: zi_pmm_initialise_def zi_pmm_metadata_size_def sample_inventory_def split: prod.splits)
  then show ?thesis by (auto simp: sample_manager_def)
qed

lemmas sample_manager_ok = zi_pmm_initialise_ok(1) [OF sample_inventory_ok sample_manager_init]

lemma sample_available: "available sample_manager 2 4 0xffff 0x4000"
proof -
  note init = zi_pmm_initialise_ok(2,3) [OF sample_inventory_ok sample_manager_init]
  have live: "live_ranges sample_inventory = inv_ranges sample_inventory" by (simp add: live_ranges_def sample_inventory_def)
  have fs: "frames (inv_ranges sample_inventory) = [0, 1, 2, 3, 4, 5, 6, 7, 8]"
    by (simp add: sample_inventory_def range_frames_upt range_pages_def range_start_def upt_rec)
  have eight: "replicate 8 x = [x, x, x, x, x, x, x, x]" for x :: ZiPhysicalPageMetadata by (simp add: numeral_eq_Suc)
  have ps: "initial_pages (inv_ranges sample_inventory) =
      initial_page (inv_ranges sample_inventory ! 0) # replicate 8 (initial_page (inv_ranges sample_inventory ! 1))"
    by (simp add: sample_inventory_def initial_pages_def range_pages_def)
  have page: "initial_page (inv_ranges sample_inventory ! 1) = \<lparr>pg_state = ZI_MEMORY_PAGE_FREE, pg_owner = 0\<rparr>"
    by (simp add: sample_inventory_def initial_page_def)
  have map': "manager_map sample_manager 4 = Some \<lparr>pg_state = ZI_MEMORY_PAGE_FREE, pg_owner = 0\<rparr>"
    "manager_map sample_manager 5 = Some \<lparr>pg_state = ZI_MEMORY_PAGE_FREE, pg_owner = 0\<rparr>"
    unfolding manager_map_def init live frame_map_def fs ps page eight by simp_all
  have "x = 4 \<or> x = 5" if "4 \<le> x" "x < 4 + (2 :: nat)" for x using that by linarith
  then have "run_satisfies sample_manager 4 2 (\<lambda>p. pg_state p = ZI_MEMORY_PAGE_FREE)"
    unfolding run_satisfies_def using map' by fastforce
  then show ?thesis
    unfolding available_def init live
    by (simp add: usable_run_def sample_inventory_def range_start_def range_end_def range_pages_def)
qed


section \<open>Properties\<close>

text \<open>
  C13: the statistics are exact in every reachable state. Whatever sequence of reservations, reassignments,
  allocations and frees follows initialisation, every page is free, reserved or allocated, the counters are
  the numbers of pages in each state, and they add up to the managed pages.
\<close>

theorem zi_pmm_statistics_exact:
  assumes "inventory_ok inventory" "zi_pmm_initialise inventory storage = Inr m0" "pmm_step\<^sup>*\<^sup>* m0 m"
  shows "manager_ok m \<and> pmm_inventory m = inventory \<and>
    unat (st_free_pages (zi_pmm_statistics (Some m))) + unat (st_reserved_pages (zi_pmm_statistics (Some m))) +
      unat (st_allocated_pages (zi_pmm_statistics (Some m))) = unat (st_managed_pages (zi_pmm_statistics (Some m)))"
proof -
  have "manager_ok m \<and> pmm_inventory m = inventory"
    using assms(3) by (induction rule: rtranclp_induct) (use zi_pmm_initialise_ok [OF assms(1,2)] pmm_step_ok in auto)
  moreover have "state_count ZI_MEMORY_PAGE_FREE ps + state_count ZI_MEMORY_PAGE_RESERVED ps + state_count ZI_MEMORY_PAGE_ALLOCATED ps = length ps"
    if "\<forall>p \<in> set ps. page_ok p" for ps using that by (induction ps) (auto simp: state_count_def page_ok_def)
  moreover have "statistics_ok (pmm_statistics m) (pmm_pages m)" "\<forall>p \<in> set (pmm_pages m). page_ok p"
    using calculation(1) by (simp_all add: manager_ok_def)
  ultimately show ?thesis by (simp add: statistics_ok_def zi_pmm_statistics_def)
qed

theorem zi_pmm_statistics_exact_witness:
  "pmm_step\<^sup>*\<^sup>* sample_manager (snd (zi_pmm_reserve sample_manager 0x1000 1 ZI_MEMORY_OWNER_ZERO_GUARD)) \<and>
   manager_ok (snd (zi_pmm_reserve sample_manager 0x1000 1 ZI_MEMORY_OWNER_ZERO_GUARD))"
proof -
  let ?m = "snd (zi_pmm_reserve sample_manager 0x1000 1 ZI_MEMORY_OWNER_ZERO_GUARD)"
  have step: "pmm_step\<^sup>*\<^sup>* sample_manager ?m"
    by (rule r_into_rtranclp, rule pmm_step.reserve) (rule prod.collapse [symmetric])
  with zi_pmm_statistics_exact [OF sample_inventory_ok sample_manager_init step] show ?thesis by blast
qed

text \<open>
  C12: allocation is sound and complete and always returns. With valid arguments the result is the address of
  a run that is aligned, lies in one usable range below the limit and was free, and exactly the frames of that
  run are now allocated to the owner; or it is no memory, and then no such run exists.
\<close>

theorem zi_pmm_allocate_below_correct:
  assumes m: "manager_ok m" and guard: "allocation_guard n alignment limit owner"
  shows "case zi_pmm_allocate_below m n alignment limit owner of
      None \<Rightarrow> False
    | Some (Inl status) \<Rightarrow> status = ZI_STATUS_NO_MEMORY \<and> (\<forall>c. \<not> available m (unat n) (unat alignment) (unat limit) c)
    | Some (Inr (base, m')) \<Rightarrow> available m (unat n) (unat alignment) (unat limit) (unat base) \<and> manager_ok m' \<and>
        manager_map m' = map_run (manager_map m) base n (\<lambda>p. p\<lparr>pg_state := ZI_MEMORY_PAGE_ALLOCATED, pg_owner := ucast owner\<rparr>)"
  using m guard
proof (cases rule: allocate_below_cases)
  case (found w base)
  with mark_allocated_ok [OF m found(5,6), of owner] show ?thesis by simp
qed simp

theorem zi_pmm_allocate_below_correct_witness:
  "\<exists>base m'. zi_pmm_allocate_below sample_manager 2 4 0xffff ZI_MEMORY_OWNER_TEST = Some (Inr (base, m')) \<and>
     available sample_manager 2 4 0xffff (unat base) \<and> manager_ok m'"
proof -
  have "allocation_guard 2 4 0xffff ZI_MEMORY_OWNER_TEST" by (simp add: allocation_guard_def allocation_owner_is_valid_def)
  from zi_pmm_allocate_below_correct [OF sample_manager_ok this] sample_available show ?thesis
    by (auto split: option.splits sum.splits prod.splits)
qed

text \<open>
  C33: freeing an allocation gives back the manager as it was, and only its owner can free it, once. After an
  allocation, a free by the same owner restores the earlier state exactly; a free by another owner, and a
  second free, are refused and change nothing.
\<close>

theorem zi_pmm_free_allocate:
  assumes m: "manager_ok m" and alloc: "zi_pmm_allocate_below m n alignment limit owner = Some (Inr (base, m'))"
  shows "zi_pmm_free m' base n owner = (ZI_STATUS_SUCCESS, m) \<and>
    (allocation_owner_is_valid other \<and> other \<noteq> owner \<longrightarrow> zi_pmm_free m' base n other = (ZI_STATUS_INVALID_STATE, m')) \<and>
    zi_pmm_free m base n owner = (ZI_STATUS_INVALID_STATE, m)"
  using m allocate_below_guard [OF alloc]
proof (cases rule: allocate_below_cases)
  case (found w b)
  with alloc have b: "b = base" and m': "m' = mark_allocated m w n owner" by simp_all
  note run = found(4-6) [unfolded b]
  note ok = mark_allocated_ok [OF m run(2,3), of owner, folded m']
  have owner: "allocation_owner_is_valid owner" "ucast (ucast owner :: byte) = owner" and n: "0 < unat n"
    using allocate_below_guard [OF alloc] allocation_owner_byte by (auto simp: allocation_guard_def unat_gt_0)
  have mem: "in_memory m' base n" using run(1) by (simp add: in_memory_def ok(2))
  have marked: "run_satisfies m' (unat base div 4096) (unat n) (\<lambda>p. pg_state p = ZI_MEMORY_PAGE_ALLOCATED \<and> pg_owner p = ucast owner)"
    using run(3) by (auto simp: run_satisfies_def ok(3) map_run_def)
  have pages: "zi_pmm_free m' base n owner = (ZI_STATUS_SUCCESS, m)"
    unfolding m' by (rule free_marked [OF m run(2,3) mem [unfolded m'] owner n])
  have first: "\<exists>p. manager_map m' (unat base div 4096) = Some p \<and> pg_state p = ZI_MEMORY_PAGE_ALLOCATED \<and> pg_owner p = ucast owner"
    "\<exists>p. manager_map m (unat base div 4096) = Some p \<and> pg_state p = ZI_MEMORY_PAGE_FREE"
    using marked run(3) n by (auto simp: run_satisfies_def)
  have other': "zi_pmm_free m' base n other = (ZI_STATUS_INVALID_STATE, m')"
    if "allocation_owner_is_valid other \<and> other \<noteq> owner"
  proof -
    have "\<not> run_satisfies m' (unat base div 4096) (unat n) (\<lambda>p. pg_state p = ZI_MEMORY_PAGE_ALLOCATED \<and> ucast (pg_owner p) = other)"
      using first(1) n that owner(2) by (fastforce simp: run_satisfies_def)
    with zi_pmm_free_correct [OF ok(1), of other base n] that mem show ?thesis by auto
  qed
  have "\<not> run_satisfies m (unat base div 4096) (unat n) (\<lambda>p. pg_state p = ZI_MEMORY_PAGE_ALLOCATED \<and> ucast (pg_owner p) = owner)"
    using first(2) n by (fastforce simp: run_satisfies_def)
  with zi_pmm_free_correct [OF m, of owner base n] owner(1) run(1)
  have "zi_pmm_free m base n owner = (ZI_STATUS_INVALID_STATE, m)" by auto
  with pages other' show ?thesis by blast
qed (use alloc in simp)

theorem zi_pmm_free_allocate_witness:
  "\<exists>base m'. zi_pmm_allocate_below sample_manager 2 4 0xffff ZI_MEMORY_OWNER_TEST = Some (Inr (base, m')) \<and>
     zi_pmm_free m' base 2 ZI_MEMORY_OWNER_TEST = (ZI_STATUS_SUCCESS, sample_manager)"
proof -
  have guard: "allocation_guard 2 4 0xffff ZI_MEMORY_OWNER_TEST" by (simp add: allocation_guard_def allocation_owner_is_valid_def)
  obtain base m' where "zi_pmm_allocate_below sample_manager 2 4 0xffff ZI_MEMORY_OWNER_TEST = Some (Inr (base, m'))"
    by (rule allocate_below_cases [OF sample_manager_ok guard]) (use sample_available in auto)
  with zi_pmm_free_allocate [OF sample_manager_ok this] show ?thesis by blast
qed

text \<open>
  C4: live allocations never overlap. The blocks of frames returned by any sequence of allocations are
  pairwise disjoint, were all free before, and are no longer free.
\<close>

theorem zi_pmm_allocations_disjoint:
  assumes "manager_ok m" "allocate_all pmm_take requests m = Some (blocks, m')"
  shows "manager_ok m' \<and> (\<forall>b \<in> set blocks. b \<subseteq> free_frames m) \<and> sorted_wrt (\<lambda>a b. a \<inter> b = {}) blocks \<and>
    free_frames m' = free_frames m - \<Union> (set blocks)"
  using assms by (rule pmm_blocks.blocks_disjoint)

theorem zi_pmm_allocations_disjoint_witness:
  "\<exists>base m'. allocate_all pmm_take [(2, 4, 0xffff, ZI_MEMORY_OWNER_TEST)] sample_manager = Some ([frame_block base 2], m') \<and>
     free_frames m' = free_frames sample_manager - frame_block base 2"
proof -
  have guard: "allocation_guard 2 4 0xffff ZI_MEMORY_OWNER_TEST" by (simp add: allocation_guard_def allocation_owner_is_valid_def)
  obtain base m' where "zi_pmm_allocate_below sample_manager 2 4 0xffff ZI_MEMORY_OWNER_TEST = Some (Inr (base, m'))"
    by (rule allocate_below_cases [OF sample_manager_ok guard]) (use sample_available in auto)
  then have all: "allocate_all pmm_take [(2, 4, 0xffff, ZI_MEMORY_OWNER_TEST)] sample_manager = Some ([frame_block base 2], m')"
    by (simp add: pmm_take_def)
  with zi_pmm_allocations_disjoint [OF sample_manager_ok all] show ?thesis by auto
qed

end
