(* ===== verification/Zi_Block.thy ===== *)
theory Zi_Block
  imports Zi_Prelude
begin

text \<open>
  Block devices of \<^verbatim>\<open>kernel/io/storage/block.c\<close> and the partition device that exposes a window of a
  parent device with larger blocks.

  A device is reached through its routines only. The state beneath the device is the type parameter
  \<open>'d\<close>, and a routine together with its \<^verbatim>\<open>context\<close> is a function on that state: it returns a status, for a
  read also the output buffer, and the new state. An absent routine is \<^term>\<open>None\<close>; a call through it,
  which is undefined in C, is the unspecified value of \<^const>\<open>the\<close>. Buffers are never \<^verbatim>\<open>NULL\<close>.
\<close>

unbundle bit_operations_syntax

type_synonym 'd read_routine = "u64 \<Rightarrow> u32 \<Rightarrow> bytes \<Rightarrow> 'd \<Rightarrow> ZiStatus \<times> bytes \<times> 'd"
type_synonym 'd write_routine = "u64 \<Rightarrow> u32 \<Rightarrow> bytes \<Rightarrow> 'd \<Rightarrow> ZiStatus \<times> 'd"
type_synonym 'd flush_routine = "'d \<Rightarrow> ZiStatus \<times> 'd"

abbreviation (input) ZI_BLOCK_DEVICE_VERSION :: u32 where "ZI_BLOCK_DEVICE_VERSION \<equiv> 3"
abbreviation (input) SIZEOF_BLOCK_DEVICE :: u32 where "SIZEOF_BLOCK_DEVICE \<equiv> 64"
abbreviation (input) ZI_BLOCK_DEVICE_READ_ONLY :: u32 where "ZI_BLOCK_DEVICE_READ_ONLY \<equiv> 1"
abbreviation (input) ZI_BLOCK_DEVICE_FLUSH_SUPPORTED :: u32 where "ZI_BLOCK_DEVICE_FLUSH_SUPPORTED \<equiv> 2"
abbreviation (input) ZI_BLOCK_DEVICE_WRITE_SUPPORTED :: u32 where "ZI_BLOCK_DEVICE_WRITE_SUPPORTED \<equiv> 4"

record 'd ZiBlockDevice =
  bd_struct_size :: u32
  bd_version :: u32
  bd_block_size :: u32
  bd_block_count :: u64
  bd_read_blocks :: "'d read_routine option"
  bd_flush :: "'d flush_routine option"
  bd_flags :: u32
  bd_write_blocks :: "'d write_routine option"

record 'd ZiPartitionBlockContext =
  pb_parent :: "'d ZiBlockDevice"
  pb_first_parent_block :: u64
  pb_parent_block_count :: u64
  pb_parent_blocks_per_block :: u32

section \<open>Operations\<close>

definition zi_block_flush :: "'d ZiBlockDevice \<Rightarrow> 'd flush_routine" where
  "zi_block_flush device d =
     (if bd_struct_size device < SIZEOF_BLOCK_DEVICE \<or> bd_version device \<noteq> ZI_BLOCK_DEVICE_VERSION
      then (ZI_STATUS_INVALID_ARGUMENT, d)
      else if bd_flush device = None \<or> bd_flags device AND ZI_BLOCK_DEVICE_FLUSH_SUPPORTED = 0
      then (ZI_STATUS_NOT_IMPLEMENTED, d)
      else the (bd_flush device) d)"

definition zi_block_barrier :: "'d ZiBlockDevice \<Rightarrow> 'd flush_routine" where
  "zi_block_barrier device = zi_block_flush device"

definition zi_block_write :: "'d ZiBlockDevice \<Rightarrow> 'd write_routine" where
  "zi_block_write device first_block block_count input d =
     (if bd_struct_size device < SIZEOF_BLOCK_DEVICE \<or> bd_version device \<noteq> ZI_BLOCK_DEVICE_VERSION \<or>
         block_count = 0 \<or> bd_block_size device = 0 \<or> bd_block_count device = 0
      then (ZI_STATUS_INVALID_ARGUMENT, d)
      else if bd_flags device AND ZI_BLOCK_DEVICE_READ_ONLY \<noteq> 0 then (ZI_STATUS_READ_ONLY_FILESYSTEM, d)
      else if bd_write_blocks device = None \<or> bd_flags device AND ZI_BLOCK_DEVICE_WRITE_SUPPORTED = 0
      then (ZI_STATUS_NOT_IMPLEMENTED, d)
      else if first_block \<ge> bd_block_count device \<or> ucast block_count > bd_block_count device - first_block \<or>
         ucast block_count > UINT64_MAX div ucast (bd_block_size device) \<or>
         length input \<noteq> unat block_count * unat (bd_block_size device)
      then (ZI_STATUS_OUT_OF_BOUNDS, d)
      else the (bd_write_blocks device) first_block block_count input d)"

definition translate_partition_range :: "'d ZiPartitionBlockContext \<Rightarrow> u64 \<Rightarrow> u32 \<Rightarrow> (u64 \<times> u32) result" where
  "translate_partition_range partition' first_block block_count =
     (let ratio = pb_parent_blocks_per_block partition' in
      if ratio = 0 \<or> block_count = 0 \<or> first_block > UINT64_MAX div ucast ratio \<or> block_count > UINT32_MAX div ratio
      then Inl ZI_STATUS_INVALID_STATE
      else
        let parent_offset = first_block * ucast ratio;
            parent_count = block_count * ratio in
        if parent_offset \<ge> pb_parent_block_count partition' \<or>
           ucast parent_count > pb_parent_block_count partition' - parent_offset \<or>
           pb_first_parent_block partition' > UINT64_MAX - parent_offset
        then Inl ZI_STATUS_OUT_OF_BOUNDS
        else Inr (pb_first_parent_block partition' + parent_offset, parent_count))"

definition partition_read :: "'d ZiPartitionBlockContext \<Rightarrow> 'd read_routine" where
  "partition_read partition' first_block block_count output d =
     (if block_count = 0 then (ZI_STATUS_INVALID_ARGUMENT, output, d)
      else
        case translate_partition_range partition' first_block block_count of
          Inl status \<Rightarrow> (status, output, d)
        | Inr (parent_first_block, parent_block_count) \<Rightarrow>
            the (bd_read_blocks (pb_parent partition')) parent_first_block parent_block_count output d)"

definition partition_flush :: "'d ZiPartitionBlockContext \<Rightarrow> 'd flush_routine" where
  "partition_flush partition' d = zi_block_flush (pb_parent partition') d"

definition partition_write :: "'d ZiPartitionBlockContext \<Rightarrow> 'd write_routine" where
  "partition_write partition' first_block block_count input d =
     (if block_count = 0 then (ZI_STATUS_INVALID_ARGUMENT, d)
      else
        case translate_partition_range partition' first_block block_count of
          Inl status \<Rightarrow> (status, d)
        | Inr (parent_first_block, parent_block_count) \<Rightarrow>
            zi_block_write (pb_parent partition') parent_first_block parent_block_count input d)"

definition zi_partition_block_initialise ::
  "'d ZiBlockDevice \<Rightarrow> u64 \<Rightarrow> u64 \<Rightarrow> u32 \<Rightarrow> ('d ZiPartitionBlockContext \<times> 'd ZiBlockDevice) result" where
  "zi_partition_block_initialise parent first_parent_block parent_block_count exposed_block_size =
     (if bd_struct_size parent < SIZEOF_BLOCK_DEVICE \<or> bd_version parent \<noteq> ZI_BLOCK_DEVICE_VERSION \<or>
         bd_read_blocks parent = None \<or> bd_block_size parent = 0 \<or> bd_block_count parent = 0 \<or>
         (bd_flags parent AND ZI_BLOCK_DEVICE_FLUSH_SUPPORTED \<noteq> 0) \<noteq> (bd_flush parent \<noteq> None) \<or>
         (bd_flags parent AND ZI_BLOCK_DEVICE_WRITE_SUPPORTED \<noteq> 0) \<noteq> (bd_write_blocks parent \<noteq> None) \<or>
         (bd_flags parent AND ZI_BLOCK_DEVICE_READ_ONLY \<noteq> 0 \<and> bd_flags parent AND ZI_BLOCK_DEVICE_WRITE_SUPPORTED \<noteq> 0) \<or>
         exposed_block_size < bd_block_size parent \<or> exposed_block_size mod bd_block_size parent \<noteq> 0 \<or>
         first_parent_block \<ge> bd_block_count parent \<or> parent_block_count = 0 \<or>
         parent_block_count > bd_block_count parent - first_parent_block
      then Inl ZI_STATUS_INVALID_ARGUMENT
      else
        let ratio = exposed_block_size div bd_block_size parent in
        if parent_block_count mod ucast ratio \<noteq> 0 then Inl ZI_STATUS_ALIGNMENT_ERROR
        else
          let context' = \<lparr>pb_parent = parent, pb_first_parent_block = first_parent_block,
                pb_parent_block_count = parent_block_count, pb_parent_blocks_per_block = ratio\<rparr> in
          Inr (context',
            \<lparr>bd_struct_size = SIZEOF_BLOCK_DEVICE, bd_version = ZI_BLOCK_DEVICE_VERSION,
             bd_block_size = exposed_block_size, bd_block_count = parent_block_count div ucast ratio,
             bd_read_blocks = Some (partition_read context'),
             bd_flush = (if bd_flush parent = None then None else Some (partition_flush context')),
             bd_flags = bd_flags parent,
             bd_write_blocks = (if bd_write_blocks parent = None then None else Some (partition_write context'))\<rparr>))"

section \<open>The window of a partition\<close>

definition partition_ok :: "'d ZiPartitionBlockContext \<Rightarrow> bool" where
  "partition_ok p \<longleftrightarrow>
     0 < unat (pb_parent_blocks_per_block p) \<and>
     unat (pb_parent_blocks_per_block p) dvd unat (pb_parent_block_count p) \<and>
     unat (pb_first_parent_block p) + unat (pb_parent_block_count p) \<le> unat (bd_block_count (pb_parent p))"

text \<open>A request that lies in the window, and whose length in parent blocks fits the parent's count.\<close>

definition in_window :: "'d ZiPartitionBlockContext \<Rightarrow> u64 \<Rightarrow> u32 \<Rightarrow> bool" where
  "in_window p first_block block_count \<longleftrightarrow>
     0 < unat block_count \<and> unat block_count * unat (pb_parent_blocks_per_block p) < 2 ^ 32 \<and>
     (unat first_block + unat block_count) * unat (pb_parent_blocks_per_block p) \<le> unat (pb_parent_block_count p)"

lemma unat_ucast_u64 [simp]: "unat (ucast w :: u64) = unat w" for w :: u32
proof -
  have "unat w < 2 ^ 32" using unsigned_less [of w] by simp
  then have "unat w < 2 ^ 64" by simp
  then have "take_bit 64 (unat w) = unat w" by (rule take_bit_nat_eq_self)
  then show ?thesis by (simp add: unsigned_ucast_eq)
qed

lemma le_max_div_iff:
  fixes a r :: nat
  assumes "0 < r" "0 < m"
  shows "a \<le> (m - 1) div r \<longleftrightarrow> a * r < m"
  using assms by (simp add: less_eq_div_iff_mult_less_eq) linarith

lemma translate_partition_range_correct:
  assumes ok: "partition_ok p"
  shows "if in_window p first_block block_count
    then \<exists>parent_first parent_count. translate_partition_range p first_block block_count = Inr (parent_first, parent_count) \<and>
      unat parent_first = unat (pb_first_parent_block p) + unat first_block * unat (pb_parent_blocks_per_block p) \<and>
      unat parent_count = unat block_count * unat (pb_parent_blocks_per_block p)
    else \<exists>status. ZiFailed status \<and> translate_partition_range p first_block block_count = Inl status"
proof -
  define r where "r = pb_parent_blocks_per_block p"
  define n where "n = unat r"
  have n: "0 < n" using ok by (simp add: partition_ok_def n_def r_def)
  then have r: "r \<noteq> 0" by (auto simp: n_def)
  have cast: "unat (ucast r :: u64) = n" "unat (ucast w :: u64) = unat w" for w :: u32
    by (simp_all add: n_def)
  show ?thesis
  proof (cases "block_count = 0 \<or> UINT64_MAX div ucast r < first_block \<or> UINT32_MAX div r < block_count")
    case True
    have "\<not> in_window p first_block block_count"
    proof
      assume w: "in_window p first_block block_count"
      have "unat (pb_parent_block_count p) < 2 ^ 64" using unsigned_less [of "pb_parent_block_count p"] by simp
      with w have "unat block_count * n < 2 ^ 32" "0 < unat block_count" "unat first_block * n < 2 ^ 64"
        by (simp_all add: in_window_def n_def r_def add_mult_distrib)
      then show False using True n le_max_div_iff [of n "2 ^ 64" "unat first_block"] le_max_div_iff [of n "2 ^ 32" "unat block_count"]
        by (auto simp: word_less_nat_alt unat_div_distrib cast n_def [symmetric])
    qed
    with True r show ?thesis by (simp add: translate_partition_range_def r_def [symmetric])
  next
    case False
    have mult: "unat first_block * n < 2 ^ 64" "unat block_count * n < 2 ^ 32"
      using False le_max_div_iff [of n "2 ^ 64" "unat first_block"] le_max_div_iff [of n "2 ^ 32" "unat block_count"] n
      by (simp_all add: word_less_nat_alt unat_div_distrib cast n_def [symmetric] not_less)
    have off: "unat (first_block * ucast r) = unat first_block * n" "unat (block_count * r) = unat block_count * n"
      using mult by (simp_all add: unat_word_ariths cast n_def)
    have count: "0 < unat block_count" using False by (simp add: unat_gt_0)
    let ?off = "first_block * ucast r" and ?cnt = "block_count * r"
    have inside: "\<not> (pb_parent_block_count p \<le> ?off \<or> pb_parent_block_count p - ?off < ucast ?cnt) \<longleftrightarrow>
        in_window p first_block block_count"
    proof (cases "pb_parent_block_count p \<le> ?off")
      case le: True
      then have "unat (pb_parent_block_count p) \<le> unat first_block * n" by (simp only: word_le_nat_alt off)
      moreover have "0 < unat block_count * n" using count n by simp
      ultimately have "\<not> in_window p first_block block_count"
        unfolding in_window_def n_def [symmetric] r_def [symmetric] add_mult_distrib by linarith
      with le show ?thesis by blast
    next
      case gt: False
      then have "unat first_block * n < unat (pb_parent_block_count p)" by (simp only: word_le_nat_alt off not_le)
      moreover have "unat (pb_parent_block_count p - ?off) = unat (pb_parent_block_count p) - unat first_block * n"
        using gt by (simp add: unat_sub off)
      ultimately show ?thesis using gt count mult
        by (auto simp: in_window_def n_def [symmetric] r_def [symmetric] add_mult_distrib word_less_nat_alt cast off)
    qed
    have base: "\<not> UINT64_MAX - ?off < pb_first_parent_block p" if "in_window p first_block block_count"
    proof -
      have "unat first_block * n \<le> unat (pb_parent_block_count p)" using that
        by (simp add: in_window_def n_def [symmetric] r_def [symmetric] add_mult_distrib)
      moreover have "unat (bd_block_count (pb_parent p)) < 2 ^ 64" using unsigned_less [of "bd_block_count (pb_parent p)"] by simp
      ultimately show ?thesis using ok unfolding u64_sum_overflows off partition_ok_def by linarith
    qed
    have body: "translate_partition_range p first_block block_count =
        (if pb_parent_block_count p \<le> ?off \<or> pb_parent_block_count p - ?off < ucast ?cnt \<or> UINT64_MAX - ?off < pb_first_parent_block p
         then Inl ZI_STATUS_OUT_OF_BOUNDS else Inr (pb_first_parent_block p + ?off, ?cnt))"
      using False r by (simp add: translate_partition_range_def r_def [symmetric] Let_def)
    show ?thesis
    proof (cases "in_window p first_block block_count")
      case True
      note fits = base [OF True]
      then have "unat (pb_first_parent_block p + ?off) = unat (pb_first_parent_block p) + unat first_block * n"
        unfolding u64_sum_overflows off by (subst unat_u64_add) (simp_all add: off)
      with True fits inside off(2) show ?thesis unfolding body r_def [symmetric] n_def [symmetric] by simp
    next
      case False
      with inside show ?thesis unfolding body by auto
    qed
  qed
qed

lemma initialise_partition_ok:
  assumes "zi_partition_block_initialise parent first count exposed = Inr (p, device)"
  shows "partition_ok p" "pb_parent p = parent" "pb_first_parent_block p = first" "pb_parent_block_count p = count"
    "unat (pb_parent_blocks_per_block p) = unat exposed div unat (bd_block_size parent)"
    "bd_read_blocks device = Some (partition_read p)"
    "bd_write_blocks device = (if bd_write_blocks parent = None then None else Some (partition_write p))"
    "unat (bd_block_count device) * unat (pb_parent_blocks_per_block p) = unat count"
proof -
  let ?ratio = "exposed div bd_block_size parent"
  have g: "bd_block_size parent \<noteq> 0" "\<not> exposed < bd_block_size parent" "\<not> bd_block_count parent \<le> first"
    "\<not> bd_block_count parent - first < count" "count mod ucast ?ratio = 0"
    and p: "p = \<lparr>pb_parent = parent, pb_first_parent_block = first, pb_parent_block_count = count, pb_parent_blocks_per_block = ?ratio\<rparr>"
    and device: "bd_read_blocks device = Some (partition_read p)"
      "bd_write_blocks device = (if bd_write_blocks parent = None then None else Some (partition_write p))"
      "bd_block_count device = count div ucast ?ratio"
    using assms unfolding zi_partition_block_initialise_def Let_def by (auto split: if_splits)
  have ratio: "unat ?ratio = unat exposed div unat (bd_block_size parent)" by (simp add: unat_div_distrib)
  have pos: "0 < unat ?ratio"
    using g(1,2) unfolding ratio by (simp add: div_greater_zero_iff word_less_nat_alt not_less unat_gt_0)
  have "unat (count mod ucast ?ratio) = 0" using g(5) by simp
  then have dvd: "unat ?ratio dvd unat count" by (simp add: unat_mod_distrib dvd_eq_mod_eq_0)
  have "unat (bd_block_count parent - first) = unat (bd_block_count parent) - unat first" using g(3) by (simp add: unat_sub)
  then have "unat first + unat count \<le> unat (bd_block_count parent)"
    using g(3,4) by (simp add: word_less_nat_alt word_le_nat_alt not_le not_less)
  with pos dvd show "partition_ok p" by (simp add: partition_ok_def p)
  show "unat (bd_block_count device) * unat (pb_parent_blocks_per_block p) = unat count"
    using dvd by (simp add: device(3) p unat_div_distrib)
qed (use assms in \<open>auto simp: zi_partition_block_initialise_def Let_def unat_div_distrib split: if_splits\<close>)

section \<open>Properties\<close>

text \<open>
  C17: a partition device never reaches outside its window. A read or write of blocks inside the partition is
  the parent's read or write at the translated place, which lies in the window and hence on the parent;
  any other request fails and touches neither the buffer nor the parent.
\<close>

theorem zi_partition_window:
  assumes init: "zi_partition_block_initialise parent first count exposed = Inr (p, device)"
  defines "ratio \<equiv> unat exposed div unat (bd_block_size parent)"
  shows "if 0 < unat n \<and> unat n * ratio < 2 ^ 32 \<and> unat b + unat n \<le> unat (bd_block_count device)
    then \<exists>pb pn. unat pb = unat first + unat b * ratio \<and> unat pn = unat n * ratio \<and>
      unat pb + unat pn \<le> unat first + unat count \<and> unat first + unat count \<le> unat (bd_block_count parent) \<and>
      the (bd_read_blocks device) b n buffer d = the (bd_read_blocks parent) pb pn buffer d \<and>
      (bd_write_blocks device \<noteq> None \<longrightarrow> the (bd_write_blocks device) b n input d = zi_block_write parent pb pn input d)
    else (\<exists>status. ZiFailed status \<and> the (bd_read_blocks device) b n buffer d = (status, buffer, d)) \<and>
      (bd_write_blocks device \<noteq> None \<longrightarrow> (\<exists>status. ZiFailed status \<and> the (bd_write_blocks device) b n input d = (status, d)))"
proof -
  note I = initialise_partition_ok [OF init]
  have ratio: "unat (pb_parent_blocks_per_block p) = ratio" using I(5) by (simp add: ratio_def)
  have pos: "0 < ratio" using I(1) by (simp add: partition_ok_def ratio)
  have window: "in_window p b n \<longleftrightarrow> 0 < unat n \<and> unat n * ratio < 2 ^ 32 \<and> unat b + unat n \<le> unat (bd_block_count device)"
    using I(8) pos unfolding in_window_def ratio I(4) by (metis mult_le_cancel2)
  note t = translate_partition_range_correct [OF I(1), of b n]
  show ?thesis
  proof (cases "in_window p b n")
    case True
    then obtain pb pn where tr: "translate_partition_range p b n = Inr (pb, pn)" and
      at: "unat pb = unat first + unat b * ratio" "unat pn = unat n * ratio" using t by (auto simp: ratio I)
    have "n \<noteq> 0" using True by (auto simp: in_window_def)
    moreover have "unat pb + unat pn \<le> unat first + unat count" using True unfolding at by (simp add: in_window_def ratio I(4) add_mult_distrib)
    moreover have "unat first + unat count \<le> unat (bd_block_count parent)" using I(1) by (simp add: partition_ok_def I)
    ultimately show ?thesis using True at tr unfolding window [symmetric]
      by (auto simp: I(2,6,7) partition_read_def partition_write_def intro!: exI [of _ pb] exI [of _ pn])
  next
    case False
    with t obtain status where "ZiFailed status" "translate_partition_range p b n = Inl status" by auto
    with False show ?thesis unfolding window [symmetric]
      by (auto simp: I(6,7) partition_read_def partition_write_def)
  qed
qed

text \<open>A parent device of sixteen blocks whose reads return zeros.\<close>

definition sample_device :: "unit ZiBlockDevice" where
  "sample_device =
     \<lparr>bd_struct_size = SIZEOF_BLOCK_DEVICE, bd_version = ZI_BLOCK_DEVICE_VERSION, bd_block_size = 512, bd_block_count = 16,
      bd_read_blocks = Some (\<lambda>_ _ buffer d. (ZI_STATUS_SUCCESS, map (\<lambda>_. 0) buffer, d)), bd_flush = None,
      bd_flags = ZI_BLOCK_DEVICE_READ_ONLY, bd_write_blocks = None\<rparr>"

theorem zi_partition_window_witness:
  "\<exists>p device pb pn. zi_partition_block_initialise sample_device 4 8 1024 = Inr (p, device) \<and>
     unat pb = 4 + 1 * 2 \<and> unat pn = 2 * 2 \<and>
     the (bd_read_blocks device) 1 2 [7] () = the (bd_read_blocks sample_device) pb pn [7] ()"
proof -
  obtain p device where init: "zi_partition_block_initialise sample_device 4 8 1024 = Inr (p, device)"
    by (simp add: zi_partition_block_initialise_def sample_device_def Let_def)
  have "bd_block_count device = 4" "bd_block_size sample_device = 512"
    using init by (auto simp: zi_partition_block_initialise_def sample_device_def Let_def)
  with zi_partition_window [OF init, of 2 1 "[7]" "()" "[]"] init show ?thesis by auto
qed

end
