(* ===== verification/Zi_Journal.thy ===== *)
theory Zi_Journal
  imports Zi_Bytes Zi_Block
begin

text \<open>
  The write-ahead journal of the file system, \<^verbatim>\<open>kernel/fs/zifs/journal.c\<close>: allocation bitmaps, the
  arithmetic of the record ring, and the encoding of headers and records with their checksums.

  A buffer is a list of bytes whose length is the size the caller passes. The payload of a record is a
  \<open>bytes option\<close>, where \<^term>\<open>None\<close> is a \<^verbatim>\<open>NULL\<close> pointer with a non-zero size; every
  other pointer is valid, so the \<^verbatim>\<open>NULL\<close> guards on outputs, buffers and devices have no counterpart.
\<close>

unbundle bit_operations_syntax

abbreviation (input) ZI_FS_BLOCK_SIZE :: nat where "ZI_FS_BLOCK_SIZE \<equiv> 4096"
abbreviation (input) ZI_FS_JOURNAL_VERSION :: u16 where "ZI_FS_JOURNAL_VERSION \<equiv> 1"
abbreviation (input) ZI_FS_JOURNAL_HEADER_SIZE :: u16 where "ZI_FS_JOURNAL_HEADER_SIZE \<equiv> 128"
abbreviation (input) ZI_FS_JOURNAL_HEADER_COPIES :: u64 where "ZI_FS_JOURNAL_HEADER_COPIES \<equiv> 2"
abbreviation (input) ZI_FS_JOURNAL_RECORD_HEADER_SIZE :: nat where "ZI_FS_JOURNAL_RECORD_HEADER_SIZE \<equiv> 128"
abbreviation (input) ZI_FS_JOURNAL_RECORD_BLOCKS :: u64 where "ZI_FS_JOURNAL_RECORD_BLOCKS \<equiv> 2"
abbreviation (input) ZI_FS_JOURNAL_RECORD_SIZE :: nat where "ZI_FS_JOURNAL_RECORD_SIZE \<equiv> 8192"
abbreviation (input) ZI_FS_JOURNAL_MAXIMUM_PAYLOAD_SIZE :: nat where "ZI_FS_JOURNAL_MAXIMUM_PAYLOAD_SIZE \<equiv> 4096"
abbreviation (input) ZI_FS_JOURNAL_TARGET_NONE :: u64 where "ZI_FS_JOURNAL_TARGET_NONE \<equiv> UINT64_MAX"
abbreviation (input) ZI_FS_JOURNAL_MINIMUM_RECORD_CAPACITY :: u64 where "ZI_FS_JOURNAL_MINIMUM_RECORD_CAPACITY \<equiv> 5"
abbreviation (input) ZI_FS_JOURNAL_RESERVED_RECORDS :: u64 where "ZI_FS_JOURNAL_RESERVED_RECORDS \<equiv> 1"
abbreviation (input) ZI_FS_JOURNAL_RECORD_BEGIN :: u16 where "ZI_FS_JOURNAL_RECORD_BEGIN \<equiv> 1"
abbreviation (input) ZI_FS_JOURNAL_RECORD_BLOCK_IMAGE :: u16 where "ZI_FS_JOURNAL_RECORD_BLOCK_IMAGE \<equiv> 2"
abbreviation (input) ZI_FS_JOURNAL_RECORD_COMMIT :: u16 where "ZI_FS_JOURNAL_RECORD_COMMIT \<equiv> 3"
abbreviation (input) ZI_FS_JOURNAL_RECORD_CHECKPOINT :: u16 where "ZI_FS_JOURNAL_RECORD_CHECKPOINT \<equiv> 4"

record ZiFsJournalHeader =
  jh_header_sequence :: u64
  jh_volume_generation :: u64
  jh_record_capacity :: u64
  jh_head_record :: u64
  jh_tail_record :: u64
  jh_next_sequence :: u64
  jh_next_transaction_id :: u64
  jh_last_committed_transaction :: u64
  jh_last_checkpoint_transaction :: u64
  jh_flags :: u32

record ZiFsJournalRecord =
  jr_transaction_id :: u64
  jr_sequence :: u64
  jr_target_block :: u64
  jr_source_generation :: u64
  jr_target_generation :: u64
  jr_image_count :: u32
  jr_transaction_checksum :: u32
  jr_record_type :: u16
  jr_flags :: u16
  jr_payload :: "bytes option"

definition k_journal_header_magic :: bytes where
  "k_journal_header_magic = [0x5a, 0x49, 0x4a, 0x52]"

definition k_journal_record_magic :: bytes where
  "k_journal_record_magic = [0x5a, 0x49, 0x4a, 0x45]"

section \<open>Allocation bitmaps\<close>

definition ZiFsAllocationBitmapBlockCount :: "u64 \<Rightarrow> u64 result" where
  "ZiFsAllocationBitmapBlockCount total_blocks =
     (if total_blocks = 0 then Inl ZI_STATUS_INVALID_ARGUMENT
      else
        let bits_per_block = of_nat ZI_FS_BLOCK_SIZE * 8 in
        Inr (1 + (total_blocks - 1) div bits_per_block))"

definition ZiFsAllocationBitQuery :: "bytes \<Rightarrow> u64 \<Rightarrow> bool result" where
  "ZiFsAllocationBitQuery bitmap block_number =
     (if bitmap = [] \<or> unat (block_number div 8) \<ge> length bitmap then Inl ZI_STATUS_INVALID_ARGUMENT
      else
        let mask' = (push_bit (unat (block_number mod 8)) 1 :: byte) in
        Inr (bitmap ! unat (block_number div 8) AND mask' \<noteq> 0))"

definition ZiFsAllocationBitSet :: "bytes \<Rightarrow> u64 \<Rightarrow> bool \<Rightarrow> ZiStatus \<times> bytes" where
  "ZiFsAllocationBitSet bitmap block_number is_allocated =
     (if bitmap = [] \<or> unat (block_number div 8) \<ge> length bitmap then (ZI_STATUS_INVALID_ARGUMENT, bitmap)
      else
        let mask' = (push_bit (unat (block_number mod 8)) 1 :: byte);
            index = unat (block_number div 8) in
        if is_allocated then (ZI_STATUS_SUCCESS, bitmap[index := bitmap ! index OR mask'])
        else (ZI_STATUS_SUCCESS, bitmap[index := bitmap ! index AND NOT mask']))"

section \<open>The record ring\<close>

definition ZiFsJournalRecordCapacity :: "u64 \<Rightarrow> u64 result" where
  "ZiFsJournalRecordCapacity journal_blocks =
     (if journal_blocks \<le> ZI_FS_JOURNAL_HEADER_COPIES \<or>
         (journal_blocks - ZI_FS_JOURNAL_HEADER_COPIES) mod ZI_FS_JOURNAL_RECORD_BLOCKS \<noteq> 0
      then Inl ZI_STATUS_INVALID_ARGUMENT
      else
        let capacity = (journal_blocks - ZI_FS_JOURNAL_HEADER_COPIES) div ZI_FS_JOURNAL_RECORD_BLOCKS in
        if capacity = 0 then Inl ZI_STATUS_INVALID_ARGUMENT else Inr capacity)"

definition ZiFsJournalRecordBlock :: "u64 \<Rightarrow> u64 \<Rightarrow> u64 \<Rightarrow> u64 result" where
  "ZiFsJournalRecordBlock journal_start record_capacity record_index =
     (if record_capacity = 0 \<or> record_index \<ge> record_capacity \<or>
         record_index > (UINT64_MAX - ZI_FS_JOURNAL_HEADER_COPIES) div ZI_FS_JOURNAL_RECORD_BLOCKS
      then Inl ZI_STATUS_INVALID_ARGUMENT
      else
        let relative = ZI_FS_JOURNAL_HEADER_COPIES + record_index * ZI_FS_JOURNAL_RECORD_BLOCKS in
        if journal_start > UINT64_MAX - relative then Inl ZI_STATUS_OUT_OF_BOUNDS
        else Inr (journal_start + relative))"

definition ZiFsJournalAdvanceRecord :: "u64 \<Rightarrow> u64 \<Rightarrow> u64 \<Rightarrow> u64 result" where
  "ZiFsJournalAdvanceRecord record_capacity record_index record_count =
     (if record_capacity = 0 \<or> record_index \<ge> record_capacity then Inl ZI_STATUS_INVALID_ARGUMENT
      else
        let remaining = record_count mod record_capacity in
        if remaining \<ge> record_capacity - record_index
        then Inr (remaining - (record_capacity - record_index))
        else Inr (record_index + remaining))"

definition journal_ring_space :: "u64 \<Rightarrow> u64 \<Rightarrow> u64 \<Rightarrow> (u64 \<times> u64) option" where
  "journal_ring_space record_capacity head_record tail_record =
     (if record_capacity < ZI_FS_JOURNAL_MINIMUM_RECORD_CAPACITY \<or> head_record \<ge> record_capacity \<or>
         tail_record \<ge> record_capacity
      then None
      else
        let occupied_records = (if head_record \<ge> tail_record then head_record - tail_record
                                else record_capacity - (tail_record - head_record)) in
        Some (occupied_records, record_capacity - occupied_records - ZI_FS_JOURNAL_RESERVED_RECORDS))"

definition journal_header_is_valid :: "ZiFsJournalHeader \<Rightarrow> bool" where
  "journal_header_is_valid header \<longleftrightarrow>
     (if jh_header_sequence header = 0 \<or> jh_volume_generation header = 0 \<or>
         jh_record_capacity header < ZI_FS_JOURNAL_MINIMUM_RECORD_CAPACITY \<or>
         jh_head_record header \<ge> jh_record_capacity header \<or> jh_tail_record header \<ge> jh_record_capacity header \<or>
         jh_next_sequence header = 0 \<or> jh_last_committed_transaction header = UINT64_MAX \<or>
         jh_next_transaction_id header \<noteq> jh_last_committed_transaction header + 1 \<or>
         jh_last_checkpoint_transaction header > jh_last_committed_transaction header \<or> jh_flags header \<noteq> 0
      then False
      else
        case journal_ring_space (jh_record_capacity header) (jh_head_record header) (jh_tail_record header) of
          None \<Rightarrow> False
        | Some (occupied_records, available_records) \<Rightarrow>
            if jh_last_checkpoint_transaction header = jh_last_committed_transaction header
            then occupied_records = 0
            else jh_last_committed_transaction header - jh_last_checkpoint_transaction header = 1 \<and> occupied_records \<ge> 3)"

definition ZiFsJournalQuerySpace :: "ZiFsJournalHeader \<Rightarrow> (u64 \<times> u64) result" where
  "ZiFsJournalQuerySpace header =
     (if \<not> journal_header_is_valid header then Inl ZI_STATUS_INVALID_ARGUMENT
      else
        case journal_ring_space (jh_record_capacity header) (jh_head_record header) (jh_tail_record header) of
          None \<Rightarrow> Inl ZI_STATUS_INVALID_ARGUMENT
        | Some space \<Rightarrow> Inr space)"

section \<open>Headers\<close>

text \<open>The fields of a header, written into a zeroed block.\<close>

definition journal_header_body :: "ZiFsJournalHeader \<Rightarrow> bytes \<Rightarrow> bytes" where
  "journal_header_body header output =
     (let b0 = zi_memory_copy (zi_memory_zero output 0 ZI_FS_BLOCK_SIZE) 0 k_journal_header_magic 0 4;
          b1 = zi_write_u16_le b0 4 ZI_FS_JOURNAL_VERSION;
          b2 = zi_write_u16_le b1 6 ZI_FS_JOURNAL_HEADER_SIZE;
          b3 = zi_write_u64_le b2 8 (jh_header_sequence header);
          b4 = zi_write_u64_le b3 16 (jh_volume_generation header);
          b5 = zi_write_u32_le b4 24 (ucast ZI_FS_JOURNAL_RECORD_BLOCKS);
          b6 = zi_write_u32_le b5 28 (jh_flags header);
          b7 = zi_write_u64_le b6 32 (jh_record_capacity header);
          b8 = zi_write_u64_le b7 40 (jh_head_record header);
          b9 = zi_write_u64_le b8 48 (jh_tail_record header);
          b10 = zi_write_u64_le b9 56 (jh_next_sequence header);
          b11 = zi_write_u64_le b10 64 (jh_next_transaction_id header);
          b12 = zi_write_u64_le b11 72 (jh_last_committed_transaction header) in
      zi_write_u64_le b12 80 (jh_last_checkpoint_transaction header))"

definition ZiFsEncodeJournalHeader :: "ZiFsJournalHeader \<Rightarrow> bytes \<Rightarrow> ZiStatus \<times> bytes" where
  "ZiFsEncodeJournalHeader header output =
     (if \<not> journal_header_is_valid header \<or> length output < ZI_FS_BLOCK_SIZE then (ZI_STATUS_INVALID_ARGUMENT, output)
      else
        let bytes = journal_header_body header output in
        (ZI_STATUS_SUCCESS, zi_write_u32_le bytes 124 (zi_crc32c 0 (take 124 bytes))))"

definition journal_header_fields :: "bytes \<Rightarrow> ZiFsJournalHeader" where
  "journal_header_fields bytes =
     \<lparr>jh_header_sequence = zi_read_u64_le bytes 8, jh_volume_generation = zi_read_u64_le bytes 16,
      jh_record_capacity = zi_read_u64_le bytes 32, jh_head_record = zi_read_u64_le bytes 40,
      jh_tail_record = zi_read_u64_le bytes 48, jh_next_sequence = zi_read_u64_le bytes 56,
      jh_next_transaction_id = zi_read_u64_le bytes 64, jh_last_committed_transaction = zi_read_u64_le bytes 72,
      jh_last_checkpoint_transaction = zi_read_u64_le bytes 80, jh_flags = zi_read_u32_le bytes 28\<rparr>"

definition ZiFsDecodeJournalHeader :: "bytes \<Rightarrow> ZiFsJournalHeader result" where
  "ZiFsDecodeJournalHeader data =
     (if length data < ZI_FS_BLOCK_SIZE then Inl ZI_STATUS_INVALID_ARGUMENT
      else if zi_memory_compare data k_journal_header_magic 4 \<noteq> 0 \<or>
         zi_read_u16_le data 4 \<noteq> ZI_FS_JOURNAL_VERSION \<or> zi_read_u16_le data 6 \<noteq> ZI_FS_JOURNAL_HEADER_SIZE \<or>
         ucast (zi_read_u32_le data 24) \<noteq> ZI_FS_JOURNAL_RECORD_BLOCKS
      then Inl ZI_STATUS_CORRUPT_FILESYSTEM
      else if zi_read_u32_le data 124 \<noteq> zi_crc32c 0 (take 124 data) then Inl ZI_STATUS_CHECKSUM_MISMATCH
      else
        let header = journal_header_fields data in
        if \<not> journal_header_is_valid header then Inl ZI_STATUS_CORRUPT_FILESYSTEM
        else Inr header)"

section \<open>Records\<close>

definition journal_record_is_valid :: "ZiFsJournalRecord \<Rightarrow> bool" where
  "journal_record_is_valid record' \<longleftrightarrow>
     (case jr_payload record' of
        None \<Rightarrow> False
      | Some payload \<Rightarrow>
          if jr_transaction_id record' = 0 \<or> jr_sequence record' = 0 \<or> jr_source_generation record' = 0 \<or>
             jr_source_generation record' = UINT64_MAX \<or>
             jr_target_generation record' \<noteq> jr_source_generation record' + 1 \<or> jr_flags record' \<noteq> 0 \<or>
             length payload > ZI_FS_JOURNAL_MAXIMUM_PAYLOAD_SIZE
          then False
          else if jr_record_type record' = ZI_FS_JOURNAL_RECORD_BLOCK_IMAGE
          then jr_target_block record' \<noteq> ZI_FS_JOURNAL_TARGET_NONE \<and> length payload = ZI_FS_BLOCK_SIZE \<and>
               jr_image_count record' = 0 \<and> jr_transaction_checksum record' = 0
          else if jr_target_block record' \<noteq> ZI_FS_JOURNAL_TARGET_NONE \<or> length payload \<noteq> 0 \<or> jr_image_count record' = 0
          then False
          else if jr_record_type record' = ZI_FS_JOURNAL_RECORD_BEGIN then jr_transaction_checksum record' = 0
          else if jr_record_type record' = ZI_FS_JOURNAL_RECORD_COMMIT \<or>
                  jr_record_type record' = ZI_FS_JOURNAL_RECORD_CHECKPOINT
          then jr_transaction_checksum record' \<noteq> 0
          else False)"

text \<open>The fields of a record and its payload, written into zeroed blocks.\<close>

definition journal_record_body :: "ZiFsJournalRecord \<Rightarrow> bytes \<Rightarrow> bytes \<Rightarrow> bytes" where
  "journal_record_body record' payload output =
     (let b0 = zi_memory_copy (zi_memory_zero output 0 ZI_FS_JOURNAL_RECORD_SIZE) 0 k_journal_record_magic 0 4;
          b1 = zi_write_u16_le b0 4 ZI_FS_JOURNAL_VERSION;
          b2 = zi_write_u16_le b1 6 (of_nat ZI_FS_JOURNAL_RECORD_HEADER_SIZE);
          b3 = zi_write_u16_le b2 8 (jr_record_type record');
          b4 = zi_write_u16_le b3 10 (jr_flags record');
          b5 = zi_write_u32_le b4 12 (of_nat (length payload));
          b6 = zi_write_u64_le b5 16 (jr_transaction_id record');
          b7 = zi_write_u64_le b6 24 (jr_sequence record');
          b8 = zi_write_u64_le b7 32 (jr_target_block record');
          b9 = zi_write_u64_le b8 40 (jr_source_generation record');
          b10 = zi_write_u64_le b9 48 (jr_target_generation record');
          b11 = zi_write_u32_le b10 56 (jr_image_count record');
          b12 = zi_write_u32_le b11 60 (jr_transaction_checksum record');
          b13 = zi_write_u32_le b12 64 (zi_crc32c 0 payload) in
      zi_memory_copy b13 ZI_FS_JOURNAL_RECORD_HEADER_SIZE payload 0 (length payload))"

definition ZiFsEncodeJournalRecord :: "ZiFsJournalRecord \<Rightarrow> bytes \<Rightarrow> ZiStatus \<times> bytes" where
  "ZiFsEncodeJournalRecord record' output =
     (if \<not> journal_record_is_valid record' \<or> length output < ZI_FS_JOURNAL_RECORD_SIZE
      then (ZI_STATUS_INVALID_ARGUMENT, output)
      else
        let payload = the (jr_payload record');
            bytes = journal_record_body record' payload output;
            record_checksum = zi_crc32c (zi_crc32c 0 (take 124 bytes))
              (take (length payload) (drop ZI_FS_JOURNAL_RECORD_HEADER_SIZE bytes)) in
        (ZI_STATUS_SUCCESS, zi_write_u32_le bytes 124 record_checksum))"

definition journal_record_fields :: "bytes \<Rightarrow> nat \<Rightarrow> ZiFsJournalRecord" where
  "journal_record_fields bytes payload_size =
     \<lparr>jr_transaction_id = zi_read_u64_le bytes 16, jr_sequence = zi_read_u64_le bytes 24,
      jr_target_block = zi_read_u64_le bytes 32, jr_source_generation = zi_read_u64_le bytes 40,
      jr_target_generation = zi_read_u64_le bytes 48, jr_image_count = zi_read_u32_le bytes 56,
      jr_transaction_checksum = zi_read_u32_le bytes 60, jr_record_type = zi_read_u16_le bytes 8,
      jr_flags = zi_read_u16_le bytes 10,
      jr_payload = Some (take payload_size (drop ZI_FS_JOURNAL_RECORD_HEADER_SIZE bytes))\<rparr>"

definition ZiFsDecodeJournalRecord :: "bytes \<Rightarrow> ZiFsJournalRecord result" where
  "ZiFsDecodeJournalRecord data =
     (if length data < ZI_FS_JOURNAL_RECORD_SIZE then Inl ZI_STATUS_INVALID_ARGUMENT
      else if zi_memory_compare data k_journal_record_magic 4 \<noteq> 0 \<or>
         zi_read_u16_le data 4 \<noteq> ZI_FS_JOURNAL_VERSION \<or>
         zi_read_u16_le data 6 \<noteq> of_nat ZI_FS_JOURNAL_RECORD_HEADER_SIZE
      then Inl ZI_STATUS_CORRUPT_FILESYSTEM
      else
        let payload_size = unat (zi_read_u32_le data 12) in
        if payload_size > ZI_FS_JOURNAL_MAXIMUM_PAYLOAD_SIZE then Inl ZI_STATUS_CORRUPT_FILESYSTEM
        else
          let payload = take payload_size (drop ZI_FS_JOURNAL_RECORD_HEADER_SIZE data) in
          if zi_crc32c 0 payload \<noteq> zi_read_u32_le data 64 then Inl ZI_STATUS_CHECKSUM_MISMATCH
          else if zi_crc32c (zi_crc32c 0 (take 124 data)) payload \<noteq> zi_read_u32_le data 124
          then Inl ZI_STATUS_CHECKSUM_MISMATCH
          else
            let record' = journal_record_fields data payload_size in
            if \<not> journal_record_is_valid record' then Inl ZI_STATUS_CORRUPT_FILESYSTEM
            else Inr record')"

definition ZiFsJournalExtendTransactionChecksum :: "u32 \<Rightarrow> ZiFsJournalRecord \<Rightarrow> u32 result" where
  "ZiFsJournalExtendTransactionChecksum checksum' block_image =
     (if jr_record_type block_image \<noteq> ZI_FS_JOURNAL_RECORD_BLOCK_IMAGE \<or> \<not> journal_record_is_valid block_image
      then Inl ZI_STATUS_INVALID_ARGUMENT
      else
        let d0 = zi_write_u64_le (replicate 32 0) 0 (jr_transaction_id block_image);
            d1 = zi_write_u64_le d0 8 (jr_sequence block_image);
            d2 = zi_write_u64_le d1 16 (jr_target_block block_image);
            descriptor = zi_write_u32_le d2 24 (zi_crc32c 0 (the (jr_payload block_image))) in
        Inr (zi_crc32c checksum' descriptor))"

section \<open>Loading and storing the header\<close>

text \<open>The state of the search over the copies: the header chosen so far with its copy, and the last failure.\<close>

record journal_search =
  js_selected :: "(ZiFsJournalHeader \<times> u32) option"
  js_last_status :: ZiStatus

definition load_header_copy ::
  "'d ZiBlockDevice \<Rightarrow> u64 \<Rightarrow> u32 \<Rightarrow> journal_search \<times> bytes \<times> 'd \<Rightarrow> journal_search \<times> bytes \<times> 'd" where
  "load_header_copy device journal_start copy_index = (\<lambda>(search, block_buffer, d).
     case the (bd_read_blocks device) (journal_start + ucast copy_index) 1 block_buffer d of
       (status, block_buffer1, d1) \<Rightarrow>
         if ZiFailed status then (search\<lparr>js_last_status := status\<rparr>, block_buffer1, d1)
         else
           case ZiFsDecodeJournalHeader block_buffer1 of
             Inl status1 \<Rightarrow> (search\<lparr>js_last_status := status1\<rparr>, block_buffer1, d1)
           | Inr candidate \<Rightarrow>
               (case js_selected search of
                  None \<Rightarrow> (search\<lparr>js_selected := Some (candidate, copy_index)\<rparr>, block_buffer1, d1)
                | Some (selected, _) \<Rightarrow>
                    if jh_header_sequence candidate > jh_header_sequence selected
                    then (search\<lparr>js_selected := Some (candidate, copy_index)\<rparr>, block_buffer1, d1)
                    else (search, block_buffer1, d1)))"

definition ZiFsLoadJournalHeader ::
  "'d ZiBlockDevice \<Rightarrow> u64 \<Rightarrow> bytes \<Rightarrow> 'd \<Rightarrow> (ZiFsJournalHeader \<times> u32) result \<times> bytes \<times> 'd" where
  "ZiFsLoadJournalHeader device journal_start block_buffer d =
     (if bd_read_blocks device = None \<or> length block_buffer < ZI_FS_BLOCK_SIZE \<or>
         journal_start > bd_block_count device \<or> ZI_FS_JOURNAL_HEADER_COPIES > bd_block_count device - journal_start
      then (Inl ZI_STATUS_INVALID_ARGUMENT, block_buffer, d)
      else
        case fold (load_header_copy device journal_start) [0, 1]
               (\<lparr>js_selected = None, js_last_status = ZI_STATUS_CORRUPT_FILESYSTEM\<rparr>, block_buffer, d) of
          (search, block_buffer1, d1) \<Rightarrow>
            (case js_selected search of
               None \<Rightarrow> Inl (js_last_status search)
             | Some selected \<Rightarrow> Inr selected, block_buffer1, d1))"

definition ZiFsStoreJournalHeader ::
  "'d ZiBlockDevice \<Rightarrow> u64 \<Rightarrow> u32 \<Rightarrow> ZiFsJournalHeader \<Rightarrow> bytes \<Rightarrow> 'd \<Rightarrow> ZiStatus \<times> bytes \<times> 'd" where
  "ZiFsStoreJournalHeader device journal_start copy_index header block_buffer d =
     (if ucast copy_index \<ge> ZI_FS_JOURNAL_HEADER_COPIES \<or> length block_buffer < ZI_FS_BLOCK_SIZE \<or>
         journal_start > bd_block_count device \<or> ZI_FS_JOURNAL_HEADER_COPIES > bd_block_count device - journal_start
      then (ZI_STATUS_INVALID_ARGUMENT, block_buffer, d)
      else
        case ZiFsEncodeJournalHeader header block_buffer of
          (status, block_buffer1) \<Rightarrow>
            if ZiFailed status then (status, block_buffer1, d)
            else
              case zi_block_write device (journal_start + ucast copy_index) 1 (take ZI_FS_BLOCK_SIZE block_buffer1) d of
                (status1, d1) \<Rightarrow> (status1, block_buffer1, d1))"

section \<open>Round trips\<close>

lemma length_journal_header_body [simp]: "length (journal_header_body header output) = length output"
  by (simp add: journal_header_body_def Let_def le_simps)

lemma journal_header_body_fields:
  fixes header :: ZiFsJournalHeader
  assumes "4096 \<le> length output"
  defines "bs \<equiv> journal_header_body header output"
  shows "journal_header_fields bs = header" and "zi_read_u16_le bs 4 = 1" and "zi_read_u16_le bs 6 = 128"
    and "zi_read_u32_le bs 24 = 2"
  using assms(1) unfolding bs_def journal_header_body_def Let_def journal_header_fields_def
  by (simp_all add: le_simps)

lemma journal_header_body_magic:
  assumes "4096 \<le> length output"
  shows "i < 4 \<Longrightarrow> journal_header_body header output ! i = k_journal_header_magic ! i"
  using assms unfolding journal_header_body_def Let_def
  by (simp add: le_simps nth_zi_memory_copy k_journal_header_magic_def)

lemma header_fields_checksum [simp]:
  "journal_header_fields (zi_write_u32_le bs 124 v) = journal_header_fields bs"
  by (simp add: journal_header_fields_def le_simps)

lemma decode_encode_header:
  assumes ok: "journal_header_is_valid header" and len: "4096 \<le> length output"
  shows "ZiFsDecodeJournalHeader (snd (ZiFsEncodeJournalHeader header output)) = Inr header"
proof -
  note fields = journal_header_body_fields [OF len, of header]
  define bs where "bs = zi_write_u32_le (journal_header_body header output) 124
    (zi_crc32c 0 (take 124 (journal_header_body header output)))"
  have "length bs = length output" by (simp add: bs_def le_simps)
  moreover have "bs ! i = k_journal_header_magic ! i" if "i < 4" for i
    using that journal_header_body_magic [OF len that] by (simp add: bs_def le_simps)
  then have "zi_memory_compare bs k_journal_header_magic 4 = 0"
    using len \<open>length bs = length output\<close> by (subst zi_memory_compare_0) (simp_all add: k_journal_header_magic_def)
  moreover have "zi_read_u16_le bs 4 = 1" "zi_read_u16_le bs 6 = 128" "zi_read_u32_le bs 24 = 2"
    "journal_header_fields bs = header"
    using fields by (simp_all add: bs_def le_simps)
  moreover have "zi_read_u32_le bs 124 = zi_crc32c 0 (take 124 bs)"
    using len by (simp add: bs_def le_simps)
  ultimately have "ZiFsDecodeJournalHeader bs = Inr header"
    using ok len by (simp add: ZiFsDecodeJournalHeader_def Let_def)
  then show ?thesis using ok len by (simp add: ZiFsEncodeJournalHeader_def Let_def bs_def)
qed

lemma length_journal_record_body [simp]: "length (journal_record_body r payload output) = length output"
  by (simp add: journal_record_body_def Let_def le_simps)

lemma journal_record_body_fields:
  fixes r :: ZiFsJournalRecord
  assumes len: "8192 \<le> length output" and small: "length payload \<le> 4096" and payload: "jr_payload r = Some payload"
  defines "bs \<equiv> journal_record_body r payload output"
  shows "journal_record_fields bs (length payload) = r" and "zi_read_u16_le bs 4 = 1" and "zi_read_u16_le bs 6 = 128"
    and "unat (zi_read_u32_le bs 12) = length payload" and "zi_read_u32_le bs 64 = zi_crc32c 0 payload"
    and "take (length payload) (drop 128 bs) = payload"
proof -
  have fits: "unat (of_nat (length payload) :: u32) = length payload"
    using small by (simp add: unsigned_of_nat take_bit_nat_eq_self)
  show copied: "take (length payload) (drop 128 bs) = payload"
    using len small unfolding bs_def journal_record_body_def Let_def
    by (subst zi_memory_copy_field) (simp_all add: le_simps)
  show "journal_record_fields bs (length payload) = r"
    unfolding journal_record_fields_def copied using len small payload
    unfolding bs_def journal_record_body_def Let_def by (simp add: le_simps)
  show "zi_read_u16_le bs 4 = 1" "zi_read_u16_le bs 6 = 128" "unat (zi_read_u32_le bs 12) = length payload"
    "zi_read_u32_le bs 64 = zi_crc32c 0 payload"
    using len small fits unfolding bs_def journal_record_body_def Let_def by (simp_all add: le_simps)
qed

lemma journal_record_body_magic:
  assumes "8192 \<le> length output" "length payload \<le> 4096" "i < 4"
  shows "journal_record_body r payload output ! i = k_journal_record_magic ! i"
  using assms unfolding journal_record_body_def Let_def
  by (simp add: le_simps nth_zi_memory_copy k_journal_record_magic_def)

lemma record_fields_checksum [simp]:
  "journal_record_fields (zi_write_u32_le bs 124 v) n = journal_record_fields bs n"
  by (simp add: journal_record_fields_def le_simps)

lemma valid_record_payload:
  assumes "journal_record_is_valid r"
  obtains payload where "jr_payload r = Some payload" "length payload \<le> 4096"
    "length payload = (if jr_record_type r = 2 then 4096 else 0)"
  using assms by (auto simp: journal_record_is_valid_def split: option.splits if_splits)

lemma decode_encode_record:
  assumes ok: "journal_record_is_valid r" and len: "8192 \<le> length output"
  shows "ZiFsDecodeJournalRecord (snd (ZiFsEncodeJournalRecord r output)) = Inr r"
proof -
  obtain payload where payload: "jr_payload r = Some payload" and small: "length payload \<le> 4096"
    using ok by (rule valid_record_payload)
  define body where "body = journal_record_body r payload output"
  note fields = journal_record_body_fields [OF len small payload, folded body_def]
  define bs where "bs = zi_write_u32_le body 124 (zi_crc32c (zi_crc32c 0 (take 124 body)) payload)"
  have length: "length bs = length output" by (simp add: bs_def body_def le_simps)
  have "bs ! i = k_journal_record_magic ! i" if "i < 4" for i
    using that journal_record_body_magic [OF len small that] by (simp add: bs_def body_def le_simps)
  then have "zi_memory_compare bs k_journal_record_magic 4 = 0"
    using len length by (subst zi_memory_compare_0) (simp_all add: k_journal_record_magic_def)
  moreover have "zi_read_u16_le bs 4 = 1" "zi_read_u16_le bs 6 = 128" "unat (zi_read_u32_le bs 12) = length payload"
    "zi_read_u32_le bs 64 = zi_crc32c 0 payload" "journal_record_fields bs (length payload) = r"
    using fields by (simp_all add: bs_def le_simps)
  moreover have "take (length payload) (drop 128 bs) = payload" using fields by (simp add: bs_def)
  moreover have "zi_read_u32_le bs 124 = zi_crc32c (zi_crc32c 0 (take 124 bs)) payload"
    using len by (simp add: bs_def body_def le_simps)
  ultimately have "ZiFsDecodeJournalRecord bs = Inr r"
    using ok len small length by (simp add: ZiFsDecodeJournalRecord_def Let_def)
  then show ?thesis using ok len payload fields(6)
    by (simp add: ZiFsEncodeJournalRecord_def Let_def bs_def body_def)
qed

section \<open>Detection of corruption\<close>

lemma bit_byte_bound: "bit (b :: byte) m \<Longrightarrow> m < 8"
  using bit_imp_le_length [of b m] by simp

lemma bit_read_u32:
  assumes "j < 4" "m < 8"
  shows "bit (zi_read_u32_le bs k) (8 * j + m) \<longleftrightarrow> bit (bs ! (k + j)) m"
proof -
  consider "j = 0" | "j = 1" | "j = 2" | "j = 3" using assms(1) by linarith
  then show ?thesis using assms(2)
    by cases (auto simp: zi_read_u32_le_def bit_or_iff bit_push_bit_iff bit_ucast_iff dest: bit_byte_bound)
qed

lemma read_u32_byte:
  assumes "j < 4" "zi_read_u32_le as k = zi_read_u32_le bs k"
  shows "as ! (k + j) = bs ! (k + j)"
proof (rule bit_word_eqI)
  fix m assume "m < LENGTH(8)"
  then have "m < 8" by simp
  with assms show "bit (as ! (k + j)) m \<longleftrightarrow> bit (bs ! (k + j)) m" by (metis bit_read_u32)
qed

lemma read_u32_detects:
  assumes "k \<le> i" "i < k + 4" "i < length bs" "b \<noteq> bs ! i"
  shows "zi_read_u32_le (bs[i := b]) k \<noteq> zi_read_u32_le bs k"
proof
  assume "zi_read_u32_le (bs[i := b]) k = zi_read_u32_le bs k"
  then have "bs[i := b] ! (k + (i - k)) = bs ! (k + (i - k))"
    using assms(1,2) by (intro read_u32_byte) simp_all
  with assms show False by simp
qed

lemma read_update_other [simp]:
  shows "i < k \<or> k + 2 \<le> i \<Longrightarrow> zi_read_u16_le (bs[i := b]) k = zi_read_u16_le bs k"
    and "i < k \<or> k + 4 \<le> i \<Longrightarrow> zi_read_u32_le (bs[i := b]) k = zi_read_u32_le bs k"
  by (rule u16_le.rd_cong u32_le.rd_cong; auto)+

lemma decode_header_checksum:
  assumes "ZiFsDecodeJournalHeader data = Inr header"
  shows "4096 \<le> length data" and "zi_read_u32_le data 124 = zi_crc32c 0 (take 124 data)"
  using assms by (auto simp: ZiFsDecodeJournalHeader_def Let_def split: if_splits)

lemma header_detects_byte:
  assumes ok: "ZiFsDecodeJournalHeader data = Inr header" and i: "i < 128" "b \<noteq> data ! i"
  shows "ZiFsDecodeJournalHeader (data[i := b]) \<noteq> Inr header'"
proof
  assume changed: "ZiFsDecodeJournalHeader (data[i := b]) = Inr header'"
  note sums = decode_header_checksum [OF ok] decode_header_checksum [OF changed]
  show False
  proof (cases "i < 124")
    case True
    then have "zi_crc32c 0 ((take 124 data)[i := b]) \<noteq> zi_crc32c 0 (take 124 data)"
      using sums i by (intro crc32c.total_detects) simp_all
    with True sums show False by (simp add: take_update_swap)
  next
    case False
    with sums i read_u32_detects [of 124 i data b] show False by simp
  qed
qed

text \<open>What acceptance of a record says about the bytes it was decoded from.\<close>

lemma decode_record_checks:
  assumes "ZiFsDecodeJournalRecord data = Inr r"
  defines "n \<equiv> unat (zi_read_u32_le data 12)"
  shows "8192 \<le> length data" and "zi_crc32c 0 (take n (drop 128 data)) = zi_read_u32_le data 64"
    and "zi_crc32c 0 (take 124 data @ take n (drop 128 data)) = zi_read_u32_le data 124"
    and "n \<le> 4096" and "n = (if zi_read_u16_le data 8 = 2 then 4096 else 0)"
proof -
  show len: "8192 \<le> length data" and "zi_crc32c 0 (take n (drop 128 data)) = zi_read_u32_le data 64"
    and "zi_crc32c 0 (take 124 data @ take n (drop 128 data)) = zi_read_u32_le data 124" and small: "n \<le> 4096"
    using assms(1) by (auto simp: ZiFsDecodeJournalRecord_def Let_def n_def crc32c.total_append split: if_splits)
  have "journal_record_is_valid (journal_record_fields data n)"
    using assms(1) by (auto simp: ZiFsDecodeJournalRecord_def Let_def n_def split: if_splits)
  then show "n = (if zi_read_u16_le data 8 = 2 then 4096 else 0)"
    using len small by (auto simp: journal_record_fields_def elim!: valid_record_payload split: if_splits)
qed

lemma record_detects_byte:
  assumes ok: "ZiFsDecodeJournalRecord data = Inr r"
    and i: "i < 128 + unat (zi_read_u32_le data 12)" "b \<noteq> data ! i"
  shows "ZiFsDecodeJournalRecord (data[i := b]) \<noteq> Inr r'"
proof
  assume changed: "ZiFsDecodeJournalRecord (data[i := b]) = Inr r'"
  note old = decode_record_checks [OF ok] and new = decode_record_checks [OF changed]
  have inside: "i < length data" using old i by linarith
  define n where "n = unat (zi_read_u32_le data 12)"
  consider "12 \<le> i" "i < 16" | "i < 12 \<or> 16 \<le> i \<and> i < 124" | "124 \<le> i" "i < 128" | "128 \<le> i" by linarith
  then show False
  proof cases
    case 1
    then have "unat (zi_read_u32_le (data[i := b]) 12) = unat (zi_read_u32_le data 12)" using old(5) new(5) by simp
    then have "zi_read_u32_le (data[i := b]) 12 = zi_read_u32_le data 12" by (simp only: word_unat_eq_iff)
    with 1 inside i(2) read_u32_detects [of 12 i data b] show False by simp
  next
    case 2
    let ?all = "take 124 data @ take n (drop 128 data)"
    have upd: "?all[i := b] = take 124 (data[i := b]) @ take n (drop 128 (data[i := b]))"
      using 2 inside by (auto simp: list_update_append take_update_swap)
    have "zi_crc32c 0 (?all[i := b]) \<noteq> zi_crc32c 0 ?all"
      using 2 old(1) i by (intro crc32c.total_detects) (auto simp: nth_append)
    moreover have "zi_read_u32_le (data[i := b]) 12 = zi_read_u32_le data 12"
      "zi_read_u32_le (data[i := b]) 124 = zi_read_u32_le data 124" using 2 by auto
    ultimately show False using old(3) new(3) unfolding upd unfolding n_def by simp
  next
    case 3
    have "take 124 (data[i := b]) = take 124 data" "drop 128 (data[i := b]) = drop 128 data"
      "zi_read_u32_le (data[i := b]) 12 = zi_read_u32_le data 12" using 3 by simp_all
    then have "zi_read_u32_le (data[i := b]) 124 = zi_read_u32_le data 124" using old(3) new(3) by (simp only:)
    moreover have "zi_read_u32_le (data[i := b]) 124 \<noteq> zi_read_u32_le data 124"
      using 3 inside i(2) by (intro read_u32_detects) simp_all
    ultimately show False by contradiction
  next
    case 4
    let ?p = "take n (drop 128 data)"
    have "zi_crc32c 0 (?p[i - 128 := b]) \<noteq> zi_crc32c 0 ?p"
      using 4 old(1,4) i by (intro crc32c.total_detects) (auto simp: n_def)
    moreover have "?p[i - 128 := b] = take n (drop 128 (data[i := b]))"
      using 4 by (simp add: take_update_swap drop_update_swap)
    ultimately show False using 4 old(2) new(2) unfolding n_def by simp
  qed
qed

section \<open>Arithmetic of the ring\<close>

lemma ZiFsJournalAdvanceRecord_mod:
  assumes "index < capacity"
  obtains next' where "ZiFsJournalAdvanceRecord capacity index n = Inr next'"
    "unat next' = (unat index + unat n) mod unat capacity"
proof -
  define c i r where "c = unat capacity" and "i = unat index" and "r = unat n mod c"
  have lt: "i < c" using assms by (simp add: word_less_nat_alt c_def i_def)
  have c64: "c < 2 ^ 64" using unsigned_less [of capacity] by (simp add: c_def)
  have r: "unat (n mod capacity) = r" "r < c" using lt by (simp_all add: unat_mod r_def c_def)
  have gap: "unat (capacity - index) = c - i" using assms by (simp add: unat_sub c_def i_def)
  have sum: "(i + unat n) mod c = (i + r) mod c" by (simp add: r_def mod_add_right_eq)
  have ok: "capacity \<noteq> 0" "\<not> capacity \<le> index" using assms by auto
  show thesis
  proof (cases "capacity - index \<le> n mod capacity")
    case True
    then have "c - i \<le> r" by (simp add: word_le_nat_alt gap r)
    then have "(i + r) mod c = r - (c - i)" using lt r(2) by (simp add: le_mod_geq)
    moreover have "unat (n mod capacity - (capacity - index)) = r - (c - i)" using True by (simp only: unat_sub gap r)
    ultimately have "unat (n mod capacity - (capacity - index)) = (i + r) mod c" by (simp only:)
    then show thesis using that ok True sum by (simp add: ZiFsJournalAdvanceRecord_def Let_def c_def i_def)
  next
    case False
    then have "r < c - i" by (simp add: word_le_nat_alt gap r)
    then have "unat (index + n mod capacity) = (i + r) mod c"
      using c64 by (subst unat_u64_add) (simp_all add: r i_def)
    then show thesis using that ok False sum by (simp add: ZiFsJournalAdvanceRecord_def Let_def c_def i_def)
  qed
qed

text \<open>The occupied part of the ring is the distance from the tail to the head.\<close>

lemma journal_ring_space_distance:
  assumes "5 \<le> unat capacity" "head < capacity" "tail < capacity"
  obtains occupied available where "journal_ring_space capacity head tail = Some (occupied, available)"
    "unat occupied = (unat head + unat capacity - unat tail) mod unat capacity"
    "unat occupied + unat available + 1 = unat capacity"
proof -
  define occ where "occ = (if head \<ge> tail then head - tail else capacity - (tail - head))"
  have nat: "unat head < unat capacity" "unat tail < unat capacity"
    using assms by (simp_all add: word_less_nat_alt)
  have occ: "unat occ = (unat head + unat capacity - unat tail) mod unat capacity"
  proof (cases "tail \<le> head")
    case True
    then have "unat tail \<le> unat head" by (simp add: word_le_nat_alt)
    then have "unat head + unat capacity - unat tail = (unat head - unat tail) + unat capacity" by simp
    moreover have "(unat head - unat tail) mod unat capacity = unat head - unat tail" using nat by simp
    moreover have "unat occ = unat head - unat tail" using True by (simp add: occ_def unat_sub)
    ultimately show ?thesis by (simp only: mod_add_self2)
  next
    case False
    then have "head \<le> tail" and less: "unat head < unat tail" by (simp_all add: word_le_nat_alt)
    then have "unat (tail - head) = unat tail - unat head" by (simp add: unat_sub)
    moreover from this have "tail - head \<le> capacity" using nat by (simp add: word_le_nat_alt)
    ultimately have "unat occ = unat capacity - (unat tail - unat head)" using False by (simp add: occ_def unat_sub)
    also have "\<dots> = unat head + unat capacity - unat tail" using less nat by linarith
    also have "\<dots> = (unat head + unat capacity - unat tail) mod unat capacity" using less nat by (intro mod_less [symmetric]) linarith
    finally show ?thesis .
  qed
  then have less: "unat occ < unat capacity" using assms(1) by simp
  then have sub: "unat (capacity - occ) = unat capacity - unat occ" by (intro unat_sub) (simp add: word_le_nat_alt)
  with less have "1 \<le> capacity - occ" by (simp add: word_le_nat_alt)
  then have "unat (capacity - occ - 1) = unat capacity - unat occ - 1" by (simp add: unat_sub sub)
  with less have total: "unat occ + unat (capacity - occ - 1) + 1 = unat capacity" by simp
  have "journal_ring_space capacity head tail = Some (occ, capacity - occ - 1)"
    using assms by (auto simp: journal_ring_space_def occ_def Let_def word_less_nat_alt word_le_nat_alt)
  then show thesis using occ total by (rule that)
qed

section \<open>Headers on a device\<close>

text \<open>
  A device that keeps the blocks written to it: a read of one block returns its contents, and a write
  that succeeds replaces the contents of that block and of no other.
\<close>

definition block_memory :: "'d ZiBlockDevice \<Rightarrow> ('d \<Rightarrow> u64 \<Rightarrow> bytes) \<Rightarrow> bool" where
  "block_memory device content \<longleftrightarrow>
     bd_read_blocks device \<noteq> None \<and> bd_block_size device = 4096 \<and> (\<forall>d b. length (content d b) = 4096) \<and>
     (\<forall>b buffer d. b < bd_block_count device \<and> 4096 \<le> length buffer \<longrightarrow>
        the (bd_read_blocks device) b 1 buffer d = (ZI_STATUS_SUCCESS, content d b @ drop 4096 buffer, d)) \<and>
     (\<forall>b input d status d'. the (bd_write_blocks device) b 1 input d = (status, d') \<and> \<not> ZiFailed status \<longrightarrow>
        content d' = (content d)(b := input))"

lemma decode_header_prefix:
  assumes "length bs = 4096"
  shows "ZiFsDecodeJournalHeader (bs @ rest) = ZiFsDecodeJournalHeader bs"
proof -
  have "zi_read_u16_le (bs @ rest) k = zi_read_u16_le bs k" if "k + 2 \<le> 4096" for k
    by (rule u16_le.rd_cong) (use that assms in \<open>simp add: nth_append\<close>)
  moreover have "zi_read_u32_le (bs @ rest) k = zi_read_u32_le bs k" if "k + 4 \<le> 4096" for k
    by (rule u32_le.rd_cong) (use that assms in \<open>simp add: nth_append\<close>)
  moreover have "zi_read_u64_le (bs @ rest) k = zi_read_u64_le bs k" if "k + 8 \<le> 4096" for k
    by (rule u64_le.rd_cong) (use that assms in \<open>simp add: nth_append\<close>)
  moreover have "zi_memory_compare (bs @ rest) k_journal_header_magic 4 = 0 \<longleftrightarrow>
      zi_memory_compare bs k_journal_header_magic 4 = 0"
    using assms by (simp add: zi_memory_compare_0 k_journal_header_magic_def nth_append)
  ultimately show ?thesis using assms by (simp add: ZiFsDecodeJournalHeader_def journal_header_fields_def)
qed

text \<open>What the two copies on the device decode to determines what is loaded.\<close>

definition newest_header ::
  "ZiFsJournalHeader result \<Rightarrow> ZiFsJournalHeader result \<Rightarrow> (ZiFsJournalHeader \<times> u32) result" where
  "newest_header first second =
     (case (first, second) of
        (Inr h0, Inr h1) \<Rightarrow> Inr (if jh_header_sequence h1 > jh_header_sequence h0 then (h1, 1) else (h0, 0))
      | (Inr h0, Inl _) \<Rightarrow> Inr (h0, 0)
      | (Inl _, Inr h1) \<Rightarrow> Inr (h1, 1)
      | (Inl _, Inl status) \<Rightarrow> Inl status)"

lemma load_header_contents:
  assumes mem: "block_memory device content" and len: "4096 \<le> length buffer"
    and start: "unat start + 2 \<le> unat (bd_block_count device)"
  shows "fst (ZiFsLoadJournalHeader device start buffer d) =
    newest_header (ZiFsDecodeJournalHeader (content d start)) (ZiFsDecodeJournalHeader (content d (start + 1)))"
proof -
  have less: "unat (bd_block_count device) < 2 ^ 64" using unsigned_less [of "bd_block_count device"] by simp
  have next': "unat (start + 1) = unat start + 1" using start less by (subst unat_u64_add) simp_all
  have inside: "start < bd_block_count device" "start + 1 < bd_block_count device" "start \<le> bd_block_count device"
    using start next' by (simp_all add: word_less_nat_alt word_le_nat_alt)
  then have room: "\<not> bd_block_count device - start < 2" using start by (simp add: word_less_nat_alt unat_sub)
  have read: "the (bd_read_blocks device) b 1 bs d = (ZI_STATUS_SUCCESS, content d b @ drop 4096 bs, d)"
    if "b < bd_block_count device" "4096 \<le> length bs" for b bs
    using mem that unfolding block_memory_def by blast
  have size': "length (content d b) = 4096" and "bd_read_blocks device \<noteq> None" for b
    using mem unfolding block_memory_def by blast+
  then show ?thesis
    using len inside room read decode_header_prefix [OF size']
    by (auto simp: ZiFsLoadJournalHeader_def load_header_copy_def newest_header_def split: sum.splits)
qed

lemma store_header_contents:
  assumes mem: "block_memory device content" and len: "4096 \<le> length buffer"
    and store: "ZiFsStoreJournalHeader device start copy header buffer d = (status, buffer', d')" "\<not> ZiFailed status"
  shows "copy < 2" and "journal_header_is_valid header"
    and "unat start + 2 \<le> unat (bd_block_count device)"
    and "content d' = (content d)(start + ucast copy := take 4096 (snd (ZiFsEncodeJournalHeader header buffer)))"
proof -
  let ?bytes = "snd (ZiFsEncodeJournalHeader header buffer)"
  have guards: "ucast copy < (2 :: u64)" "start \<le> bd_block_count device" "2 \<le> bd_block_count device - start"
    and ok: "journal_header_is_valid header"
    and wr: "zi_block_write device (start + ucast copy) 1 (take 4096 ?bytes) d = (status, d')"
    using store len by (auto simp: ZiFsStoreJournalHeader_def ZiFsEncodeJournalHeader_def Let_def split: if_splits prod.splits)
  show "journal_header_is_valid header" by (rule ok)
  show "copy < 2" using guards(1) by (simp add: word_less_nat_alt)
  show "unat start + 2 \<le> unat (bd_block_count device)"
    using guards(2,3) by (simp add: word_le_nat_alt unat_sub)
  have "the (bd_write_blocks device) (start + ucast copy) 1 (take 4096 ?bytes) d = (status, d')"
    using wr store(2) by (auto simp: zi_block_write_def split: if_splits)
  with mem store(2) show "content d' = (content d)(start + ucast copy := take 4096 ?bytes)"
    unfolding block_memory_def by blast
qed

lemma length_encode_header [simp]: "length (snd (ZiFsEncodeJournalHeader header output)) = length output"
  by (simp add: ZiFsEncodeJournalHeader_def Let_def le_simps)

lemma decode_stored_header:
  assumes "journal_header_is_valid header" "4096 \<le> length output"
  shows "ZiFsDecodeJournalHeader (take 4096 (snd (ZiFsEncodeJournalHeader header output))) = Inr header"
proof -
  let ?bytes = "snd (ZiFsEncodeJournalHeader header output)"
  have "ZiFsDecodeJournalHeader (take 4096 ?bytes @ drop 4096 ?bytes) = ZiFsDecodeJournalHeader (take 4096 ?bytes)"
    using assms(2) by (intro decode_header_prefix) simp
  then show ?thesis using decode_encode_header [OF assms] by simp
qed

text \<open>The place of the copy that is not being written.\<close>

lemma copy_cases:
  assumes "copy < (2 :: u32)"
  obtains "copy = 0" | "copy = 1"
proof -
  have "unat copy = 0 \<or> unat copy = 1" using assms by (simp add: word_less_nat_alt) linarith
  then show thesis using that by (metis unat_0 unat_1 word_unat_eq_iff)
qed

section \<open>Bitmaps as sets\<close>

definition allocated_blocks :: "bytes \<Rightarrow> nat set" where
  "allocated_blocks bitmap = {n. n div 8 < length bitmap \<and> bit (bitmap ! (n div 8)) (n mod 8)}"

lemma allocated_update:
  assumes "n div 8 < length bitmap" and "\<And>m. m < 8 \<Longrightarrow> bit w m = (if m = n mod 8 then v else bit (bitmap ! (n div 8)) m)"
  shows "allocated_blocks (bitmap[n div 8 := w]) = (if v then insert n (allocated_blocks bitmap) else allocated_blocks bitmap - {n})"
proof -
  have mem: "k \<in> allocated_blocks (bitmap[n div 8 := w]) \<longleftrightarrow> (if k = n then v else k \<in> allocated_blocks bitmap)" for k
  proof (cases "k div 8 = n div 8")
    case True
    have "k \<in> allocated_blocks (bitmap[n div 8 := w]) \<longleftrightarrow> bit w (k mod 8)"
      using assms(1) by (simp add: allocated_blocks_def True)
    also have "\<dots> \<longleftrightarrow> (if k mod 8 = n mod 8 then v else bit (bitmap ! (n div 8)) (k mod 8))"
      by (rule assms(2)) simp
    also have "\<dots> \<longleftrightarrow> (if k = n then v else k \<in> allocated_blocks bitmap)"
      using True assms(1) div_mult_mod_eq [of k 8] div_mult_mod_eq [of n 8] by (auto simp: allocated_blocks_def)
    finally show ?thesis .
  next
    case False
    then have "k \<noteq> n" by blast
    with False show ?thesis by (simp add: allocated_blocks_def)
  qed
  show ?thesis by (rule set_eqI, unfold mem) auto
qed

section \<open>Properties\<close>

definition sample_record :: ZiFsJournalRecord where
  "sample_record =
     \<lparr>jr_transaction_id = 7, jr_sequence = 9, jr_target_block = UINT64_MAX, jr_source_generation = 3,
      jr_target_generation = 4, jr_image_count = 1, jr_transaction_checksum = 0, jr_record_type = 1, jr_flags = 0,
      jr_payload = Some []\<rparr>"

definition sample_header :: ZiFsJournalHeader where
  "sample_header =
     \<lparr>jh_header_sequence = 2, jh_volume_generation = 1, jh_record_capacity = 8, jh_head_record = 3, jh_tail_record = 3,
      jh_next_sequence = 4, jh_next_transaction_id = 2, jh_last_committed_transaction = 1,
      jh_last_checkpoint_transaction = 1, jh_flags = 0\<rparr>"

lemma sample_record_valid: "journal_record_is_valid sample_record"
  by (simp add: journal_record_is_valid_def sample_record_def)

lemma sample_header_valid: "journal_header_is_valid sample_header"
  by (simp add: journal_header_is_valid_def journal_ring_space_def sample_header_def)

text \<open>
  C35: A valid journal record written into a buffer of at least two blocks, whatever the buffer held
  before, is read back unchanged, payload included.
\<close>

theorem journal_record_round_trip:
  assumes "journal_record_is_valid r" "8192 \<le> length output"
  shows "fst (ZiFsEncodeJournalRecord r output) = ZI_STATUS_SUCCESS \<and>
    ZiFsDecodeJournalRecord (snd (ZiFsEncodeJournalRecord r output)) = Inr r"
  using assms decode_encode_record [OF assms] by (simp add: ZiFsEncodeJournalRecord_def Let_def)

theorem journal_record_round_trip_witness:
  "ZiFsDecodeJournalRecord (snd (ZiFsEncodeJournalRecord sample_record (replicate 8192 0xff))) = Inr sample_record"
  using journal_record_round_trip [OF sample_record_valid, of "replicate 8192 0xff"] by simp

text \<open>
  C9: The decoders accept no damaged copy of what they accept: changing any one byte of an accepted
  header, or any one byte of the header or payload of an accepted record, makes decoding fail.
\<close>

theorem journal_detects_byte:
  assumes "b \<noteq> data ! i"
  shows "(\<forall>h. ZiFsDecodeJournalHeader data = Inr h \<and> i < 128 \<longrightarrow> (\<exists>s. ZiFsDecodeJournalHeader (data[i := b]) = Inl s)) \<and>
    (\<forall>r. ZiFsDecodeJournalRecord data = Inr r \<and> i < 128 + length (the (jr_payload r)) \<longrightarrow>
      (\<exists>s. ZiFsDecodeJournalRecord (data[i := b]) = Inl s))"
proof (intro conjI allI impI)
  fix h assume "ZiFsDecodeJournalHeader data = Inr h \<and> i < 128"
  with assms have "ZiFsDecodeJournalHeader (data[i := b]) \<noteq> Inr h'" for h' using header_detects_byte by blast
  then show "\<exists>s. ZiFsDecodeJournalHeader (data[i := b]) = Inl s" by (metis sum.exhaust)
next
  fix r assume r: "ZiFsDecodeJournalRecord data = Inr r \<and> i < 128 + length (the (jr_payload r))"
  then have "length (the (jr_payload r)) \<le> unat (zi_read_u32_le data 12)"
    by (auto simp: ZiFsDecodeJournalRecord_def journal_record_fields_def Let_def split: if_splits)
  with r assms have "ZiFsDecodeJournalRecord (data[i := b]) \<noteq> Inr r'" for r'
    by (intro record_detects_byte) auto
  then show "\<exists>s. ZiFsDecodeJournalRecord (data[i := b]) = Inl s" by (metis sum.exhaust)
qed

theorem journal_detects_byte_witness:
  "\<exists>b s. ZiFsDecodeJournalRecord ((snd (ZiFsEncodeJournalRecord sample_record (replicate 8192 0)))[20 := b]) = Inl s"
proof -
  let ?data = "snd (ZiFsEncodeJournalRecord sample_record (replicate 8192 0))"
  have "ZiFsDecodeJournalRecord ?data = Inr sample_record"
    using decode_encode_record [OF sample_record_valid, of "replicate 8192 0"] by simp
  moreover have "?data ! 20 + 1 \<noteq> ?data ! 20" by simp
  then have "(\<forall>r. ZiFsDecodeJournalRecord ?data = Inr r \<and> 20 < 128 + length (the (jr_payload r)) \<longrightarrow>
      (\<exists>s. ZiFsDecodeJournalRecord (?data[20 := ?data ! 20 + 1]) = Inl s))"
    by (rule journal_detects_byte [THEN conjunct2])
  moreover have "(20 :: nat) < 128 + length (the (jr_payload sample_record))" by simp
  ultimately show ?thesis by blast
qed

text \<open>
  C36: Appending never overtakes the tail. In a ring that reports \<open>available\<close> free records, moving the
  head forward by at most that many succeeds, is counting modulo the capacity, and leaves exactly the
  sum occupied, with one record kept free.
\<close>

theorem journal_ring_append:
  assumes "journal_ring_space capacity head tail = Some (occupied, available)" and "n \<le> available"
  shows "\<exists>head' occupied' available'. ZiFsJournalAdvanceRecord capacity head n = Inr head' \<and>
    unat head' = (unat head + unat n) mod unat capacity \<and>
    journal_ring_space capacity head' tail = Some (occupied', available') \<and>
    unat occupied' = unat occupied + unat n \<and> unat available' + unat n = unat available \<and>
    unat occupied' + unat available' + 1 = unat capacity"
proof -
  have cap: "5 \<le> unat capacity" "head < capacity" "tail < capacity"
    using assms(1) by (auto simp: journal_ring_space_def word_less_nat_alt word_le_nat_alt split: if_splits)
  have occ: "unat occupied = (unat head + unat capacity - unat tail) mod unat capacity"
    "unat occupied + unat available + 1 = unat capacity"
    using journal_ring_space_distance [OF cap] assms(1) by (metis option.inject prod.inject)+
  obtain head' where head': "ZiFsJournalAdvanceRecord capacity head n = Inr head'"
    "unat head' = (unat head + unat n) mod unat capacity" using ZiFsJournalAdvanceRecord_mod [OF cap(2)] .
  have "head' < capacity" using cap(1) head'(2) by (simp add: word_less_nat_alt)
  then obtain occupied' available' where space: "journal_ring_space capacity head' tail = Some (occupied', available')"
    "unat occupied' = (unat head' + unat capacity - unat tail) mod unat capacity"
    "unat occupied' + unat available' + 1 = unat capacity" using journal_ring_space_distance [OF cap(1) _ cap(3)] by metis
  have tail: "unat tail \<le> unat capacity" using cap(3) by (simp add: word_less_nat_alt)
  have "unat occupied' = (unat head' + (unat capacity - unat tail)) mod unat capacity" using space(2) tail by simp
  also have "\<dots> = (unat head + unat n + (unat capacity - unat tail)) mod unat capacity" unfolding head'(2) by (rule mod_add_left_eq)
  also have "\<dots> = ((unat head + unat capacity - unat tail) + unat n) mod unat capacity" using tail by (simp add: algebra_simps)
  also have "\<dots> = (unat occupied + unat n) mod unat capacity" unfolding occ(1) by (rule mod_add_left_eq [symmetric])
  also have "\<dots> = unat occupied + unat n" using occ(2) assms(2) by (intro mod_less) (simp add: word_le_nat_alt)
  finally have "unat occupied' = unat occupied + unat n" .
  with head' space occ(2) show ?thesis by auto
qed

theorem journal_ring_append_witness:
  "\<exists>head' occupied' available'. ZiFsJournalAdvanceRecord 8 6 4 = Inr head' \<and> unat head' = (6 + 4) mod 8 \<and>
     journal_ring_space 8 head' 5 = Some (occupied', available') \<and> unat occupied' = 1 + 4"
proof -
  have "journal_ring_space 8 6 5 = Some (1, 6)" by (simp add: journal_ring_space_def)
  then have "\<exists>head' occupied' available'. ZiFsJournalAdvanceRecord 8 6 4 = Inr head' \<and>
      unat head' = (unat (6 :: u64) + unat (4 :: u64)) mod unat (8 :: u64) \<and>
      journal_ring_space 8 head' 5 = Some (occupied', available') \<and> unat occupied' = unat (1 :: u64) + unat (4 :: u64) \<and>
      unat available' + unat (4 :: u64) = unat (6 :: u64) \<and> unat occupied' + unat available' + 1 = unat (8 :: u64)"
    by (rule journal_ring_append) simp
  then show ?thesis by simp blast
qed

text \<open>
  C34: A journal header stored on a device that keeps its blocks is the one loaded next, from the copy it
  was stored in, when the other copy holds no header or one with a smaller sequence number.
\<close>

theorem journal_header_store_load:
  assumes "block_memory device content" "4096 \<le> length buffer" "4096 \<le> length buffer2"
    and "ZiFsStoreJournalHeader device start copy header buffer d = (status, buffer', d')" "\<not> ZiFailed status"
    and older: "\<And>h. ZiFsDecodeJournalHeader (content d (start + ucast (1 - copy))) = Inr h \<Longrightarrow>
      jh_header_sequence h < jh_header_sequence header"
  shows "fst (ZiFsLoadJournalHeader device start buffer2 d') = Inr (header, copy)"
proof -
  note S = store_header_contents [OF assms(1,2,4,5)]
  note L = load_header_contents [OF assms(1,3) S(3), of d']
  note stored = decode_stored_header [OF S(2) assms(2)]
  from S(1) show ?thesis
  proof (cases rule: copy_cases)
    case 1
    then show ?thesis using older unfolding L S(4)
      by (auto simp: stored newest_header_def split: sum.splits)
  next
    case 2
    then show ?thesis using older unfolding L S(4)
      by (auto simp: stored newest_header_def split: sum.splits)
  qed
qed

text \<open>A device with eight blocks of memory.\<close>

definition memory_device :: "(u64 \<Rightarrow> bytes) ZiBlockDevice" where
  "memory_device =
     \<lparr>bd_struct_size = SIZEOF_BLOCK_DEVICE, bd_version = ZI_BLOCK_DEVICE_VERSION, bd_block_size = 4096, bd_block_count = 8,
      bd_read_blocks = Some (\<lambda>b _ buffer d. (ZI_STATUS_SUCCESS, take 4096 (d b @ replicate 4096 0) @ drop 4096 buffer, d)),
      bd_flush = None, bd_flags = ZI_BLOCK_DEVICE_WRITE_SUPPORTED,
      bd_write_blocks = Some (\<lambda>b _ input d. if length input = 4096 then (ZI_STATUS_SUCCESS, d(b := input))
        else (ZI_STATUS_INVALID_ARGUMENT, d))\<rparr>"

definition memory_content :: "(u64 \<Rightarrow> bytes) \<Rightarrow> u64 \<Rightarrow> bytes" where
  "memory_content d b = take 4096 (d b @ replicate 4096 0)"

lemma memory_device_keeps: "block_memory memory_device memory_content"
  by (auto simp: block_memory_def memory_device_def memory_content_def fun_eq_iff split: if_splits)

lemma decode_blank: "ZiFsDecodeJournalHeader (memory_content (\<lambda>_. []) b) = Inl ZI_STATUS_CORRUPT_FILESYSTEM"
proof -
  have "memory_content (\<lambda>_. []) b = replicate 4096 0" by (simp add: memory_content_def)
  moreover have "zi_memory_compare (replicate 4096 0) k_journal_header_magic 4 \<noteq> 0"
    by (subst zi_memory_compare_0) (auto simp: k_journal_header_magic_def intro!: exI [of _ 0])
  ultimately show ?thesis by (simp add: ZiFsDecodeJournalHeader_def)
qed

lemma store_sample:
  "\<exists>buffer'. ZiFsStoreJournalHeader memory_device 2 1 sample_header (replicate 4096 0) (\<lambda>_. []) =
     (ZI_STATUS_SUCCESS, buffer', (\<lambda>_. [])(3 := take 4096 (snd (ZiFsEncodeJournalHeader sample_header (replicate 4096 0)))))"
proof -
  define bytes where "bytes = snd (ZiFsEncodeJournalHeader sample_header (replicate 4096 0))"
  have "fst (ZiFsEncodeJournalHeader sample_header (replicate 4096 0)) = ZI_STATUS_SUCCESS"
    by (simp add: ZiFsEncodeJournalHeader_def sample_header_valid Let_def)
  then have encoded: "ZiFsEncodeJournalHeader sample_header (replicate 4096 0) = (ZI_STATUS_SUCCESS, bytes)"
    by (simp add: prod_eq_iff bytes_def)
  have "length bytes = 4096" by (simp add: bytes_def)
  moreover have "\<not> (2 :: u64) \<le> 1" by (simp add: word_le_nat_alt)
  ultimately show ?thesis unfolding encoded ZiFsStoreJournalHeader_def
    by (simp add: memory_device_def zi_block_write_def encoded)
qed

theorem journal_header_store_load_witness:
  "\<exists>buffer' d'. ZiFsStoreJournalHeader memory_device 2 1 sample_header (replicate 4096 0) (\<lambda>_. []) = (ZI_STATUS_SUCCESS, buffer', d') \<and>
     fst (ZiFsLoadJournalHeader memory_device 2 (replicate 4096 7) d') = Inr (sample_header, 1)"
proof -
  obtain buffer' d' where store: "ZiFsStoreJournalHeader memory_device 2 1 sample_header (replicate 4096 0) (\<lambda>_. []) =
    (ZI_STATUS_SUCCESS, buffer', d')" using store_sample by blast
  have "fst (ZiFsLoadJournalHeader memory_device 2 (replicate 4096 7) d') = Inr (sample_header, 1)"
    by (rule journal_header_store_load [OF memory_device_keeps _ _ store]) (simp_all add: decode_blank)
  with store show ?thesis by blast
qed



text \<open>
  C38: An allocation bitmap is a set of block numbers. Setting or clearing the bit of a block in range adds
  or removes exactly that block and keeps the size, a query is membership, and a block out of range is
  refused by both without a change.
\<close>

theorem allocation_bitmap_is_set:
  "if unat n div 8 < length bitmap
   then (\<exists>bitmap'. ZiFsAllocationBitSet bitmap n a = (ZI_STATUS_SUCCESS, bitmap') \<and> length bitmap' = length bitmap \<and>
     allocated_blocks bitmap' = (if a then insert (unat n) (allocated_blocks bitmap) else allocated_blocks bitmap - {unat n})) \<and>
     ZiFsAllocationBitQuery bitmap n = Inr (unat n \<in> allocated_blocks bitmap)
   else ZiFsAllocationBitSet bitmap n a = (ZI_STATUS_INVALID_ARGUMENT, bitmap) \<and>
     ZiFsAllocationBitQuery bitmap n = Inl ZI_STATUS_INVALID_ARGUMENT"
proof (cases "unat n div 8 < length bitmap")
  case True
  let ?w = "bitmap ! (unat n div 8)" and ?m = "2 ^ (unat n mod 8) :: byte"
  have at: "unat (n div 8) = unat n div 8" "unat (n mod 8) = unat n mod 8" by (simp_all add: unat_div unat_mod)
  have single: "bit ?m k \<longleftrightarrow> k = unat n mod 8" for k by (auto simp: bit_exp_iff)
  have set: "allocated_blocks (bitmap[unat n div 8 := ?w OR ?m]) = insert (unat n) (allocated_blocks bitmap)"
    using True by (subst allocated_update [where v = True]) (auto simp: bit_or_iff single)
  have clear: "allocated_blocks (bitmap[unat n div 8 := ?w AND NOT ?m]) = allocated_blocks bitmap - {unat n}"
    using True by (subst allocated_update [where v = False]) (auto simp: bit_and_iff bit_not_iff single)
  have some: "bitmap \<noteq> []" "\<not> length bitmap \<le> unat (n div 8)" using True by (auto simp: at)
  then have "ZiFsAllocationBitQuery bitmap n = Inr (unat n \<in> allocated_blocks bitmap)"
    using True by (simp add: ZiFsAllocationBitQuery_def Let_def at and_exp_eq_0_iff_not_bit allocated_blocks_def)
  then show ?thesis using True some set clear by (simp add: ZiFsAllocationBitSet_def Let_def at)
next
  case False
  then have "length bitmap \<le> unat (n div 8)" by (simp add: unat_div)
  with False show ?thesis by (simp add: ZiFsAllocationBitSet_def ZiFsAllocationBitQuery_def)
qed

text \<open>
  C37: Every record of the ring has its own two blocks, after the header copies and inside the journal:
  for the capacity computed from the size of the journal, the block of record \<open>i\<close> is found and is
  \<open>2 + 2 * i\<close> blocks from the start.
\<close>

theorem journal_record_placement:
  assumes cap: "ZiFsJournalRecordCapacity blocks = Inr capacity" and fits: "unat start + unat blocks \<le> 2 ^ 64"
    and i: "i < capacity"
  shows "\<exists>b. ZiFsJournalRecordBlock start capacity i = Inr b \<and> unat b = unat start + 2 + 2 * unat i \<and>
    unat b + 2 \<le> unat start + unat blocks"
proof -
  have cap': "2 < blocks" "capacity = (blocks - 2) div 2"
    using cap by (auto simp: ZiFsJournalRecordCapacity_def Let_def split: if_splits)
  have b64: "unat blocks < 2 ^ 64" using unsigned_less [of blocks] by simp
  have "unat (blocks - 2) = unat blocks - 2" using cap'(1) by (simp add: unat_sub word_less_nat_alt word_le_nat_alt)
  then have "unat capacity = (unat blocks - 2) div 2" using cap'(2) by (simp add: unat_div)
  then have in_ring: "2 * unat i + 4 \<le> unat blocks" using i by (simp add: word_less_nat_alt)
  have double: "unat (i * 2) = 2 * unat i" using in_ring b64 by (subst unat_mult_lem [THEN iffD1]) simp_all
  have rel: "unat (2 + i * 2) = 2 + 2 * unat i" using in_ring b64 by (subst unat_u64_add) (simp_all add: double)
  have place: "unat (start + (2 + i * 2)) = unat start + 2 + 2 * unat i"
    using in_ring fits by (subst unat_u64_add) (simp_all add: rel)
  have "\<not> UINT64_MAX - (2 + i * 2) < start" unfolding u64_sum_overflows rel using in_ring fits by simp
  moreover have "\<not> (UINT64_MAX - 2) div 2 < i"
    using in_ring b64 by (simp add: word_less_nat_alt unat_div)
  ultimately have "ZiFsJournalRecordBlock start capacity i = Inr (start + (2 + i * 2))"
    using i by (auto simp: ZiFsJournalRecordBlock_def Let_def)
  with place in_ring show ?thesis by auto
qed

theorem journal_record_placement_witness:
  "\<exists>b. ZiFsJournalRecordCapacity 12 = Inr 5 \<and> ZiFsJournalRecordBlock 100 5 4 = Inr b \<and> unat b = 100 + 2 + 2 * 4"
proof -
  have cap: "ZiFsJournalRecordCapacity 12 = Inr 5" by (simp add: ZiFsJournalRecordCapacity_def Let_def)
  show ?thesis using journal_record_placement [OF cap, of 100 4] cap by auto
qed

end
