(* ===== verification/Zi_Gpt.thy ===== *)
theory Zi_Gpt
  imports Zi_Bytes Zi_Block
begin

text \<open>
  Reading of GUID partition tables, \<^verbatim>\<open>kernel/io/storage/gpt.c\<close>: the protective record, the header with its
  checksum, the checksum over the entries, and the decoding of the entries with their checks.

  The block buffer and the caller's array of partitions are lists that are passed along and returned, since
  both are overwritten on failure too. The two loops that read from the device are partial functions: their
  value is \<^term>\<open>None\<close> if they do not end. Pointers are never \<^verbatim>\<open>NULL\<close>, except for the array of a table.
\<close>

unbundle bit_operations_syntax

abbreviation (input) GPT_HEADER_MINIMUM_SIZE :: u32 where "GPT_HEADER_MINIMUM_SIZE \<equiv> 92"
abbreviation (input) GPT_HEADER_MAXIMUM_SIZE :: u32 where "GPT_HEADER_MAXIMUM_SIZE \<equiv> 4096"
abbreviation (input) ZI_GPT_PARTITION_NAME_UNITS :: nat where "ZI_GPT_PARTITION_NAME_UNITS \<equiv> 36"
abbreviation (input) ZI_GPT_MINIMUM_ENTRY_SIZE :: u32 where "ZI_GPT_MINIMUM_ENTRY_SIZE \<equiv> 128"
abbreviation (input) ZI_GPT_MAXIMUM_ENTRY_SIZE :: u32 where "ZI_GPT_MAXIMUM_ENTRY_SIZE \<equiv> 4096"
abbreviation (input) ZI_GPT_MAXIMUM_ENTRY_COUNT :: u32 where "ZI_GPT_MAXIMUM_ENTRY_COUNT \<equiv> 4096"

record ZiGuid =
  guid_bytes :: bytes

record ZiGptPartition =
  gp_type_guid :: ZiGuid
  gp_unique_guid :: ZiGuid
  gp_first_lba :: u64
  gp_last_lba :: u64
  gp_attributes :: u64
  gp_name :: "u16 list"

record ZiGptTable =
  gt_disk_guid :: ZiGuid
  gt_current_lba :: u64
  gt_backup_lba :: u64
  gt_first_usable_lba :: u64
  gt_last_usable_lba :: u64
  gt_partitions :: "ZiGptPartition list option"
  gt_partition_count :: nat
  gt_mounted_from_backup :: u32

record ZiGptHeaderData =
  gh_disk_guid :: ZiGuid
  gh_current_lba :: u64
  gh_backup_lba :: u64
  gh_first_usable_lba :: u64
  gh_last_usable_lba :: u64
  gh_entry_lba :: u64
  gh_entry_count :: u32
  gh_entry_size :: u32
  gh_entries_crc :: u32

definition k_gpt_signature :: bytes where
  "k_gpt_signature = [0x45, 0x46, 0x49, 0x20, 0x50, 0x41, 0x52, 0x54]"

definition k_zero_guid :: ZiGuid where
  "k_zero_guid = \<lparr>guid_bytes = replicate 16 0\<rparr>"

definition ZiGptZiFsTypeGuid :: ZiGuid where
  "ZiGptZiFsTypeGuid = \<lparr>guid_bytes =
     [0x2a, 0xe2, 0xf9, 0x9e, 0x19, 0x37, 0xd4, 0x44, 0x89, 0xaf, 0xde, 0x9c, 0xc7, 0xb6, 0xb2, 0x55]\<rparr>"

section \<open>Comparisons\<close>

definition bytes_equal :: "bytes \<Rightarrow> bytes \<Rightarrow> nat \<Rightarrow> bool" where
  "bytes_equal left right len = list_all (\<lambda>index. left ! index = right ! index) [0..<len]"

definition zi_guid_equal :: "ZiGuid \<Rightarrow> ZiGuid \<Rightarrow> bool" where
  "zi_guid_equal left right = bytes_equal (guid_bytes left) (guid_bytes right) 16"

definition partition_overlaps :: "ZiGptPartition \<Rightarrow> ZiGptPartition \<Rightarrow> bool" where
  "partition_overlaps left right \<longleftrightarrow> gp_first_lba left \<le> gp_last_lba right \<and> gp_first_lba right \<le> gp_last_lba left"

section \<open>The protective record and the header\<close>

definition protective_entry :: "bytes \<Rightarrow> nat \<Rightarrow> bool" where
  "protective_entry bytes index \<longleftrightarrow>
     (let entry = 446 + index * 16 in bytes ! (entry + 4) = 0xee \<and> zi_read_u32_le bytes (entry + 8) = 1)"

definition validate_protective_mbr :: "'d ZiBlockDevice \<Rightarrow> bytes \<Rightarrow> 'd \<Rightarrow> ZiStatus \<times> bytes \<times> 'd" where
  "validate_protective_mbr device block_buffer d =
     (case the (bd_read_blocks device) 0 1 block_buffer d of
        (status, bytes, d1) \<Rightarrow>
          if ZiFailed status then (status, bytes, d1)
          else if bytes ! 510 \<noteq> 0x55 \<or> bytes ! 511 \<noteq> 0xaa then (ZI_STATUS_INVALID_STATE, bytes, d1)
          else if list_ex (protective_entry bytes) [0..<4] then (ZI_STATUS_SUCCESS, bytes, d1)
          else (ZI_STATUS_INVALID_STATE, bytes, d1))"

definition gpt_header_fields :: "bytes \<Rightarrow> ZiGptHeaderData" where
  "gpt_header_fields bytes =
     \<lparr>gh_disk_guid = \<lparr>guid_bytes = map (\<lambda>index. bytes ! (56 + index)) [0..<16]\<rparr>,
      gh_current_lba = zi_read_u64_le bytes 24, gh_backup_lba = zi_read_u64_le bytes 32,
      gh_first_usable_lba = zi_read_u64_le bytes 40, gh_last_usable_lba = zi_read_u64_le bytes 48,
      gh_entry_lba = zi_read_u64_le bytes 72, gh_entry_count = zi_read_u32_le bytes 80,
      gh_entry_size = zi_read_u32_le bytes 84, gh_entries_crc = zi_read_u32_le bytes 88\<rparr>"

definition decode_header :: "'d ZiBlockDevice \<Rightarrow> u64 \<Rightarrow> bytes \<Rightarrow> ZiGptHeaderData result \<times> bytes" where
  "decode_header device expected_lba bytes =
     (if \<not> bytes_equal bytes k_gpt_signature 8 then (Inl ZI_STATUS_INVALID_STATE, bytes)
      else
        let revision = zi_read_u32_le bytes 8;
            header_size = zi_read_u32_le bytes 12;
            stored_crc = zi_read_u32_le bytes 16 in
        if revision < 0x00010000 \<or> header_size < GPT_HEADER_MINIMUM_SIZE \<or> header_size > bd_block_size device \<or>
           zi_read_u32_le bytes 20 \<noteq> 0
        then (Inl ZI_STATUS_INVALID_STATE, bytes)
        else
          let bytes1 = zi_write_u32_le bytes 16 0;
              calculated_crc = zi_crc32 0 (Some (take (unat header_size) bytes1));
              bytes2 = zi_write_u32_le bytes1 16 stored_crc in
          if stored_crc \<noteq> calculated_crc then (Inl ZI_STATUS_CHECKSUM_MISMATCH, bytes2)
          else
            let header = gpt_header_fields bytes2 in
            if gh_current_lba header \<noteq> expected_lba \<or> gh_backup_lba header \<ge> bd_block_count device \<or>
               gh_backup_lba header = gh_current_lba header \<or> gh_first_usable_lba header > gh_last_usable_lba header \<or>
               gh_last_usable_lba header \<ge> bd_block_count device \<or> gh_entry_count header = 0 \<or>
               gh_entry_count header > ZI_GPT_MAXIMUM_ENTRY_COUNT \<or>
               gh_entry_size header < ZI_GPT_MINIMUM_ENTRY_SIZE \<or> gh_entry_size header > ZI_GPT_MAXIMUM_ENTRY_SIZE \<or>
               gh_entry_size header AND (gh_entry_size header - 1) \<noteq> 0 \<or> zi_guid_equal (gh_disk_guid header) k_zero_guid
            then (Inl ZI_STATUS_INVALID_STATE, bytes2)
            else
              let entry_bytes = (ucast (gh_entry_count header) :: u64) * ucast (gh_entry_size header);
                  entry_blocks = (entry_bytes + ucast (bd_block_size device) - 1) div ucast (bd_block_size device) in
              if gh_entry_lba header \<ge> bd_block_count device \<or> entry_blocks = 0 \<or>
                 entry_blocks > bd_block_count device - gh_entry_lba header \<or>
                 \<not> (gh_entry_lba header + entry_blocks - 1 < gh_first_usable_lba header \<or>
                    gh_entry_lba header > gh_last_usable_lba header)
              then (Inl ZI_STATUS_OUT_OF_BOUNDS, bytes2)
              else (Inr header, bytes2))"

section \<open>The entries\<close>

partial_function (option) entries_crc_loop ::
  "'d ZiBlockDevice \<Rightarrow> ZiGptHeaderData \<Rightarrow> u64 \<Rightarrow> u64 \<Rightarrow> u32 \<Rightarrow> bytes \<Rightarrow> 'd \<Rightarrow> (u32 result \<times> bytes \<times> 'd) option" where
  "entries_crc_loop device header total_bytes consumed crc block_buffer d =
     (if \<not> consumed < total_bytes then Some (Inr crc, block_buffer, d)
      else
        let lba = gh_entry_lba header + consumed div ucast (bd_block_size device) in
        case the (bd_read_blocks device) lba 1 block_buffer d of
          (status, block_buffer1, d1) \<Rightarrow>
            if ZiFailed status then Some (Inl status, block_buffer1, d1)
            else
              let chunk = min (unat (total_bytes - consumed)) (unat (bd_block_size device)) in
              entries_crc_loop device header total_bytes (consumed + of_nat chunk)
                (zi_crc32 crc (Some (take chunk block_buffer1))) block_buffer1 d1)"

definition validate_entries_crc ::
  "'d ZiBlockDevice \<Rightarrow> ZiGptHeaderData \<Rightarrow> bytes \<Rightarrow> 'd \<Rightarrow> (ZiStatus \<times> bytes \<times> 'd) option" where
  "validate_entries_crc device header block_buffer d =
     map_option (\<lambda>(result, block_buffer1, d1).
       (case result of
          Inl status \<Rightarrow> status
        | Inr crc \<Rightarrow> if crc = gh_entries_crc header then ZI_STATUS_SUCCESS else ZI_STATUS_CHECKSUM_MISMATCH,
        block_buffer1, d1))
       (entries_crc_loop device header (ucast (gh_entry_count header) * ucast (gh_entry_size header)) 0 0 block_buffer d)"

partial_function (option) read_bytes_loop ::
  "'d ZiBlockDevice \<Rightarrow> u64 \<Rightarrow> nat \<Rightarrow> nat \<Rightarrow> bytes \<Rightarrow> bytes \<Rightarrow> 'd \<Rightarrow> (ZiStatus \<times> bytes \<times> bytes \<times> 'd) option" where
  "read_bytes_loop device byte_offset len copied destination block_buffer d =
     (if \<not> copied < len then Some (ZI_STATUS_SUCCESS, destination, block_buffer, d)
      else
        let current = byte_offset + of_nat copied;
            lba = current div ucast (bd_block_size device);
            in_block = unat (current mod ucast (bd_block_size device)) in
        if lba \<ge> bd_block_count device then Some (ZI_STATUS_OUT_OF_BOUNDS, destination, block_buffer, d)
        else
          case the (bd_read_blocks device) lba 1 block_buffer d of
            (status, block_buffer1, d1) \<Rightarrow>
              if ZiFailed status then Some (status, destination, block_buffer1, d1)
              else
                let chunk = min (unat (bd_block_size device) - in_block) (len - copied) in
                read_bytes_loop device byte_offset len (copied + chunk)
                  (zi_memory_copy destination copied block_buffer1 in_block chunk) block_buffer1 d1)"

definition read_bytes ::
  "'d ZiBlockDevice \<Rightarrow> u64 \<Rightarrow> bytes \<Rightarrow> nat \<Rightarrow> bytes \<Rightarrow> 'd \<Rightarrow> (ZiStatus \<times> bytes \<times> bytes \<times> 'd) option" where
  "read_bytes device byte_offset output len block_buffer d =
     (if len = 0 \<or> byte_offset > UINT64_MAX - of_nat len then Some (ZI_STATUS_INVALID_ARGUMENT, output, block_buffer, d)
      else read_bytes_loop device byte_offset len 0 output block_buffer d)"

definition decode_entry :: "bytes \<Rightarrow> ZiGptPartition" where
  "decode_entry encoded =
     \<lparr>gp_type_guid = \<lparr>guid_bytes = map (\<lambda>byte. encoded ! byte) [0..<16]\<rparr>,
      gp_unique_guid = \<lparr>guid_bytes = map (\<lambda>byte. encoded ! (16 + byte)) [0..<16]\<rparr>,
      gp_first_lba = zi_read_u64_le encoded 32, gp_last_lba = zi_read_u64_le encoded 40,
      gp_attributes = zi_read_u64_le encoded 48,
      gp_name = map (\<lambda>unit. zi_read_u16_le encoded (56 + unit * 2)) [0..<ZI_GPT_PARTITION_NAME_UNITS]\<rparr>"

fun check_prior :: "ZiGptPartition \<Rightarrow> ZiGptPartition list \<Rightarrow> ZiStatus" where
  "check_prior p [] = ZI_STATUS_SUCCESS"
| "check_prior p (prior # rest) =
     (if partition_overlaps p prior then ZI_STATUS_ADDRESS_CONFLICT
      else if zi_guid_equal (gp_unique_guid p) (gp_unique_guid prior) then ZI_STATUS_ALREADY_EXISTS
      else check_prior p rest)"

text \<open>The loop over the entries; its first argument is the remaining indices.\<close>

fun decode_entries ::
  "nat list \<Rightarrow> 'd ZiBlockDevice \<Rightarrow> ZiGptHeaderData \<Rightarrow> bytes \<Rightarrow> bytes \<Rightarrow> ZiGptPartition list \<Rightarrow> nat \<Rightarrow> 'd \<Rightarrow>
    (nat result \<times> bytes \<times> ZiGptPartition list \<times> 'd) option" where
  "decode_entries [] device header encoded block_buffer partitions n d = Some (Inr n, block_buffer, partitions, d)"
| "decode_entries (index # rest) device header encoded block_buffer partitions n d =
     (let entry_offset = gh_entry_lba header * ucast (bd_block_size device) + of_nat index * ucast (gh_entry_size header) in
      case read_bytes device entry_offset encoded 128 block_buffer d of
        None \<Rightarrow> None
      | Some (status, encoded1, block_buffer1, d1) \<Rightarrow>
          if ZiFailed status then Some (Inl status, block_buffer1, partitions, d1)
          else if bytes_equal encoded1 (guid_bytes k_zero_guid) 16
          then decode_entries rest device header encoded1 block_buffer1 partitions n d1
          else if n \<ge> length partitions then Some (Inl ZI_STATUS_BUFFER_TOO_SMALL, block_buffer1, partitions, d1)
          else
            let p = decode_entry encoded1 in
            if zi_guid_equal (gp_unique_guid p) k_zero_guid \<or> gp_first_lba p < gh_first_usable_lba header \<or>
               gp_first_lba p > gp_last_lba p \<or> gp_last_lba p > gh_last_usable_lba header
            then Some (Inl ZI_STATUS_INVALID_STATE, block_buffer1, partitions, d1)
            else
              let conflict = check_prior p (take n partitions) in
              if conflict \<noteq> ZI_STATUS_SUCCESS then Some (Inl conflict, block_buffer1, partitions, d1)
              else decode_entries rest device header encoded1 block_buffer1 (partitions[n := p]) (n + 1) d1)"

definition decode_partitions ::
  "'d ZiBlockDevice \<Rightarrow> ZiGptHeaderData \<Rightarrow> bytes \<Rightarrow> ZiGptPartition list \<Rightarrow> 'd \<Rightarrow>
    (nat result \<times> bytes \<times> ZiGptPartition list \<times> 'd) option" where
  "decode_partitions device header block_buffer partitions d =
     decode_entries [0..<unat (gh_entry_count header)] device header (replicate 128 0) block_buffer partitions 0 d"

section \<open>Tables\<close>

definition read_table_at ::
  "'d ZiBlockDevice \<Rightarrow> u64 \<Rightarrow> bytes \<Rightarrow> ZiGptPartition list \<Rightarrow> 'd \<Rightarrow>
    (ZiGptTable result \<times> bytes \<times> ZiGptPartition list \<times> 'd) option" where
  "read_table_at device header_lba block_buffer partitions d =
     (case the (bd_read_blocks device) header_lba 1 block_buffer d of
        (status, block_buffer1, d1) \<Rightarrow>
          if ZiFailed status then Some (Inl status, block_buffer1, partitions, d1)
          else
            case decode_header device header_lba block_buffer1 of
              (Inl status1, block_buffer2) \<Rightarrow> Some (Inl status1, block_buffer2, partitions, d1)
            | (Inr header, block_buffer2) \<Rightarrow>
                (case validate_entries_crc device header block_buffer2 d1 of
                   None \<Rightarrow> None
                 | Some (status2, block_buffer3, d2) \<Rightarrow>
                     if ZiFailed status2 then Some (Inl status2, block_buffer3, partitions, d2)
                     else
                       case decode_partitions device header block_buffer3 partitions d2 of
                         None \<Rightarrow> None
                       | Some (Inl status3, block_buffer4, partitions1, d3) \<Rightarrow>
                           Some (Inl status3, block_buffer4, partitions1, d3)
                       | Some (Inr partition_count, block_buffer4, partitions1, d3) \<Rightarrow>
                           Some (Inr \<lparr>gt_disk_guid = gh_disk_guid header, gt_current_lba = gh_current_lba header,
                               gt_backup_lba = gh_backup_lba header, gt_first_usable_lba = gh_first_usable_lba header,
                               gt_last_usable_lba = gh_last_usable_lba header, gt_partitions = Some partitions1,
                               gt_partition_count = partition_count, gt_mounted_from_backup = 0\<rparr>,
                             block_buffer4, partitions1, d3)))"

definition zi_gpt_read ::
  "'d ZiBlockDevice \<Rightarrow> bytes \<Rightarrow> ZiGptPartition list \<Rightarrow> 'd \<Rightarrow>
    (ZiGptTable result \<times> bytes \<times> ZiGptPartition list \<times> 'd) option" where
  "zi_gpt_read device block_buffer partitions d =
     (if bd_struct_size device < SIZEOF_BLOCK_DEVICE \<or> bd_version device \<noteq> ZI_BLOCK_DEVICE_VERSION \<or>
         bd_read_blocks device = None \<or> bd_block_size device < 512 \<or> bd_block_size device > GPT_HEADER_MAXIMUM_SIZE \<or>
         bd_block_size device AND (bd_block_size device - 1) \<noteq> 0 \<or> bd_block_count device < 3 \<or>
         length block_buffer < unat (bd_block_size device) \<or> partitions = []
      then Some (Inl ZI_STATUS_INVALID_ARGUMENT, block_buffer, partitions, d)
      else
        case validate_protective_mbr device block_buffer d of
          (status, block_buffer1, d1) \<Rightarrow>
            if ZiFailed status then Some (Inl status, block_buffer1, partitions, d1)
            else
              case read_table_at device 1 block_buffer1 partitions d1 of
                None \<Rightarrow> None
              | Some (Inr table, block_buffer2, partitions1, d2) \<Rightarrow>
                  Some (Inr (table\<lparr>gt_mounted_from_backup := 0\<rparr>), block_buffer2, partitions1, d2)
              | Some (Inl _, block_buffer2, partitions1, d2) \<Rightarrow>
                  (case read_table_at device (bd_block_count device - 1) block_buffer2 partitions1 d2 of
                     None \<Rightarrow> None
                   | Some (Inr table, block_buffer3, partitions2, d3) \<Rightarrow>
                       Some (Inr (table\<lparr>gt_mounted_from_backup := 1\<rparr>), block_buffer3, partitions2, d3)
                   | Some (Inl status1, block_buffer3, partitions2, d3) \<Rightarrow>
                       Some (Inl status1, block_buffer3, partitions2, d3)))"



section \<open>The loops end\<close>

lemma unat_mod_block: "0 < unat bs \<Longrightarrow> unat (x mod ucast bs) < unat bs" for x :: u64 and bs :: u32
  by (simp add: unat_mod)

lemma read_bytes_loop_returns:
  assumes "0 < unat (bd_block_size device)"
  shows "\<exists>status out buf d1. read_bytes_loop device at len copied dest buffer d = Some (status, out, buf, d1) \<and> length out = length dest"
proof (induction "len - copied" arbitrary: copied dest buffer d rule: less_induct)
  case less
  let ?in = "unat ((at + of_nat copied) mod ucast (bd_block_size device))"
  let ?chunk = "min (unat (bd_block_size device) - ?in) (len - copied)"
  have "copied < len \<Longrightarrow> len - (copied + ?chunk) < len - copied"
    using unat_mod_block [OF assms, of "at + of_nat copied"] by linarith
  then have step: "copied < len \<Longrightarrow> \<exists>status out buf d1. read_bytes_loop device at len (copied + ?chunk) dest' buffer' d' =
      Some (status, out, buf, d1) \<and> length out = length dest'" for dest' buffer' d'
    by (rule less)
  show ?case
  proof (cases "copied < len")
    case True
    obtain status buf d1 where "the (bd_read_blocks device) ((at + of_nat copied) div ucast (bd_block_size device)) 1 buffer d =
      (status, buf, d1)" by (metis prod_cases3)
    with step [OF True, of "zi_memory_copy dest copied buf ?in ?chunk" buf d1] True show ?thesis
      by (subst read_bytes_loop.simps) (simp add: Let_def le_simps)
  next
    case False
    then show ?thesis by (subst read_bytes_loop.simps) simp
  qed
qed

lemma read_bytes_returns:
  assumes "0 < unat (bd_block_size device)"
  obtains status out buf d1 where "read_bytes device at dest len buffer d = Some (status, out, buf, d1)" "length out = length dest"
proof (cases "len = 0 \<or> at > UINT64_MAX - of_nat len")
  case True
  then show thesis using that by (simp add: read_bytes_def)
next
  case False
  then show thesis using that read_bytes_loop_returns [OF assms, of at len 0 dest buffer d] by (auto simp: read_bytes_def)
qed

lemma entries_crc_loop_returns:
  assumes "0 < unat (bd_block_size device)"
  shows "\<exists>r. entries_crc_loop device header goal_bytes consumed crc buffer d = Some r"
proof (induction "unat goal_bytes - unat consumed" arbitrary: consumed crc buffer d rule: less_induct)
  case less
  let ?chunk = "min (unat (goal_bytes - consumed)) (unat (bd_block_size device))"
  show ?case
  proof (cases "consumed < goal_bytes")
    case True
    have gap: "unat (goal_bytes - consumed) = unat goal_bytes - unat consumed" and nat: "unat consumed < unat goal_bytes"
      using True by (simp_all add: unat_sub less_imp_le word_less_nat_alt [symmetric])
    have "unat goal_bytes < 2 ^ 64" using unsigned_less [of goal_bytes] by simp
    moreover have chunk: "0 < ?chunk" "unat consumed + ?chunk \<le> unat goal_bytes" using assms nat by (simp_all add: gap)
    ultimately have fits: "unat (of_nat ?chunk :: u64) = ?chunk"
      by (subst unsigned_of_nat) (simp add: take_bit_nat_eq_self)
    have "unat consumed + unat (of_nat ?chunk :: u64) < 2 ^ 64"
      unfolding fits using chunk(2) \<open>unat goal_bytes < 2 ^ 64\<close> by linarith
    then have "unat (consumed + of_nat ?chunk) = unat consumed + ?chunk" by (simp only: unat_u64_add fits)
    then have "unat goal_bytes - unat (consumed + of_nat ?chunk) < unat goal_bytes - unat consumed" using chunk by linarith
    note step = less [OF this]
    obtain status buf d1 where "the (bd_read_blocks device) (gh_entry_lba header + consumed div ucast (bd_block_size device)) 1 buffer d =
      (status, buf, d1)" by (metis prod_cases3)
    with step [of "zi_crc32 crc (Some (take ?chunk buf))" buf d1] True show ?thesis
      by (subst entries_crc_loop.simps) (simp add: Let_def)
  next
    case False
    then show ?thesis by (subst entries_crc_loop.simps) simp
  qed
qed

lemma validate_entries_crc_returns:
  assumes "0 < unat (bd_block_size device)"
  obtains status buf d1 where "validate_entries_crc device header buffer d = Some (status, buf, d1)"
proof -
  obtain result buf d1 where "entries_crc_loop device header (ucast (gh_entry_count header) * ucast (gh_entry_size header)) 0 0 buffer d =
    Some (result, buf, d1)" using entries_crc_loop_returns [OF assms] by (metis prod_cases3)
  then show thesis using that by (simp add: validate_entries_crc_def)
qed

section \<open>Accepted tables\<close>

text \<open>
  The partitions of a table: inside the usable range, pairwise disjoint, with distinct identifiers,
  none of them zero.
\<close>

definition partitions_ok :: "u64 \<Rightarrow> u64 \<Rightarrow> ZiGptPartition list \<Rightarrow> bool" where
  "partitions_ok lo hi ps \<longleftrightarrow>
     (\<forall>p\<in>set ps. lo \<le> gp_first_lba p \<and> gp_first_lba p \<le> gp_last_lba p \<and> gp_last_lba p \<le> hi \<and>
        gp_type_guid p \<noteq> k_zero_guid \<and> gp_unique_guid p \<noteq> k_zero_guid \<and> length (guid_bytes (gp_unique_guid p)) = 16) \<and>
     (\<forall>i j. i < j \<and> j < length ps \<longrightarrow> gp_unique_guid (ps ! i) \<noteq> gp_unique_guid (ps ! j) \<and>
        {gp_first_lba (ps ! i)..gp_last_lba (ps ! i)} \<inter> {gp_first_lba (ps ! j)..gp_last_lba (ps ! j)} = {})"

lemma bytes_equal_iff: "bytes_equal l r n \<longleftrightarrow> (\<forall>i<n. l ! i = r ! i)"
  by (auto simp: bytes_equal_def list_all_iff)

lemma zi_guid_equal_refl [simp]: "zi_guid_equal g g"
  by (simp add: zi_guid_equal_def bytes_equal_iff)

lemma check_prior_SUCCESS:
  "check_prior p ps = ZI_STATUS_SUCCESS \<longleftrightarrow>
     (\<forall>q\<in>set ps. \<not> partition_overlaps p q \<and> \<not> zi_guid_equal (gp_unique_guid p) (gp_unique_guid q))"
  by (induction ps) auto

lemma check_prior_failed: "check_prior p ps \<noteq> ZI_STATUS_SUCCESS \<Longrightarrow> ZiFailed (check_prior p ps)"
  by (induction ps) (auto split: if_splits)

lemma not_overlapping_disjoint:
  assumes "\<not> partition_overlaps p q"
  shows "{gp_first_lba q..gp_last_lba q} \<inter> {gp_first_lba p..gp_last_lba p} = {}"
  using assms unfolding partition_overlaps_def disjoint_iff atLeastAtMost_iff by (meson order_trans)

lemma partitions_ok_snoc:
  assumes "partitions_ok lo hi ps" "check_prior p ps = ZI_STATUS_SUCCESS"
    and "lo \<le> gp_first_lba p" "gp_first_lba p \<le> gp_last_lba p" "gp_last_lba p \<le> hi"
    and "gp_type_guid p \<noteq> k_zero_guid" "gp_unique_guid p \<noteq> k_zero_guid" "length (guid_bytes (gp_unique_guid p)) = 16"
  shows "partitions_ok lo hi (ps @ [p])"
proof -
  have new: "gp_unique_guid (ps ! i) \<noteq> gp_unique_guid p \<and>
      {gp_first_lba (ps ! i)..gp_last_lba (ps ! i)} \<inter> {gp_first_lba p..gp_last_lba p} = {}" if "i < length ps" for i
    using assms(2) that not_overlapping_disjoint [of p "ps ! i"] unfolding check_prior_SUCCESS
    by (metis nth_mem zi_guid_equal_refl)
  have old: "gp_unique_guid (ps ! i) \<noteq> gp_unique_guid (ps ! j) \<and>
      {gp_first_lba (ps ! i)..gp_last_lba (ps ! i)} \<inter> {gp_first_lba (ps ! j)..gp_last_lba (ps ! j)} = {}"
    if "i < j" "j < length ps" for i j
    using assms(1) that unfolding partitions_ok_def by blast
  show ?thesis unfolding partitions_ok_def
  proof (intro conjI allI impI)
    show "\<forall>q\<in>set (ps @ [p]). lo \<le> gp_first_lba q \<and> gp_first_lba q \<le> gp_last_lba q \<and> gp_last_lba q \<le> hi \<and>
        gp_type_guid q \<noteq> k_zero_guid \<and> gp_unique_guid q \<noteq> k_zero_guid \<and> length (guid_bytes (gp_unique_guid q)) = 16"
      using assms(1,3-8) unfolding partitions_ok_def by simp
  next
    fix i j assume "i < j \<and> j < length (ps @ [p])"
    then consider "i < j" "j < length ps" | "i < length ps" "j = length ps" by fastforce
    then show "gp_unique_guid ((ps @ [p]) ! i) \<noteq> gp_unique_guid ((ps @ [p]) ! j)"
      "{gp_first_lba ((ps @ [p]) ! i)..gp_last_lba ((ps @ [p]) ! i)} \<inter>
        {gp_first_lba ((ps @ [p]) ! j)..gp_last_lba ((ps @ [p]) ! j)} = {}"
      by (cases; use old [of i j] new [of i] in \<open>simp add: nth_append\<close>)+
  qed
qed

text \<open>The loop over the entries keeps the partitions found so far well formed.\<close>

lemma decode_entries_ok:
  assumes "0 < unat (bd_block_size device)" "length encoded = 128" "n \<le> length partitions"
    and "partitions_ok (gh_first_usable_lba header) (gh_last_usable_lba header) (take n partitions)"
  shows "\<exists>result buf ps d1. decode_entries indices device header encoded buffer partitions n d = Some (result, buf, ps, d1) \<and>
    length ps = length partitions \<and>
    (case result of
       Inl status \<Rightarrow> ZiFailed status
     | Inr m \<Rightarrow> m \<le> length ps \<and> partitions_ok (gh_first_usable_lba header) (gh_last_usable_lba header) (take m ps))"
  using assms(2-4)
proof (induction indices arbitrary: encoded buffer partitions n d)
  case Nil
  then show ?case by simp
next
  case (Cons index rest)
  let ?at = "gh_entry_lba header * ucast (bd_block_size device) + of_nat index * ucast (gh_entry_size header)"
  obtain status enc buf d1 where read: "read_bytes device ?at encoded 128 buffer d = Some (status, enc, buf, d1)"
    "length enc = length encoded" by (rule read_bytes_returns [OF assms(1)])
  let ?p = "decode_entry enc"
  consider "ZiFailed status" | "\<not> ZiFailed status" "bytes_equal enc (guid_bytes k_zero_guid) 16"
    | "\<not> ZiFailed status" "\<not> bytes_equal enc (guid_bytes k_zero_guid) 16" "length partitions \<le> n \<or>
        zi_guid_equal (gp_unique_guid ?p) k_zero_guid \<or> gp_first_lba ?p < gh_first_usable_lba header \<or>
        gp_last_lba ?p < gp_first_lba ?p \<or> gh_last_usable_lba header < gp_last_lba ?p \<or>
        check_prior ?p (take n partitions) \<noteq> ZI_STATUS_SUCCESS"
    | (add) "\<not> ZiFailed status" "\<not> bytes_equal enc (guid_bytes k_zero_guid) 16" "n < length partitions"
        "\<not> zi_guid_equal (gp_unique_guid ?p) k_zero_guid" "\<not> gp_first_lba ?p < gh_first_usable_lba header"
        "\<not> gp_last_lba ?p < gp_first_lba ?p" "\<not> gh_last_usable_lba header < gp_last_lba ?p"
        "check_prior ?p (take n partitions) = ZI_STATUS_SUCCESS" by fastforce
  then show ?case
  proof cases
    case 1
    then show ?thesis by (simp add: read Let_def)
  next
    case 2
    have "length enc = 128" using read(2) Cons.prems(1) by simp
    from Cons.IH [OF this Cons.prems(2,3), of buf d1] 2 show ?thesis by (simp add: read Let_def)
  next
    case 3
    then show ?thesis using check_prior_failed [of ?p "take n partitions"]
      by (auto simp: read(1) Let_def not_less)
  next
    case add
    have "gp_type_guid ?p \<noteq> k_zero_guid"
    proof
      assume "gp_type_guid ?p = k_zero_guid"
      then have "map (\<lambda>byte. enc ! byte) [0..<16] = guid_bytes k_zero_guid" by (simp add: decode_entry_def k_zero_guid_def)
      then have "enc ! i = guid_bytes k_zero_guid ! i" if "i < 16" for i using that
        by (metis add_0 diff_zero nth_map_upt)
      with add(2) show False by (simp add: bytes_equal_iff)
    qed
    moreover have "gp_unique_guid ?p \<noteq> k_zero_guid" "length (guid_bytes (gp_unique_guid ?p)) = 16"
      using add(4) by (auto simp: decode_entry_def)
    ultimately have "partitions_ok (gh_first_usable_lba header) (gh_last_usable_lba header) (take n partitions @ [?p])"
      using add Cons.prems by (intro partitions_ok_snoc) (simp_all add: not_less)
    moreover have "take (n + 1) (partitions[n := ?p]) = take n partitions @ [?p]"
      using add(3) by (simp add: take_Suc_conv_app_nth)
    ultimately have ok: "partitions_ok (gh_first_usable_lba header) (gh_last_usable_lba header) (take (n + 1) (partitions[n := ?p]))"
      by simp
    have "length enc = 128" "n + 1 \<le> length (partitions[n := ?p])" using read(2) Cons.prems(1) add(3) by simp_all
    from Cons.IH [OF this ok, of buf d1] add show ?thesis by (simp add: read(1) Let_def)
  qed
qed

lemma decode_header_ok:
  assumes "decode_header device lba bytes = (Inr header, bytes')"
  shows "gh_first_usable_lba header \<le> gh_last_usable_lba header" and "gh_last_usable_lba header < bd_block_count device"
    and "gh_current_lba header = lba"
  using assms by (auto simp: decode_header_def Let_def not_less not_le split: if_splits)

lemma decode_header_failed: "decode_header device lba bytes = (Inl status, bytes') \<Longrightarrow> ZiFailed status"
  by (auto simp: decode_header_def Let_def split: if_splits)

text \<open>What an accepted table promises to its user.\<close>

definition gpt_table_ok :: "'d ZiBlockDevice \<Rightarrow> nat \<Rightarrow> ZiGptTable \<Rightarrow> bool" where
  "gpt_table_ok device capacity table \<longleftrightarrow>
     gt_last_usable_lba table < bd_block_count device \<and> gt_partition_count table \<le> capacity \<and>
     (\<exists>ps. gt_partitions table = Some ps \<and> length ps = capacity \<and>
        partitions_ok (gt_first_usable_lba table) (gt_last_usable_lba table) (take (gt_partition_count table) ps))"

lemma read_table_at_ok:
  assumes "0 < unat (bd_block_size device)"
  obtains result buf ps d1 where "read_table_at device lba buffer partitions d = Some (result, buf, ps, d1)"
    "length ps = length partitions"
    "case result of Inl status \<Rightarrow> ZiFailed status
     | Inr table \<Rightarrow> gpt_table_ok device (length partitions) table \<and> gt_current_lba table = lba"
proof -
  obtain s0 b0 d0 where read: "the (bd_read_blocks device) lba 1 buffer d = (s0, b0, d0)" by (metis prod_cases3)
  obtain r1 b1 where header: "decode_header device lba b0 = (r1, b1)" by fastforce
  consider "ZiFailed s0" | (refused) s1 where "\<not> ZiFailed s0" "r1 = Inl s1" | (accepted) h where "\<not> ZiFailed s0" "r1 = Inr h"
    by (metis sum.exhaust)
  then show thesis
  proof cases
    case 1
    then have "read_table_at device lba buffer partitions d = Some (Inl s0, b0, partitions, d0)"
      by (simp add: read_table_at_def read del: ZiFailed_iff)
    then show thesis by (rule that) (use 1 in simp_all)
  next
    case refused
    then have "ZiFailed s1" using decode_header_failed header by blast
    have "read_table_at device lba buffer partitions d = Some (Inl s1, b1, partitions, d0)"
      using refused by (simp add: read_table_at_def read header del: ZiFailed_iff)
    then show thesis by (rule that) (use \<open>ZiFailed s1\<close> in simp_all)
  next
    case accepted
    note H = decode_header_ok [OF header [unfolded accepted]]
    obtain s2 b2 d2 where crc: "validate_entries_crc device h b1 d0 = Some (s2, b2, d2)"
      by (rule validate_entries_crc_returns [OF assms])
    have "partitions_ok (gh_first_usable_lba h) (gh_last_usable_lba h) (take 0 partitions)" by (simp add: partitions_ok_def)
    note entries = decode_entries_ok [OF assms length_replicate [of 128 0] le0 this]
    obtain r3 b3 ps d3 where decode: "decode_partitions device h b2 partitions d2 = Some (r3, b3, ps, d3)"
      "length ps = length partitions"
      "case r3 of Inl status \<Rightarrow> ZiFailed status
       | Inr m \<Rightarrow> m \<le> length ps \<and> partitions_ok (gh_first_usable_lba h) (gh_last_usable_lba h) (take m ps)"
      unfolding decode_partitions_def using entries [of "[0..<unat (gh_entry_count h)]" b2 d2] by blast
    show thesis
    proof (cases "ZiFailed s2")
      case True
      then have "read_table_at device lba buffer partitions d = Some (Inl s2, b2, partitions, d2)"
        using accepted by (simp add: read_table_at_def read header crc del: ZiFailed_iff)
      then show thesis by (rule that) (use True in simp_all)
    next
      case False
      define result where "result = (case r3 of Inl s3 \<Rightarrow> Inl s3 | Inr m \<Rightarrow>
        Inr \<lparr>gt_disk_guid = gh_disk_guid h, gt_current_lba = gh_current_lba h, gt_backup_lba = gh_backup_lba h,
          gt_first_usable_lba = gh_first_usable_lba h, gt_last_usable_lba = gh_last_usable_lba h, gt_partitions = Some ps,
          gt_partition_count = m, gt_mounted_from_backup = 0\<rparr>)"
      have "read_table_at device lba buffer partitions d = Some (result, b3, ps, d3)"
        using accepted False by (cases r3) (simp_all add: read_table_at_def read header crc decode(1) result_def del: ZiFailed_iff)
      moreover have "case result of Inl status \<Rightarrow> ZiFailed status
          | Inr table \<Rightarrow> gpt_table_ok device (length partitions) table \<and> gt_current_lba table = lba"
        using decode(2,3) H by (cases r3) (simp_all add: result_def gpt_table_ok_def del: ZiFailed_iff)
      ultimately show thesis using decode(2) that by blast
    qed
  qed
qed

section \<open>Properties\<close>

text \<open>
  C8: Reading a partition table always returns, whatever the device does. A table that is accepted has its
  usable range on the device, fits the caller's array, and lists partitions that lie in that range, are
  pairwise disjoint and have distinct non-zero identifiers; it was decoded from the first block after the
  protective record, or from the last block of the device and is then marked so. Otherwise the status is an error.
\<close>

theorem zi_gpt_read_correct:
  "\<exists>result buf ps d1. zi_gpt_read device buffer partitions d = Some (result, buf, ps, d1) \<and>
     (case result of
        Inl status \<Rightarrow> ZiFailed status
      | Inr table \<Rightarrow> gpt_table_ok device (length partitions) table \<and>
          gt_current_lba table = (if gt_mounted_from_backup table = 0 then 1 else bd_block_count device - 1))"
proof (cases "bd_struct_size device < 64 \<or> bd_version device \<noteq> 3 \<or> bd_read_blocks device = None \<or>
    bd_block_size device < 512 \<or> bd_block_size device > 4096 \<or> bd_block_size device AND (bd_block_size device - 1) \<noteq> 0 \<or>
    bd_block_count device < 3 \<or> length buffer < unat (bd_block_size device) \<or> partitions = []")
  case True
  then have "zi_gpt_read device buffer partitions d = Some (Inl ZI_STATUS_INVALID_ARGUMENT, buffer, partitions, d)"
    unfolding zi_gpt_read_def by (rule if_P)
  then show ?thesis by simp
next
  case guards: False
  then have pos: "0 < unat (bd_block_size device)" by (auto simp: word_less_nat_alt)
  obtain s0 b0 d0 where mbr: "validate_protective_mbr device buffer d = (s0, b0, d0)" by (metis prod_cases3)
  obtain r1 b1 ps1 d1 where first: "read_table_at device 1 b0 partitions d0 = Some (r1, b1, ps1, d1)"
    "length ps1 = length partitions"
    "case r1 of Inl status \<Rightarrow> ZiFailed status | Inr table \<Rightarrow> gpt_table_ok device (length partitions) table \<and> gt_current_lba table = 1"
    by (rule read_table_at_ok [OF pos])
  obtain r2 b2 ps2 d2 where backup: "read_table_at device (bd_block_count device - 1) b1 ps1 d1 = Some (r2, b2, ps2, d2)"
    "length ps2 = length ps1"
    "case r2 of Inl status \<Rightarrow> ZiFailed status
     | Inr table \<Rightarrow> gpt_table_ok device (length ps1) table \<and> gt_current_lba table = bd_block_count device - 1"
    by (rule read_table_at_ok [OF pos])
  note run = zi_gpt_read_def [of device buffer partitions d, unfolded if_not_P [OF guards]]
  show ?thesis unfolding run mbr
    using first backup [unfolded first(2)] by (cases "ZiFailed s0"; cases r1; cases r2) (simp_all add: gpt_table_ok_def del: ZiFailed_iff)
qed


end
