(* ===== verification/Zi_Identity.thy ===== *)
theory Zi_Identity
  imports Zi_Bytes Zi_Unicode Zi_Security
begin

text \<open>
  Native identities, \<^verbatim>\<open>kernel/executive/security/identity.c\<close>, and the database of accounts that issues them,
  \<^verbatim>\<open>kernel/executive/security/identity_database.c\<close>.

  The database is one buffer: a header of 4096 bytes and up to 64 records of 512 bytes. Buffers are byte
  lists whose length is the size passed by the caller. The name of a request and its array of groups may be
  \<^verbatim>\<open>NULL\<close> and are options; every other pointer is valid.
\<close>

unbundle bit_operations_syntax

abbreviation (input) ZI_SECURITY_AUTHORITY_USER :: u32 where "ZI_SECURITY_AUTHORITY_USER \<equiv> 3"
abbreviation (input) ZI_NATIVE_IDENTITY_WIRE_VERSION :: u16 where "ZI_NATIVE_IDENTITY_WIRE_VERSION \<equiv> 1"
abbreviation (input) ZI_NATIVE_IDENTITY_WIRE_SIZE :: nat where "ZI_NATIVE_IDENTITY_WIRE_SIZE \<equiv> 32"
abbreviation (input) ZI_IDENTITY_ISSUER_BYTES :: nat where "ZI_IDENTITY_ISSUER_BYTES \<equiv> 16"
abbreviation (input) ZI_IDENTITY_FIRST_DYNAMIC_VALUE :: u32 where "ZI_IDENTITY_FIRST_DYNAMIC_VALUE \<equiv> 256"
abbreviation (input) ZI_IDENTITY_ISSUER_STATE_VERSION :: u32 where "ZI_IDENTITY_ISSUER_STATE_VERSION \<equiv> 1"
abbreviation (input) sizeof_ZiIdentityIssuerState :: u32 where "sizeof_ZiIdentityIssuerState \<equiv> 36"
abbreviation (input) ZI_IDENTITY_DATABASE_VERSION :: u16 where "ZI_IDENTITY_DATABASE_VERSION \<equiv> 1"
abbreviation (input) ZI_IDENTITY_DATABASE_HEADER_SIZE :: nat where "ZI_IDENTITY_DATABASE_HEADER_SIZE \<equiv> 4096"
abbreviation (input) ZI_IDENTITY_DATABASE_RECORD_SIZE :: nat where "ZI_IDENTITY_DATABASE_RECORD_SIZE \<equiv> 512"
abbreviation (input) ZI_IDENTITY_DATABASE_CAPACITY :: u32 where "ZI_IDENTITY_DATABASE_CAPACITY \<equiv> 64"
abbreviation (input) ZI_IDENTITY_DATABASE_NAME_BYTES :: nat where "ZI_IDENTITY_DATABASE_NAME_BYTES \<equiv> 128"
abbreviation (input) ZI_IDENTITY_DATABASE_GROUPS :: nat where "ZI_IDENTITY_DATABASE_GROUPS \<equiv> 16"
abbreviation (input) ZI_IDENTITY_DATABASE_SIZE :: nat where "ZI_IDENTITY_DATABASE_SIZE \<equiv> 36864"
abbreviation (input) ZI_IDENTITY_RECORD_DISABLED :: u32 where "ZI_IDENTITY_RECORD_DISABLED \<equiv> 1"
abbreviation (input) ZI_IDENTITY_RECORD_TOMBSTONE :: u32 where "ZI_IDENTITY_RECORD_TOMBSTONE \<equiv> 2"
abbreviation (input) sizeof_ZiIdentityDatabaseAuthority :: u32 where "sizeof_ZiIdentityDatabaseAuthority \<equiv> 56"
abbreviation (input) sizeof_ZiIdentityCreateRequest :: u32 where "sizeof_ZiIdentityCreateRequest \<equiv> 48"

record ZiNativeIdentity =
  ni_issuer :: bytes
  ni_local_id :: ZiSecurityId

record ZiIdentityIssuerState =
  is_struct_size :: u32
  is_version :: u32
  is_issuer :: bytes
  is_group_high_water :: u32
  is_user_high_water :: u32
  is_service_high_water :: u32

record ZiIdentityDatabaseAuthority =
  da_struct_size :: u32
  da_version :: u32
  da_issuer :: bytes
  da_volume :: bytes
  da_database :: bytes

record ZiIdentityDatabaseState =
  ds_issuer :: ZiIdentityIssuerState
  ds_generation :: u64
  ds_record_count :: u32

record ZiIdentityDatabaseRecord =
  dr_identity :: ZiNativeIdentity
  dr_generation :: u64
  dr_state :: u32
  dr_name_size :: u16
  dr_group_count :: u16
  dr_name :: bytes
  dr_groups :: "u32 list"

record ZiIdentityCreateRequest =
  cr_struct_size :: u32
  cr_version :: u32
  cr_authority :: u32
  cr_name :: "bytes option"
  cr_groups :: "u32 list option"
  cr_group_count :: nat

section \<open>Identities\<close>

definition is_zero :: "bytes \<Rightarrow> nat \<Rightarrow> nat \<Rightarrow> bool" where
  "is_zero bytes at len = list_all (\<lambda>index. bytes ! (at + index) = 0) [0..<len]"

definition issuer_is_valid :: "bytes \<Rightarrow> bool" where
  "issuer_is_valid issuer = list_ex (\<lambda>index. issuer ! index \<noteq> 0) [0..<ZI_IDENTITY_ISSUER_BYTES]"

definition authority_is_dynamic :: "u32 \<Rightarrow> bool" where
  "authority_is_dynamic authority \<longleftrightarrow>
     authority = ZI_SECURITY_AUTHORITY_GROUP \<or> authority = ZI_SECURITY_AUTHORITY_USER \<or>
     authority = ZI_SECURITY_AUTHORITY_SERVICE"

definition zi_identity_validate :: "ZiNativeIdentity \<Rightarrow> ZiStatus" where
  "zi_identity_validate identity =
     (if \<not> issuer_is_valid (ni_issuer identity) \<or> ZiFailed (zi_security_id_validate (ni_local_id identity))
      then ZI_STATUS_INVALID_ARGUMENT else ZI_STATUS_SUCCESS)"

definition zi_identity_equal :: "ZiNativeIdentity \<Rightarrow> ZiNativeIdentity \<Rightarrow> bool" where
  "zi_identity_equal left right \<longleftrightarrow>
     (if ZiFailed (zi_identity_validate left) \<or> ZiFailed (zi_identity_validate right) then False
      else zi_security_id_equal (ni_local_id left) (ni_local_id right) \<and>
        zi_memory_compare (ni_issuer left) (ni_issuer right) ZI_IDENTITY_ISSUER_BYTES = 0)"

definition k_identity_magic :: bytes where
  "k_identity_magic = [0x5a, 0x4e, 0x49, 0x44]"

definition zi_identity_encode :: "ZiNativeIdentity \<Rightarrow> bytes \<Rightarrow> ZiStatus \<times> bytes" where
  "zi_identity_encode identity output =
     (if ZiFailed (zi_identity_validate identity) then (ZI_STATUS_INVALID_ARGUMENT, output)
      else if length output < ZI_NATIVE_IDENTITY_WIRE_SIZE then (ZI_STATUS_BUFFER_TOO_SMALL, output)
      else
        let b0 = zi_memory_copy (replicate ZI_NATIVE_IDENTITY_WIRE_SIZE 0) 0 k_identity_magic 0 4;
            b1 = zi_write_u16_le b0 4 ZI_NATIVE_IDENTITY_WIRE_VERSION;
            b2 = zi_write_u16_le b1 6 (of_nat ZI_NATIVE_IDENTITY_WIRE_SIZE);
            b3 = zi_memory_copy b2 8 (ni_issuer identity) 0 ZI_IDENTITY_ISSUER_BYTES;
            b4 = zi_write_u32_le b3 24 (sid_authority (ni_local_id identity));
            bytes = zi_write_u32_le b4 28 (sid_value (ni_local_id identity)) in
        (ZI_STATUS_SUCCESS, zi_memory_copy output 0 bytes 0 ZI_NATIVE_IDENTITY_WIRE_SIZE))"

definition zi_identity_decode :: "bytes \<Rightarrow> ZiNativeIdentity result" where
  "zi_identity_decode data =
     (if length data \<noteq> ZI_NATIVE_IDENTITY_WIRE_SIZE then Inl ZI_STATUS_INVALID_ARGUMENT
      else if zi_memory_compare data k_identity_magic 4 \<noteq> 0 \<or>
         zi_read_u16_le data 4 \<noteq> ZI_NATIVE_IDENTITY_WIRE_VERSION \<or>
         zi_read_u16_le data 6 \<noteq> of_nat ZI_NATIVE_IDENTITY_WIRE_SIZE
      then Inl ZI_STATUS_INVALID_ARGUMENT
      else
        let identity = \<lparr>ni_issuer = zi_memory_copy (replicate ZI_IDENTITY_ISSUER_BYTES 0) 0 data 8 ZI_IDENTITY_ISSUER_BYTES,
              ni_local_id = \<lparr>sid_authority = zi_read_u32_le data 24, sid_value = zi_read_u32_le data 28\<rparr>\<rparr>;
            status = zi_identity_validate identity in
        if ZiFailed status then Inl status else Inr identity)"

definition zi_identity_resolve_local :: "ZiNativeIdentity \<Rightarrow> bytes \<Rightarrow> ZiSecurityId result" where
  "zi_identity_resolve_local identity active_issuer =
     (if \<not> issuer_is_valid active_issuer \<or> ZiFailed (zi_identity_validate identity) then Inl ZI_STATUS_INVALID_ARGUMENT
      else if \<not> authority_is_dynamic (sid_authority (ni_local_id identity)) \<or>
         sid_value (ni_local_id identity) < ZI_IDENTITY_FIRST_DYNAMIC_VALUE \<or>
         zi_memory_compare (ni_issuer identity) active_issuer ZI_IDENTITY_ISSUER_BYTES \<noteq> 0
      then Inl ZI_STATUS_ACCESS_DENIED
      else Inr (ni_local_id identity))"

definition zi_identity_issuer_validate :: "ZiIdentityIssuerState \<Rightarrow> ZiStatus" where
  "zi_identity_issuer_validate state =
     (if is_struct_size state \<noteq> sizeof_ZiIdentityIssuerState \<or> is_version state \<noteq> ZI_IDENTITY_ISSUER_STATE_VERSION \<or>
         \<not> issuer_is_valid (is_issuer state) \<or>
         is_group_high_water state < ZI_IDENTITY_FIRST_DYNAMIC_VALUE - 1 \<or>
         is_user_high_water state < ZI_IDENTITY_FIRST_DYNAMIC_VALUE - 1 \<or>
         is_service_high_water state < ZI_IDENTITY_FIRST_DYNAMIC_VALUE - 1
      then ZI_STATUS_INVALID_ARGUMENT else ZI_STATUS_SUCCESS)"

text \<open>The counter an authority draws from: the pointer \<^verbatim>\<open>high_water\<close> of the sources.\<close>

definition high_water :: "ZiIdentityIssuerState \<Rightarrow> u32 \<Rightarrow> u32" where
  "high_water state authority =
     (if authority = ZI_SECURITY_AUTHORITY_GROUP then is_group_high_water state
      else if authority = ZI_SECURITY_AUTHORITY_SERVICE then is_service_high_water state
      else is_user_high_water state)"

definition set_high_water :: "ZiIdentityIssuerState \<Rightarrow> u32 \<Rightarrow> u32 \<Rightarrow> ZiIdentityIssuerState" where
  "set_high_water state authority w =
     (if authority = ZI_SECURITY_AUTHORITY_GROUP then state\<lparr>is_group_high_water := w\<rparr>
      else if authority = ZI_SECURITY_AUTHORITY_SERVICE then state\<lparr>is_service_high_water := w\<rparr>
      else state\<lparr>is_user_high_water := w\<rparr>)"

definition zi_identity_reserve :: "ZiIdentityIssuerState \<Rightarrow> u32 \<Rightarrow> (ZiIdentityIssuerState \<times> ZiNativeIdentity) result" where
  "zi_identity_reserve state authority =
     (if ZiFailed (zi_identity_issuer_validate state) \<or> \<not> authority_is_dynamic authority then Inl ZI_STATUS_INVALID_ARGUMENT
      else if high_water state authority = UINT32_MAX then Inl ZI_STATUS_OUT_OF_BOUNDS
      else
        let candidate = set_high_water state authority (high_water state authority + 1) in
        Inr (candidate,
          \<lparr>ni_issuer = zi_memory_copy (replicate ZI_IDENTITY_ISSUER_BYTES 0) 0 (is_issuer candidate) 0 ZI_IDENTITY_ISSUER_BYTES,
           ni_local_id = \<lparr>sid_authority = authority, sid_value = high_water candidate authority\<rparr>\<rparr>))"

section \<open>The database\<close>

definition k_database_magic :: bytes where
  "k_database_magic = [0x5a, 0x49, 0x44, 0x42]"

definition k_record_magic :: bytes where
  "k_record_magic = [0x5a, 0x49, 0x41, 0x52]"

definition authority_valid :: "ZiIdentityDatabaseAuthority \<Rightarrow> bool" where
  "authority_valid authority \<longleftrightarrow>
     da_struct_size authority = sizeof_ZiIdentityDatabaseAuthority \<and>
     da_version authority = ucast ZI_IDENTITY_DATABASE_VERSION \<and>
     \<not> is_zero (da_issuer authority) 0 16 \<and> \<not> is_zero (da_volume authority) 0 16 \<and> \<not> is_zero (da_database authority) 0 16"

definition zi_identity_database_authority_validate :: "ZiIdentityDatabaseAuthority \<Rightarrow> ZiStatus" where
  "zi_identity_database_authority_validate authority =
     (if \<not> authority_valid authority then ZI_STATUS_INVALID_ARGUMENT else ZI_STATUS_SUCCESS)"

text \<open>The loop of \<^verbatim>\<open>name_valid\<close>; its argument is the remaining suffix of the name.\<close>

function name_valid_loop :: "bytes \<Rightarrow> bool" where
  "name_valid_loop rest =
     (if rest = [] then True
      else case zi_utf8_decode (Some rest) of
             Inl status \<Rightarrow> False
           | Inr decoded \<Rightarrow>
               if scalar decoded < 32 \<or> (scalar decoded \<ge> 127 \<and> scalar decoded \<le> 159) \<or> scalar decoded = 0x2f \<or>
                  scalar decoded = 0x5c \<or> scalar decoded = 0x3a
               then False
               else name_valid_loop (drop (consumed decoded) rest))"
  by pat_completeness auto
termination
  by (relation "measure length") (auto dest: zi_utf8_decode_consumed)

declare name_valid_loop.simps [simp del]

definition name_valid :: "bytes option \<Rightarrow> bool" where
  "name_valid name =
     (case name of
        None \<Rightarrow> False
      | Some bytes \<Rightarrow>
          if bytes = [] \<or> length bytes > ZI_IDENTITY_DATABASE_NAME_BYTES then False else name_valid_loop bytes)"

definition database_checksum :: "bytes \<Rightarrow> u32" where
  "database_checksum bytes =
     zi_crc32c (zi_crc32c (zi_crc32c 0 (take 4092 bytes)) (replicate 4 0))
       (take (ZI_IDENTITY_DATABASE_SIZE - 4096) (drop 4096 bytes))"

definition update_checksum :: "bytes \<Rightarrow> bytes" where
  "update_checksum bytes = zi_write_u32_le bytes 4092 (database_checksum bytes)"

definition write_state :: "bytes \<Rightarrow> ZiIdentityDatabaseState \<Rightarrow> bytes" where
  "write_state bytes state =
     (let b1 = zi_write_u32_le bytes 16 (ds_record_count state);
          b2 = zi_write_u64_le b1 24 (ds_generation state);
          b3 = zi_write_u32_le b2 80 (is_group_high_water (ds_issuer state));
          b4 = zi_write_u32_le b3 84 (is_user_high_water (ds_issuer state)) in
      zi_write_u32_le b4 88 (is_service_high_water (ds_issuer state)))"

definition read_state :: "bytes \<Rightarrow> ZiIdentityDatabaseState" where
  "read_state bytes =
     \<lparr>ds_issuer =
        \<lparr>is_struct_size = sizeof_ZiIdentityIssuerState, is_version = ZI_IDENTITY_ISSUER_STATE_VERSION,
         is_issuer = zi_memory_copy (replicate 16 0) 0 bytes 32 16, is_group_high_water = zi_read_u32_le bytes 80,
         is_user_high_water = zi_read_u32_le bytes 84, is_service_high_water = zi_read_u32_le bytes 88\<rparr>,
      ds_generation = zi_read_u64_le bytes 24, ds_record_count = zi_read_u32_le bytes 16\<rparr>"

definition record_offset :: "u32 \<Rightarrow> nat" where
  "record_offset index = ZI_IDENTITY_DATABASE_HEADER_SIZE + unat index * ZI_IDENTITY_DATABASE_RECORD_SIZE"

definition record_bytes :: "bytes \<Rightarrow> u32 \<Rightarrow> bytes" where
  "record_bytes bytes index = drop (record_offset index) bytes"

definition zi_identity_database_initialise :: "ZiIdentityDatabaseAuthority \<Rightarrow> bytes \<Rightarrow> ZiStatus \<times> bytes" where
  "zi_identity_database_initialise authority bytes =
     (if \<not> authority_valid authority \<or> length bytes \<noteq> ZI_IDENTITY_DATABASE_SIZE then (ZI_STATUS_INVALID_ARGUMENT, bytes)
      else
        let b0 = zi_memory_copy (zi_memory_zero bytes 0 (length bytes)) 0 k_database_magic 0 4;
            b1 = zi_write_u16_le b0 4 ZI_IDENTITY_DATABASE_VERSION;
            b2 = zi_write_u16_le b1 6 (of_nat ZI_IDENTITY_DATABASE_HEADER_SIZE);
            b3 = zi_write_u32_le b2 8 (of_nat ZI_IDENTITY_DATABASE_SIZE);
            b4 = zi_write_u16_le b3 12 (of_nat ZI_IDENTITY_DATABASE_RECORD_SIZE);
            b5 = zi_write_u16_le b4 14 (ucast ZI_IDENTITY_DATABASE_CAPACITY);
            b6 = zi_write_u64_le b5 24 1;
            b7 = zi_memory_copy b6 32 (da_issuer authority) 0 16;
            b8 = zi_memory_copy b7 48 (da_volume authority) 0 16;
            b9 = zi_memory_copy b8 64 (da_database authority) 0 16;
            b10 = fold (\<lambda>offset b. zi_write_u32_le b offset (ZI_IDENTITY_FIRST_DYNAMIC_VALUE - 1)) [80, 84, 88] b9 in
        (ZI_STATUS_SUCCESS, update_checksum b10))"

section \<open>Records\<close>

definition record_fields :: "bytes \<Rightarrow> ZiNativeIdentity \<Rightarrow> ZiIdentityDatabaseRecord" where
  "record_fields bytes identity =
     (let name_size = zi_read_u16_le bytes 48; group_count = zi_read_u16_le bytes 50 in
      \<lparr>dr_identity = identity, dr_generation = zi_read_u64_le bytes 56, dr_state = zi_read_u32_le bytes 8,
       dr_name_size = name_size, dr_group_count = group_count,
       dr_name = zi_memory_copy (replicate ZI_IDENTITY_DATABASE_NAME_BYTES 0) 0 bytes 64 (unat name_size),
       dr_groups = map (\<lambda>index. if index < unat group_count then zi_read_u32_le bytes (192 + index * 4) else 0)
         [0..<ZI_IDENTITY_DATABASE_GROUPS]\<rparr>)"

text \<open>The test inside the loop that reads the groups of a record.\<close>

definition group_refused :: "u32 list \<Rightarrow> nat \<Rightarrow> bool" where
  "group_refused groups index \<longleftrightarrow>
     groups ! index < ZI_IDENTITY_FIRST_DYNAMIC_VALUE \<or> (index > 0 \<and> groups ! index \<le> groups ! (index - 1))"

definition decode_record :: "bytes \<Rightarrow> ZiIdentityDatabaseRecord result" where
  "decode_record bytes =
     (if zi_memory_compare bytes k_record_magic 4 \<noteq> 0 \<or> zi_read_u16_le bytes 4 \<noteq> ZI_IDENTITY_DATABASE_VERSION \<or>
         zi_read_u16_le bytes 6 \<noteq> of_nat ZI_IDENTITY_DATABASE_RECORD_SIZE \<or> zi_read_u32_le bytes 12 \<noteq> 0 \<or>
         zi_read_u32_le bytes 52 \<noteq> 0 \<or> \<not> is_zero bytes 256 252
      then Inl ZI_STATUS_INVALID_ARGUMENT
      else if zi_read_u32_le bytes 508 \<noteq> zi_crc32c 0 (take 508 bytes) then Inl ZI_STATUS_CHECKSUM_MISMATCH
      else
        case zi_identity_decode (take ZI_NATIVE_IDENTITY_WIRE_SIZE (drop 16 bytes)) of
          Inl status \<Rightarrow> Inl status
        | Inr identity \<Rightarrow>
            let record' = record_fields bytes identity;
                name_size = unat (dr_name_size record');
                group_count = unat (dr_group_count record') in
            if (dr_state record' \<noteq> ZI_IDENTITY_RECORD_DISABLED \<and> dr_state record' \<noteq> ZI_IDENTITY_RECORD_TOMBSTONE) \<or>
               name_size > ZI_IDENTITY_DATABASE_NAME_BYTES \<or> group_count > ZI_IDENTITY_DATABASE_GROUPS \<or>
               ((dr_state record' = ZI_IDENTITY_RECORD_TOMBSTONE \<or>
                 sid_authority (ni_local_id identity) = ZI_SECURITY_AUTHORITY_GROUP) \<and> group_count \<noteq> 0)
            then Inl ZI_STATUS_INVALID_ARGUMENT
            else if \<not> name_valid (Some (take name_size (drop 64 bytes))) \<or>
               \<not> is_zero bytes (64 + name_size) (128 - name_size) \<or>
               \<not> is_zero bytes (192 + group_count * 4) (64 - group_count * 4)
            then Inl ZI_STATUS_INVALID_ARGUMENT
            else if list_ex (group_refused (dr_groups record')) [0..<group_count] then Inl ZI_STATUS_INVALID_ARGUMENT
            else Inr record')"

definition validate_record_binding :: "ZiIdentityDatabaseRecord \<Rightarrow> ZiIdentityDatabaseState \<Rightarrow> ZiStatus" where
  "validate_record_binding record' state =
     (case zi_identity_resolve_local (dr_identity record') (is_issuer (ds_issuer state)) of
        Inl status \<Rightarrow> status
      | Inr local' \<Rightarrow>
          if sid_value local' \<le> high_water (ds_issuer state) (sid_authority local') \<and> dr_generation record' > 0 \<and>
             dr_generation record' \<le> ds_generation state
          then ZI_STATUS_SUCCESS else ZI_STATUS_INVALID_ARGUMENT)"

definition indices :: "u32 \<Rightarrow> u32 list" where
  "indices n = map of_nat [0..<unat n]"

definition has_group :: "bytes \<Rightarrow> u32 \<Rightarrow> u32 \<Rightarrow> bool" where
  "has_group bytes n v =
     list_ex (\<lambda>index.
       case decode_record (record_bytes bytes index) of
         Inl status \<Rightarrow> False
       | Inr record' \<Rightarrow>
           dr_state record' = ZI_IDENTITY_RECORD_DISABLED \<and>
           sid_authority (ni_local_id (dr_identity record')) = ZI_SECURITY_AUTHORITY_GROUP \<and>
           sid_value (ni_local_id (dr_identity record')) = v) (indices n)"

definition records_conflict :: "ZiIdentityDatabaseRecord \<Rightarrow> ZiIdentityDatabaseRecord \<Rightarrow> bool" where
  "records_conflict record' previous \<longleftrightarrow>
     zi_identity_equal (dr_identity record') (dr_identity previous) \<or>
     (dr_state record' \<noteq> ZI_IDENTITY_RECORD_TOMBSTONE \<and> dr_state previous \<noteq> ZI_IDENTITY_RECORD_TOMBSTONE \<and>
      sid_authority (ni_local_id (dr_identity record')) = sid_authority (ni_local_id (dr_identity previous)) \<and>
      dr_name_size record' = dr_name_size previous \<and>
      zi_memory_compare (dr_name record') (dr_name previous) (unat (dr_name_size record')) = 0)"

fun check_previous :: "bytes \<Rightarrow> ZiIdentityDatabaseRecord \<Rightarrow> u32 list \<Rightarrow> ZiStatus" where
  "check_previous bytes record' [] = ZI_STATUS_SUCCESS"
| "check_previous bytes record' (other # rest) =
     (case decode_record (record_bytes bytes other) of
        Inl status \<Rightarrow> status
      | Inr previous \<Rightarrow>
          if records_conflict record' previous then ZI_STATUS_ALREADY_EXISTS else check_previous bytes record' rest)"

fun validate_records_loop :: "bytes \<Rightarrow> ZiIdentityDatabaseState \<Rightarrow> u32 list \<Rightarrow> ZiStatus" where
  "validate_records_loop bytes state [] = ZI_STATUS_SUCCESS"
| "validate_records_loop bytes state (index # rest) =
     (case decode_record (record_bytes bytes index) of
        Inl status \<Rightarrow> status
      | Inr record' \<Rightarrow>
          let status1 = validate_record_binding record' state in
          if ZiFailed status1 then status1
          else
            let status2 = check_previous bytes record' (indices index) in
            if ZiFailed status2 then status2
            else if list_ex (\<lambda>group'. \<not> has_group bytes (ds_record_count state) group')
               (take (unat (dr_group_count record')) (dr_groups record'))
            then ZI_STATUS_INVALID_ARGUMENT
            else validate_records_loop bytes state rest)"

definition validate_records :: "bytes \<Rightarrow> ZiIdentityDatabaseState \<Rightarrow> ZiStatus" where
  "validate_records bytes state = validate_records_loop bytes state (indices (ds_record_count state))"

section \<open>Operations\<close>

definition zi_identity_database_validate ::
  "bytes \<Rightarrow> ZiIdentityDatabaseAuthority \<Rightarrow> u64 \<Rightarrow> ZiIdentityDatabaseState result" where
  "zi_identity_database_validate input authority minimum_generation =
     (if length input \<noteq> ZI_IDENTITY_DATABASE_SIZE \<or> \<not> authority_valid authority \<or> minimum_generation = 0
      then Inl ZI_STATUS_INVALID_ARGUMENT
      else if zi_memory_compare input k_database_magic 4 \<noteq> 0 \<or> zi_read_u16_le input 4 \<noteq> ZI_IDENTITY_DATABASE_VERSION \<or>
         zi_read_u16_le input 6 \<noteq> of_nat ZI_IDENTITY_DATABASE_HEADER_SIZE \<or>
         zi_read_u32_le input 8 \<noteq> of_nat ZI_IDENTITY_DATABASE_SIZE \<or>
         zi_read_u16_le input 12 \<noteq> of_nat ZI_IDENTITY_DATABASE_RECORD_SIZE \<or>
         zi_read_u16_le input 14 \<noteq> ucast ZI_IDENTITY_DATABASE_CAPACITY \<or>
         zi_read_u32_le input 20 \<noteq> 0 \<or> \<not> is_zero input 92 4000
      then Inl ZI_STATUS_INVALID_ARGUMENT
      else if zi_read_u32_le input 4092 \<noteq> database_checksum input then Inl ZI_STATUS_CHECKSUM_MISMATCH
      else if zi_memory_compare (drop 32 input) (da_issuer authority) 16 \<noteq> 0 \<or>
         zi_memory_compare (drop 48 input) (da_volume authority) 16 \<noteq> 0 \<or>
         zi_memory_compare (drop 64 input) (da_database authority) 16 \<noteq> 0
      then Inl ZI_STATUS_ACCESS_DENIED
      else
        let state = read_state input in
        if ds_record_count state > ZI_IDENTITY_DATABASE_CAPACITY \<or> ds_generation state = 0 \<or>
           ZiFailed (zi_identity_issuer_validate (ds_issuer state))
        then Inl ZI_STATUS_INVALID_ARGUMENT
        else if ds_generation state < minimum_generation then Inl ZI_STATUS_INVALID_STATE
        else
          let used = record_offset (ds_record_count state) in
          if \<not> is_zero input used (length input - used) then Inl ZI_STATUS_INVALID_ARGUMENT
          else
            let status = validate_records input state in
            if ZiFailed status then Inl status else Inr state)"

definition zi_identity_database_record ::
  "bytes \<Rightarrow> ZiIdentityDatabaseAuthority \<Rightarrow> u32 \<Rightarrow> ZiIdentityDatabaseRecord result" where
  "zi_identity_database_record bytes authority index =
     (case zi_identity_database_validate bytes authority 1 of
        Inl status \<Rightarrow> Inl status
      | Inr state \<Rightarrow>
          if index \<ge> ds_record_count state then Inl ZI_STATUS_NOT_FOUND
          else decode_record (record_bytes bytes index))"

fun request_name_loop :: "bytes \<Rightarrow> ZiIdentityCreateRequest \<Rightarrow> u32 list \<Rightarrow> ZiStatus" where
  "request_name_loop bytes request [] = ZI_STATUS_SUCCESS"
| "request_name_loop bytes request (index # rest) =
     (case decode_record (record_bytes bytes index) of
        Inl status \<Rightarrow> status
      | Inr record' \<Rightarrow>
          if dr_state record' \<noteq> ZI_IDENTITY_RECORD_TOMBSTONE \<and>
             sid_authority (ni_local_id (dr_identity record')) = cr_authority request \<and>
             unat (dr_name_size record') = length (the (cr_name request)) \<and>
             zi_memory_compare (dr_name record') (the (cr_name request)) (length (the (cr_name request))) = 0
          then ZI_STATUS_ALREADY_EXISTS
          else request_name_loop bytes request rest)"

definition validate_request :: "bytes \<Rightarrow> ZiIdentityDatabaseState \<Rightarrow> ZiIdentityCreateRequest \<Rightarrow> ZiStatus" where
  "validate_request bytes state request =
     (if cr_struct_size request \<noteq> sizeof_ZiIdentityCreateRequest \<or>
         cr_version request \<noteq> ucast ZI_IDENTITY_DATABASE_VERSION \<or> \<not> name_valid (cr_name request) \<or>
         cr_group_count request > ZI_IDENTITY_DATABASE_GROUPS \<or>
         (cr_group_count request \<noteq> 0 \<and> cr_groups request = None) \<or>
         (cr_authority request = ZI_SECURITY_AUTHORITY_GROUP \<and> cr_group_count request \<noteq> 0)
      then ZI_STATUS_INVALID_ARGUMENT
      else if list_ex (\<lambda>group'.
           (group' > 0 \<and> the (cr_groups request) ! group' \<le> the (cr_groups request) ! (group' - 1)) \<or>
           \<not> has_group bytes (ds_record_count state) (the (cr_groups request) ! group')) [0..<cr_group_count request]
      then ZI_STATUS_INVALID_ARGUMENT
      else request_name_loop bytes request (indices (ds_record_count state)))"

text \<open>The record that is appended, up to its checksum.\<close>

definition encode_record_body :: "ZiIdentityCreateRequest \<Rightarrow> bytes \<Rightarrow> u64 \<Rightarrow> bytes" where
  "encode_record_body request encoded generation =
     (let e1 = zi_write_u16_le encoded 48 (of_nat (length (the (cr_name request))));
          e2 = zi_write_u16_le e1 50 (of_nat (cr_group_count request));
          e3 = zi_write_u64_le e2 56 generation;
          e4 = zi_memory_copy e3 64 (the (cr_name request)) 0 (length (the (cr_name request))) in
      fold (\<lambda>index e. zi_write_u32_le e (192 + index * 4) (the (cr_groups request) ! index)) [0..<cr_group_count request] e4)"

definition zi_identity_database_append ::
  "bytes \<Rightarrow> ZiIdentityDatabaseAuthority \<Rightarrow> ZiIdentityCreateRequest \<Rightarrow> ZiNativeIdentity result \<times> bytes" where
  "zi_identity_database_append bytes authority request =
     (case zi_identity_database_validate bytes authority 1 of
        Inl status \<Rightarrow> (Inl status, bytes)
      | Inr state \<Rightarrow>
          let status1 = validate_request bytes state request in
          if ZiFailed status1 then (Inl status1, bytes)
          else if ds_record_count state = ZI_IDENTITY_DATABASE_CAPACITY \<or> ds_generation state = UINT64_MAX
          then (Inl ZI_STATUS_OUT_OF_BOUNDS, bytes)
          else
            case zi_identity_reserve (ds_issuer state) (cr_authority request) of
              Inl status2 \<Rightarrow> (Inl status2, bytes)
            | Inr (issuer1, identity) \<Rightarrow>
                let e0 = zi_memory_copy (replicate ZI_IDENTITY_DATABASE_RECORD_SIZE 0) 0 k_record_magic 0 4;
                    e1 = zi_write_u16_le e0 4 ZI_IDENTITY_DATABASE_VERSION;
                    e2 = zi_write_u16_le e1 6 (of_nat ZI_IDENTITY_DATABASE_RECORD_SIZE);
                    e3 = zi_write_u32_le e2 8 ZI_IDENTITY_RECORD_DISABLED;
                    (status3, wire) = zi_identity_encode identity (take ZI_NATIVE_IDENTITY_WIRE_SIZE (drop 16 e3));
                    e4 = zi_memory_copy e3 16 wire 0 ZI_NATIVE_IDENTITY_WIRE_SIZE in
                if ZiFailed status3 then (Inl status3, bytes)
                else
                  let generation = ds_generation state + 1;
                      e5 = encode_record_body request e4 generation;
                      encoded = zi_write_u32_le e5 508 (zi_crc32c 0 (take 508 e5));
                      b1 = zi_memory_copy bytes (record_offset (ds_record_count state)) encoded 0 ZI_IDENTITY_DATABASE_RECORD_SIZE;
                      b2 = write_state b1 \<lparr>ds_issuer = issuer1, ds_generation = generation,
                             ds_record_count = ds_record_count state + 1\<rparr> in
                  (Inr identity, update_checksum b2))"

text \<open>The search for the record to remove; the last argument is the record found so far.\<close>

fun remove_loop ::
  "bytes \<Rightarrow> ZiIdentityDatabaseAuthority \<Rightarrow> ZiNativeIdentity \<Rightarrow> u32 list \<Rightarrow> u32 \<Rightarrow> u32 result" where
  "remove_loop bytes authority identity [] target = Inr target"
| "remove_loop bytes authority identity (index # rest) target =
     (case decode_record (record_bytes bytes index) of
        Inl status \<Rightarrow> Inl status
      | Inr record' \<Rightarrow>
          if dr_state record' = ZI_IDENTITY_RECORD_TOMBSTONE then remove_loop bytes authority identity rest target
          else
            let target1 = (if zi_identity_equal (dr_identity record') identity then index else target) in
            if sid_authority (ni_local_id identity) = ZI_SECURITY_AUTHORITY_GROUP \<and>
               zi_memory_compare (ni_issuer identity) (da_issuer authority) 16 = 0 \<and>
               list_ex (\<lambda>group'. group' = sid_value (ni_local_id identity))
                 (take (unat (dr_group_count record')) (dr_groups record'))
            then Inl ZI_STATUS_RESOURCE_IN_USE
            else remove_loop bytes authority identity rest target1)"

definition zi_identity_database_remove ::
  "bytes \<Rightarrow> ZiIdentityDatabaseAuthority \<Rightarrow> ZiNativeIdentity \<Rightarrow> ZiStatus \<times> bytes" where
  "zi_identity_database_remove bytes authority identity =
     (if ZiFailed (zi_identity_validate identity) then (ZI_STATUS_INVALID_ARGUMENT, bytes)
      else
        case zi_identity_database_validate bytes authority 1 of
          Inl status \<Rightarrow> (status, bytes)
        | Inr state \<Rightarrow>
            if ds_generation state = UINT64_MAX then (ZI_STATUS_OUT_OF_BOUNDS, bytes)
            else
              case remove_loop bytes authority identity (indices (ds_record_count state)) UINT32_MAX of
                Inl status1 \<Rightarrow> (status1, bytes)
              | Inr target \<Rightarrow>
                  if target = UINT32_MAX then (ZI_STATUS_NOT_FOUND, bytes)
                  else
                    let at = record_offset target;
                        generation = ds_generation state + 1;
                        b1 = zi_write_u32_le bytes (at + 8) ZI_IDENTITY_RECORD_TOMBSTONE;
                        b2 = zi_write_u16_le b1 (at + 50) 0;
                        b3 = zi_memory_zero b2 (at + 192) 64;
                        b4 = zi_write_u64_le b3 (at + 56) generation;
                        b5 = zi_write_u32_le b4 (at + 508) (zi_crc32c 0 (take 508 (drop at b4)));
                        b6 = write_state b5 (state\<lparr>ds_generation := generation\<rparr>) in
                    (ZI_STATUS_SUCCESS, update_checksum b6))"

section \<open>Failures and identities\<close>

lemma is_zero_iff: "is_zero bs at len \<longleftrightarrow> (\<forall>i<len. bs ! (at + i) = 0)"
  by (auto simp: is_zero_def list_all_iff)

lemma issuer_is_valid_iff: "issuer_is_valid bs \<longleftrightarrow> (\<exists>i<16. bs ! i \<noteq> 0)"
  by (auto simp: issuer_is_valid_def list_ex_iff)

lemma zi_identity_decode_failed: "zi_identity_decode bs = Inl status \<Longrightarrow> ZiFailed status"
  by (auto simp: zi_identity_decode_def Let_def split: if_splits)

lemma zi_identity_decode_valid: "zi_identity_decode bs = Inr identity \<Longrightarrow> zi_identity_validate identity = ZI_STATUS_SUCCESS"
  by (auto simp: zi_identity_decode_def zi_identity_validate_def Let_def split: if_splits)

lemma decode_record_failed:
  assumes "decode_record bs = Inl status"
  shows "ZiFailed status"
proof (cases "zi_identity_decode (take 32 (drop 16 bs))")
  case (Inl s)
  with assms zi_identity_decode_failed [OF Inl] show ?thesis by (auto simp: decode_record_def split: if_splits)
next
  case (Inr identity)
  with assms show ?thesis by (auto simp: decode_record_def Let_def split: if_splits)
qed

lemma decode_record_valid:
  assumes "decode_record bs = Inr r"
  shows "zi_identity_validate (dr_identity r) = ZI_STATUS_SUCCESS"
  using assms zi_identity_decode_valid
  by (auto simp: decode_record_def record_fields_def Let_def split: if_splits sum.splits)


lemma resolve_local_Inr:
  "zi_identity_resolve_local i issuer = Inr sid \<Longrightarrow> sid = ni_local_id i \<and> authority_is_dynamic (sid_authority sid)"
  by (auto simp: zi_identity_resolve_local_def split: if_splits)

lemma resolve_local_failed: "zi_identity_resolve_local i issuer = Inl status \<Longrightarrow> ZiFailed status"
  by (auto simp: zi_identity_resolve_local_def split: if_splits)

lemma validate_record_binding_bound:
  assumes "\<not> ZiFailed (validate_record_binding r state)"
  shows "sid_value (ni_local_id (dr_identity r)) \<le>
    high_water (ds_issuer state) (sid_authority (ni_local_id (dr_identity r)))"
proof (cases "zi_identity_resolve_local (dr_identity r) (is_issuer (ds_issuer state))")
  case (Inl status)
  with assms resolve_local_failed [OF Inl] show ?thesis by (simp add: validate_record_binding_def)
next
  case (Inr sid)
  with assms resolve_local_Inr [OF Inr] show ?thesis by (auto simp: validate_record_binding_def split: if_splits)
qed

section \<open>Validated databases\<close>

lemma set_indices: "set (indices n) = {i. i < n}"
proof -
  have "i \<in> set (indices n)" if "i < n" for i
    using that by (auto simp: indices_def word_less_nat_alt intro!: image_eqI [of i _ "unat i"])
  moreover have "i < n" if "i \<in> set (indices n)" for i
  proof -
    obtain k where k: "i = of_nat k" "k < unat n" using \<open>i \<in> set (indices n)\<close> by (auto simp: indices_def)
    have "unat (of_nat k :: u32) \<le> k" by (simp add: unsigned_of_nat take_bit_nat_less_eq_self)
    with k show ?thesis by (simp add: word_less_nat_alt)
  qed
  ultimately show ?thesis by blast
qed


lemma validate_records_loop_ok:
  assumes "\<not> ZiFailed (validate_records_loop bs state list)" "i \<in> set list"
  shows "\<exists>r. decode_record (record_bytes bs i) = Inr r \<and> \<not> ZiFailed (validate_record_binding r state) \<and>
    \<not> ZiFailed (check_previous bs r (indices i)) \<and>
    (\<forall>g\<in>set (take (unat (dr_group_count r)) (dr_groups r)). has_group bs (ds_record_count state) g)"
  using assms
proof (induction list)
  case (Cons index rest)
  show ?case
  proof (cases "decode_record (record_bytes bs index)")
    case (Inl status)
    with Cons.prems(1) decode_record_failed [OF Inl] show ?thesis by simp
  next
    case (Inr r)
    then have "\<not> ZiFailed (validate_record_binding r state)" "\<not> ZiFailed (check_previous bs r (indices index))"
      "\<forall>g\<in>set (take (unat (dr_group_count r)) (dr_groups r)). has_group bs (ds_record_count state) g"
      "\<not> ZiFailed (validate_records_loop bs state rest)"
      using Cons.prems(1) ZiFailed_iff [of ZI_STATUS_INVALID_ARGUMENT]
      by (auto simp: Let_def list_ex_iff simp del: ZiFailed_iff split: if_splits)
    with Inr Cons show ?thesis by (cases "i = index") auto
  qed
qed simp

lemma database_validate_Inr:
  assumes "zi_identity_database_validate bs authority g = Inr state"
  shows "length bs = 36864" and "state = read_state bs" and "unat (ds_record_count state) \<le> 64"
    and "zi_identity_issuer_validate (ds_issuer state) = ZI_STATUS_SUCCESS"
    and "\<not> ZiFailed (validate_records bs state)"
    and "zi_identity_database_validate bs authority 1 = Inr state"
proof -
  show "length bs = 36864" "state = read_state bs" and five: "\<not> ZiFailed (validate_records bs state)"
    using assms by (auto simp: zi_identity_database_validate_def Let_def simp del: ZiFailed_iff split: if_splits)
  show "unat (ds_record_count state) \<le> 64"
    using assms by (auto simp: zi_identity_database_validate_def Let_def word_less_nat_alt simp del: ZiFailed_iff split: if_splits)
  have "\<not> ZiFailed (zi_identity_issuer_validate (ds_issuer state))"
    using assms by (auto simp: zi_identity_database_validate_def Let_def simp del: ZiFailed_iff split: if_splits)
  then show "zi_identity_issuer_validate (ds_issuer state) = ZI_STATUS_SUCCESS"
    by (auto simp: zi_identity_issuer_validate_def split: if_splits)
  have "ds_generation (read_state bs) \<noteq> 0"
    using assms by (auto simp: zi_identity_database_validate_def Let_def simp del: ZiFailed_iff split: if_splits)
  then have "\<not> ds_generation (read_state bs) < 1" by (simp add: word_less_nat_alt unat_eq_0)
  with assms show "zi_identity_database_validate bs authority 1 = Inr state"
    by (auto simp: zi_identity_database_validate_def Let_def simp del: ZiFailed_iff split: if_splits)
qed

lemma database_record_Inr:
  assumes "zi_identity_database_validate bs authority g = Inr state" "i < ds_record_count state"
  obtains r where "zi_identity_database_record bs authority i = Inr r" "\<not> ZiFailed (validate_record_binding r state)"
    "\<not> ZiFailed (check_previous bs r (indices i))" "zi_identity_validate (dr_identity r) = ZI_STATUS_SUCCESS"
    "\<forall>g\<in>set (take (unat (dr_group_count r)) (dr_groups r)). has_group bs (ds_record_count state) g"
proof -
  note V = database_validate_Inr [OF assms(1)]
  obtain r where r: "decode_record (record_bytes bs i) = Inr r" "\<not> ZiFailed (validate_record_binding r state)"
    "\<not> ZiFailed (check_previous bs r (indices i))"
    "\<forall>g\<in>set (take (unat (dr_group_count r)) (dr_groups r)). has_group bs (ds_record_count state) g"
    using validate_records_loop_ok [OF V(5) [unfolded validate_records_def], of i] assms(2) by (auto simp: set_indices)
  have "zi_identity_database_record bs authority i = Inr r"
    using V(6) r(1) assms(2) by (simp add: zi_identity_database_record_def)
  then show thesis using that r decode_record_valid by blast
qed

section \<open>Issuing identities\<close>

lemma high_water_set [simp]: "high_water (set_high_water state a w) a = w"
  by (simp add: high_water_def set_high_water_def)

lemma set_high_water_issuer [simp]: "is_issuer (set_high_water state a w) = is_issuer state"
  by (simp add: set_high_water_def)

lemma reserve_Inr:
  assumes "zi_identity_reserve state a = Inr (state', identity)"
  shows "state' = set_high_water state a (high_water state a + 1)" and "sid_authority (ni_local_id identity) = a"
    and "sid_value (ni_local_id identity) = high_water state a + 1" and "high_water state a < high_water state a + 1"
proof -
  have room: "high_water state a \<noteq> UINT32_MAX"
    using assms by (auto simp: zi_identity_reserve_def split: if_splits)
  show "state' = set_high_water state a (high_water state a + 1)" "sid_authority (ni_local_id identity) = a"
    "sid_value (ni_local_id identity) = high_water state a + 1"
    using assms by (auto simp: zi_identity_reserve_def Let_def split: if_splits)
  have "unat (high_water state a) < 2 ^ 32" using unsigned_less [of "high_water state a"] by simp
  moreover have "unat (high_water state a) \<noteq> unat (UINT32_MAX :: u32)" using room by (simp only: word_unat_eq_iff not_False_eq_True)
  ultimately have "unat (high_water state a) + unat (1 :: u32) < 2 ^ LENGTH(32)" by simp
  then have "unat (high_water state a + 1) = unat (high_water state a) + 1" using unat_add_lem [of "high_water state a" 1] by simp
  then show "high_water state a < high_water state a + 1" by (simp add: word_less_nat_alt)
qed

lemma reserve_failed: "zi_identity_reserve state a = Inl status \<Longrightarrow> ZiFailed status"
  by (auto simp: zi_identity_reserve_def Let_def split: if_splits)

lemma length_write_state [simp]: "length (write_state bs state) = length bs"
  by (simp add: write_state_def Let_def le_simps)

lemma length_update_checksum [simp]: "length (update_checksum bs) = length bs"
  by (simp add: update_checksum_def le_simps)

lemma read_state_issuer_copy:
  "zi_memory_copy (replicate 16 0) 0 bs 32 16 = map (\<lambda>i. bs ! (32 + i)) [0..<16]"
  by (rule nth_equalityI) (auto simp: nth_zi_memory_copy le_simps)

lemma read_write_state:
  assumes "4096 \<le> length bs" and "is_struct_size (ds_issuer state) = 36" "is_version (ds_issuer state) = 1"
    and "is_issuer (ds_issuer state) = map (\<lambda>i. bs ! (32 + i)) [0..<16]"
  shows "read_state (update_checksum (write_state bs state)) = state"
proof -
  have "update_checksum (write_state bs state) ! (32 + i) = bs ! (32 + i)" if "i < 16" for i
    using that by (simp add: update_checksum_def write_state_def Let_def le_simps)
  then have issuer: "map (\<lambda>i. update_checksum (write_state bs state) ! (32 + i)) [0..<16] = is_issuer (ds_issuer state)"
    unfolding assms(4) by simp
  show ?thesis unfolding read_state_def read_state_issuer_copy issuer using assms(1-3)
    by (simp add: update_checksum_def write_state_def Let_def le_simps)
qed

text \<open>The record slots lie behind the header, so filling one keeps the header.\<close>

lemma read_state_record_copy: "4096 \<le> at \<Longrightarrow> map (\<lambda>i. zi_memory_copy bs at e m len ! (32 + i)) [0..<16] = map (\<lambda>i. bs ! (32 + i)) [0..<16]"
  by (simp add: nth_zi_memory_copy)

section \<open>A new database\<close>

text \<open>The buffer that initialisation fills, before its checksum.\<close>

definition initial_bytes :: "ZiIdentityDatabaseAuthority \<Rightarrow> bytes \<Rightarrow> bytes" where
  "initial_bytes a bs =
     fold (\<lambda>offset b. zi_write_u32_le b offset 255) [80, 84, 88]
       (zi_memory_copy (zi_memory_copy (zi_memory_copy
         (zi_write_u64_le (zi_write_u16_le (zi_write_u16_le (zi_write_u32_le (zi_write_u16_le (zi_write_u16_le
           (zi_memory_copy (zi_memory_zero bs 0 (length bs)) 0 k_database_magic 0 4)
           4 1) 6 4096) 8 36864) 12 512) 14 64) 24 1)
         32 (da_issuer a) 0 16) 48 (da_volume a) 0 16) 64 (da_database a) 0 16)"

lemma initialise_bytes:
  assumes "authority_valid a" "length bs = 36864"
  shows "zi_identity_database_initialise a bs = (ZI_STATUS_SUCCESS, update_checksum (initial_bytes a bs))"
  using assms by (simp add: zi_identity_database_initialise_def initial_bytes_def Let_def)

lemma length_initial_bytes [simp]: "length (initial_bytes a bs) = length bs"
  by (simp add: initial_bytes_def le_simps)

lemma initial_bytes_zero:
  assumes "length bs = 36864" "i < 36864" "92 \<le> i"
  shows "initial_bytes a bs ! i = 0"
  using assms by (simp add: initial_bytes_def le_simps nth_zi_memory_copy nth_zi_memory_zero)

lemma initial_bytes_nth:
  assumes "length bs = 36864"
  shows "i < 4 \<Longrightarrow> initial_bytes a bs ! i = k_database_magic ! i"
    and "i < 16 \<Longrightarrow> initial_bytes a bs ! (32 + i) = da_issuer a ! i"
    and "i < 16 \<Longrightarrow> initial_bytes a bs ! (48 + i) = da_volume a ! i"
    and "i < 16 \<Longrightarrow> initial_bytes a bs ! (64 + i) = da_database a ! i"
  using assms by (simp_all add: initial_bytes_def le_simps nth_zi_memory_copy)

text \<open>The four reserved bytes of the header are never written.\<close>

lemma initial_bytes_reserved:
  assumes "length bs = 36864" "16 \<le> i" "i < 24"
  shows "initial_bytes a bs ! i = 0"
  using assms by (simp add: initial_bytes_def le_simps nth_zi_memory_copy nth_zi_memory_zero)

lemma read_zero_u32:
  assumes "\<And>i. i < 4 \<Longrightarrow> bs ! (k + i) = 0"
  shows "zi_read_u32_le bs k = 0"
  using assms [of 0] assms [of 1] assms [of 2] assms [of 3] by (simp add: zi_read_u32_le_def)

lemma initial_bytes_fields:
  assumes "length bs = 36864"
  shows "zi_read_u16_le (initial_bytes a bs) 4 = 1" "zi_read_u16_le (initial_bytes a bs) 6 = 4096"
    "zi_read_u32_le (initial_bytes a bs) 8 = 36864" "zi_read_u16_le (initial_bytes a bs) 12 = 512"
    "zi_read_u16_le (initial_bytes a bs) 14 = 64" "zi_read_u64_le (initial_bytes a bs) 24 = 1"
    "zi_read_u32_le (initial_bytes a bs) 80 = 255" "zi_read_u32_le (initial_bytes a bs) 84 = 255"
    "zi_read_u32_le (initial_bytes a bs) 88 = 255"
    "zi_read_u32_le (initial_bytes a bs) 16 = 0" "zi_read_u32_le (initial_bytes a bs) 20 = 0"
proof -
  show "zi_read_u32_le (initial_bytes a bs) 16 = 0" "zi_read_u32_le (initial_bytes a bs) 20 = 0"
    using initial_bytes_reserved [OF assms] by (auto intro!: read_zero_u32)
qed (use assms in \<open>simp_all add: initial_bytes_def le_simps\<close>)

definition initial_state :: "ZiIdentityDatabaseAuthority \<Rightarrow> ZiIdentityDatabaseState" where
  "initial_state a =
     \<lparr>ds_issuer = \<lparr>is_struct_size = 36, is_version = 1, is_issuer = da_issuer a, is_group_high_water = 255,
        is_user_high_water = 255, is_service_high_water = 255\<rparr>, ds_generation = 1, ds_record_count = 0\<rparr>"

lemma database_checksum_update: "database_checksum (zi_write_u32_le bs 4092 v) = database_checksum bs"
  by (simp add: database_checksum_def)

lemma validate_initial:
  assumes a: "authority_valid a" "length (da_issuer a) = 16" and len: "length bs = 36864"
  shows "zi_identity_database_validate (update_checksum (initial_bytes a bs)) a 1 = Inr (initial_state a)"
proof -
  define b where "b = update_checksum (initial_bytes a bs)"
  have nth: "b ! i = initial_bytes a bs ! i" if "i < 4092 \<or> 4096 \<le> i" for i
    using that by (simp add: b_def update_checksum_def le_simps)
  have length: "length b = 36864" using len by (simp add: b_def)
  have fields: "zi_read_u16_le b 4 = 1" "zi_read_u16_le b 6 = 4096" "zi_read_u32_le b 8 = 36864" "zi_read_u16_le b 12 = 512"
    "zi_read_u16_le b 14 = 64" "zi_read_u64_le b 24 = 1" "zi_read_u32_le b 80 = 255" "zi_read_u32_le b 84 = 255"
    "zi_read_u32_le b 88 = 255" "zi_read_u32_le b 16 = 0" "zi_read_u32_le b 20 = 0"
    by (simp_all add: b_def update_checksum_def le_simps initial_bytes_fields [OF len])
  have zero: "is_zero b 92 4000" "is_zero b 4096 32768"
    by (auto simp: is_zero_iff nth initial_bytes_zero [OF len])
  have sum: "zi_read_u32_le b 4092 = database_checksum b"
    using len by (simp add: b_def update_checksum_def database_checksum_update le_simps)
  have names: "zi_memory_compare b k_database_magic 4 = 0" "zi_memory_compare (drop 32 b) (da_issuer a) 16 = 0"
    "zi_memory_compare (drop 48 b) (da_volume a) 16 = 0" "zi_memory_compare (drop 64 b) (da_database a) 16 = 0"
    by (simp_all add: zi_memory_compare_0 length nth initial_bytes_nth [OF len])
  have "map (\<lambda>i. b ! (32 + i)) [0..<16] = da_issuer a"
    using a(2) by (intro nth_equalityI) (simp_all add: nth initial_bytes_nth [OF len])
  then have state: "read_state b = initial_state a"
    by (simp add: read_state_def read_state_issuer_copy initial_state_def fields)
  have "issuer_is_valid (da_issuer a)" using a(1) by (simp add: authority_valid_def is_zero_iff issuer_is_valid_iff)
  then have "zi_identity_issuer_validate (ds_issuer (initial_state a)) = ZI_STATUS_SUCCESS"
    by (simp add: zi_identity_issuer_validate_def initial_state_def)
  moreover have "validate_records b (initial_state a) = ZI_STATUS_SUCCESS"
    by (simp add: validate_records_def indices_def initial_state_def)
  ultimately show ?thesis unfolding b_def [symmetric] zi_identity_database_validate_def state Let_def
    using a(1) length fields zero sum names by (simp add: initial_state_def record_offset_def)
qed

section \<open>Properties\<close>









definition sample_authority :: ZiIdentityDatabaseAuthority where
  "sample_authority = \<lparr>da_struct_size = 56, da_version = 1, da_issuer = replicate 16 1, da_volume = replicate 16 2,
     da_database = replicate 16 3\<rparr>"

lemma sample_authority_valid: "authority_valid sample_authority" "length (da_issuer sample_authority) = 16"
  by (auto simp: authority_valid_def sample_authority_def is_zero_iff intro!: exI [of _ 0])

abbreviation (input) sample_database :: bytes where
  "sample_database \<equiv> update_checksum (initial_bytes sample_authority (replicate 36864 0))"

lemma sample_database_valid:
  "zi_identity_database_validate sample_database sample_authority 1 = Inr (initial_state sample_authority)"
  by (rule validate_initial [OF sample_authority_valid]) simp


text \<open>
  C40: A new database, written over any buffer of the right size, is accepted for its authority, with no
  records, the first generation and every counter just below the first dynamic value.
\<close>

theorem zi_identity_database_initialise_valid:
  assumes "authority_valid a" "length (da_issuer a) = 16" "length bs = 36864"
  shows "fst (zi_identity_database_initialise a bs) = ZI_STATUS_SUCCESS \<and>
    zi_identity_database_validate (snd (zi_identity_database_initialise a bs)) a 1 =
      Inr \<lparr>ds_issuer = \<lparr>is_struct_size = 36, is_version = 1, is_issuer = da_issuer a, is_group_high_water = 255,
        is_user_high_water = 255, is_service_high_water = 255\<rparr>, ds_generation = 1, ds_record_count = 0\<rparr>"
  using validate_initial [OF assms] by (simp add: initialise_bytes [OF assms(1,3)] initial_state_def)

theorem zi_identity_database_initialise_valid_witness:
  "fst (zi_identity_database_initialise sample_authority (replicate 36864 0xff)) = ZI_STATUS_SUCCESS"
  using zi_identity_database_initialise_valid [OF sample_authority_valid, of "replicate 36864 0xff"] by simp

lemma validate_failed:
  assumes "zi_identity_database_validate bs a g = Inl status"
  shows "ZiFailed status"
proof (cases "ZiFailed (validate_records bs (read_state bs))")
  case True
  then show ?thesis using assms by (simp add: zi_identity_database_validate_def Let_def split: if_splits)
next
  case False
  then show ?thesis using assms
    by (simp add: zi_identity_database_validate_def Let_def del: ZiFailed_iff split: if_splits) simp_all
qed

text \<open>Appending, once every check has passed.\<close>

lemma append_Inr:
  assumes "zi_identity_database_append bs a request = (Inr identity, bs')"
  obtains state issuer encoded where "zi_identity_database_validate bs a 1 = Inr state"
    "ds_record_count state \<noteq> 64" "ds_generation state \<noteq> UINT64_MAX"
    "zi_identity_reserve (ds_issuer state) (cr_authority request) = Inr (issuer, identity)"
    "bs' = update_checksum (write_state (zi_memory_copy bs (record_offset (ds_record_count state)) encoded 0 512)
      \<lparr>ds_issuer = issuer, ds_generation = ds_generation state + 1, ds_record_count = ds_record_count state + 1\<rparr>)"
  using assms
  by (auto simp: zi_identity_database_append_def Let_def simp del: ZiFailed_iff split: sum.splits if_splits prod.splits)

lemma append_Inl:
  assumes "zi_identity_database_append bs a request = (Inl status, bs')"
  shows "ZiFailed status \<and> bs' = bs"
proof (cases "zi_identity_database_validate bs a 1")
  case (Inl s)
  with assms validate_failed [OF Inl] show ?thesis by (simp add: zi_identity_database_append_def)
next
  case valid: (Inr state)
  show ?thesis
  proof (cases "zi_identity_reserve (ds_issuer state) (cr_authority request)")
    case (Inl s)
    with assms valid reserve_failed [OF Inl] show ?thesis
      by (auto simp: zi_identity_database_append_def Let_def split: if_splits)
  next
    case (Inr reserved)
    with assms valid show ?thesis
      by (auto simp: zi_identity_database_append_def Let_def split: if_splits prod.splits)
  qed
qed

text \<open>
  C6: Appending an account either fails and leaves the database as it was, or issues an identity that no
  record of the database has, removed ones included, and records the new counter, one more record and the next
  generation in the header, so that the identity is never issued again.
\<close>

theorem zi_identity_database_append_fresh:
  "case zi_identity_database_append bs a request of
     (Inl status, bs') \<Rightarrow> ZiFailed status \<and> bs' = bs
   | (Inr identity, bs') \<Rightarrow>
       \<not> (\<exists>i r. zi_identity_database_record bs a i = Inr r \<and> dr_identity r = identity) \<and> length bs' = length bs \<and>
       ds_record_count (read_state bs') = ds_record_count (read_state bs) + 1 \<and>
       ds_generation (read_state bs') = ds_generation (read_state bs) + 1 \<and>
       high_water (ds_issuer (read_state bs')) (cr_authority request) = sid_value (ni_local_id identity)"
proof (cases "zi_identity_database_append bs a request")
  case (Pair result bs')
  show ?thesis
  proof (cases result)
    case (Inl status)
    with Pair append_Inl [of bs a request status bs'] show ?thesis by simp
  next
    case (Inr identity)
    obtain state issuer encoded where valid: "zi_identity_database_validate bs a 1 = Inr state"
      and "ds_record_count state \<noteq> 64" "ds_generation state \<noteq> UINT64_MAX"
      and reserve: "zi_identity_reserve (ds_issuer state) (cr_authority request) = Inr (issuer, identity)"
      and bs': "bs' = update_checksum (write_state (zi_memory_copy bs (record_offset (ds_record_count state)) encoded 0 512)
        \<lparr>ds_issuer = issuer, ds_generation = ds_generation state + 1, ds_record_count = ds_record_count state + 1\<rparr>)"
      by (rule append_Inr [OF Pair [unfolded Inr]])
    note V = database_validate_Inr [OF valid] and R = reserve_Inr [OF reserve]
    have fresh: "dr_identity r \<noteq> identity" if rec: "zi_identity_database_record bs a i = Inr r" for i r
    proof
      assume same: "dr_identity r = identity"
      have i: "i < ds_record_count state"
        using rec valid by (auto simp: zi_identity_database_record_def not_le split: if_splits)
      obtain q where "zi_identity_database_record bs a i = Inr q" "\<not> ZiFailed (validate_record_binding q state)"
        by (rule database_record_Inr [OF valid i])
      then have "sid_value (ni_local_id identity) \<le> high_water (ds_issuer state) (cr_authority request)"
        using validate_record_binding_bound [of r state] rec same R(2) by auto
      with R(3,4) show False by simp
    qed
    have "is_issuer (ds_issuer (read_state bs)) = map (\<lambda>i. bs ! (32 + i)) [0..<16]"
      by (simp add: read_state_def read_state_issuer_copy)
    moreover have "is_struct_size issuer = 36" "is_version issuer = 1"
      unfolding R(1) V(2) by (simp_all add: set_high_water_def read_state_def)
    ultimately have "read_state bs' = \<lparr>ds_issuer = issuer, ds_generation = ds_generation state + 1, ds_record_count = ds_record_count state + 1\<rparr>"
      unfolding bs' using V(1)
      by (intro read_write_state) (simp_all add: le_simps read_state_record_copy record_offset_def R(1) V(2))
    moreover have "length bs' = length bs" by (simp add: bs' le_simps)
    ultimately show ?thesis using Pair Inr fresh R V(2) by auto
  qed
qed

definition sample_request :: ZiIdentityCreateRequest where
  "sample_request = \<lparr>cr_struct_size = 48, cr_version = 1, cr_authority = 3, cr_name = Some [0x61], cr_groups = None, cr_group_count = 0\<rparr>"

lemma sample_request_valid: "validate_request bs (initial_state sample_authority) sample_request = ZI_STATUS_SUCCESS"
proof -
  have "zi_utf8_decode (Some [0x61]) = Inr \<lparr>scalar = 0x61, consumed = 1\<rparr>" by code_simp
  then have "name_valid_loop [0x61]"
    by (subst name_valid_loop.simps) (simp add: name_valid_loop.simps [of "[]"])
  then show ?thesis
    by (simp add: validate_request_def sample_request_def name_valid_def initial_state_def indices_def)
qed

lemma sample_append: "\<exists>bs'. zi_identity_database_append sample_database sample_authority sample_request =
    (Inr \<lparr>ni_issuer = replicate 16 1, ni_local_id = \<lparr>sid_authority = 3, sid_value = 256\<rparr>\<rparr>, bs')"
proof -
  have issuer: "zi_memory_copy (replicate 16 0) 0 (replicate 16 1) 0 16 = replicate 16 (1 :: byte)"
    by (rule nth_equalityI) (auto simp: nth_zi_memory_copy le_simps)
  let ?identity = "\<lparr>ni_issuer = replicate 16 1, ni_local_id = \<lparr>sid_authority = 3, sid_value = 256\<rparr>\<rparr>"
  have ok: "issuer_is_valid (replicate 16 1)" by (auto simp: issuer_is_valid_iff intro!: exI [of _ 0])
  then have reserve: "zi_identity_reserve (ds_issuer (initial_state sample_authority)) 3 =
      Inr (set_high_water (ds_issuer (initial_state sample_authority)) 3 256, ?identity)"
    by (simp add: zi_identity_reserve_def zi_identity_issuer_validate_def initial_state_def sample_authority_def
        authority_is_dynamic_def high_water_def set_high_water_def issuer)
  have "zi_identity_validate ?identity = ZI_STATUS_SUCCESS"
    using ok by (simp add: zi_identity_validate_def zi_security_id_validate_def)
  then have encode: "fst (zi_identity_encode ?identity out) = ZI_STATUS_SUCCESS" if "length out = 32" for out
    using that by (simp add: zi_identity_encode_def Let_def)
  define wire where "wire out = snd (zi_identity_encode ?identity out)" for out
  have encoded: "zi_identity_encode ?identity out = (ZI_STATUS_SUCCESS, wire out)" if "length out = 32" for out
    using encode [OF that] by (simp add: wire_def prod_eq_iff)
  have state: "ds_record_count (initial_state sample_authority) = 0" "ds_generation (initial_state sample_authority) = 1"
    by (simp_all add: initial_state_def)
  have authority: "cr_authority sample_request = 3" by (simp add: sample_request_def)
  show ?thesis
    unfolding zi_identity_database_append_def sample_database_valid
    by (simp add: sample_request_valid reserve state authority encoded Let_def le_simps)
qed

theorem zi_identity_database_append_fresh_witness:
  "\<exists>identity bs'. zi_identity_database_append sample_database sample_authority sample_request = (Inr identity, bs') \<and>
     ds_record_count (read_state bs') = ds_record_count (read_state sample_database) + 1"
proof -
  obtain identity bs' where append: "zi_identity_database_append sample_database sample_authority sample_request = (Inr identity, bs')"
    using sample_append by blast
  with zi_identity_database_append_fresh [of sample_database sample_authority sample_request]
  have "ds_record_count (read_state bs') = ds_record_count (read_state sample_database) + 1"
    unfolding append by simp
  with append show ?thesis by blast
qed

end
