(* ===== verification/Spec2Isabelle.thy ===== *)
theory Spec2Isabelle
  imports Zi_Bytes Zi_Unicode Zi_Path Zi_Security Zi_Object Zi_Handle Zi_Directory Zi_Scheduler Zi_Pmm Zi_Journal Zi_Gpt Zi_Identity
begin

text \<open>
  \<^bold>\<open>A verification development of the Zizium kernel.\<close>

  Zizium is a small operating system kernel in C. This development models those of its parts that are
  algorithms on values, tables and buffers, and proves what their callers rely on. Paths below are relative
  to \<^verbatim>\<open>src/\<close>.

  \<^bold>\<open>Conventions.\<close> An unsigned integer of width \<open>w\<close> is a \<open>w word\<close>, so arithmetic wraps as it does in C; a
  \<^verbatim>\<open>size_t\<close> that counts elements of a buffer is a \<open>nat\<close>. A buffer is a list of bytes whose length is the size
  passed with it. A function that returns a status and stores a result returns \<open>ZiStatus + 'a\<close>, written
  \<open>'a result\<close>; a function that changes its arguments returns them. Structures that point to each other live in
  stores, functions from addresses to records, with address 0 as \<^verbatim>\<open>NULL\<close>. Sizes of structures are those of
  the x64 ABI. Pointers are assumed valid, except where the theory makes them options. Locks are not part of
  the state: every operation runs to its end before the next one starts.

  \<^bold>\<open>Theories, and the code they model.\<close>

  \<^item> \<open>Zi_Prelude\<close>: status codes (\<^verbatim>\<open>sdk/include/zizium/status.h\<close>), word arithmetic, overflow guards, alignment.
  \<^item> \<open>Zi_Bytes\<close>: little-endian fields, memory primitives and CRCs (\<^verbatim>\<open>kernel/runtime/\<close>). The locales
    \<open>le_region\<close> and \<open>le_word\<close> are the contract of a field in a buffer and are interpreted for the three widths;
    the locale \<open>checksum\<close> is the contract of a CRC, interpreted for both CRCs. Every codec below rests on them.
  \<^item> \<open>Zi_Unicode\<close> (\<^verbatim>\<open>kernel/unicode/unicode.c\<close>) and \<open>Zi_Path\<close> (\<^verbatim>\<open>kernel/fs/vfs/path.c\<close>): validation and
    conversion of text, and absolute paths. Validation accepts exactly the encodings of scalar values.
  \<^item> \<open>Zi_Security\<close> (\<^verbatim>\<open>kernel/executive/security/access_check.c\<close>): tokens, descriptors and the access check,
    which is proved to be the ordered evaluation of the access list.
  \<^item> \<open>Zi_Object\<close>, \<open>Zi_Directory\<close> (\<^verbatim>\<open>kernel/executive/object/object.c\<close>) and \<open>Zi_Handle\<close>
    (\<^verbatim>\<open>kernel/executive/handle/handle.c\<close>): reference counts, the type registry, directories and the namespace, and
    handle tables. An object is destroyed once, directories refine maps, and a closed handle stays invalid. The
    routines of object types are parameters.
  \<^item> \<open>Zi_Scheduler\<close> (\<^verbatim>\<open>kernel/executive/scheduler/scheduler.c\<close>): linked ready queues refine lists, and a clock tick
    leaves no runnable thread of higher priority waiting.
  \<^item> \<open>Zi_Inventory\<close>, \<open>Zi_Pmm\<close> (\<^verbatim>\<open>kernel/mm/pmm/pmm.c\<close>): the memory inventory and page allocation. Allocation finds
    a run exactly when there is one, allocations are disjoint, and the statistics are exact.
  \<^item> \<open>Zi_Block\<close> (\<^verbatim>\<open>kernel/io/storage/block.c\<close>): block devices and partition devices, which reach only their
    window of the parent. The routines of a device are parameters on an abstract device state.
  \<^item> \<open>Zi_Journal\<close> (\<^verbatim>\<open>kernel/fs/zifs/journal.c\<close>): bitmaps, ring arithmetic, and headers and records with checksums.
    Decoding inverts encoding, a change of one byte is detected, and a torn header write loses nothing. The
    last two properties of headers assume of a device only that it keeps its blocks (\<open>block_memory\<close>).
  \<^item> \<open>Zi_Gpt\<close> (\<^verbatim>\<open>kernel/io/storage/gpt.c\<close>): partition tables. Reading returns for every device, and accepted
    tables list disjoint partitions inside the usable range.
  \<^item> \<open>Zi_Identity\<close> (\<^verbatim>\<open>kernel/executive/security/identity.c\<close>, \<^verbatim>\<open>identity_database.c\<close>): identities and the database
    that issues them. Accepted bytes describe distinct identities, and no identity is issued twice.

  \<^bold>\<open>Interfaces.\<close> Besides the locales of \<open>Zi_Bytes\<close>, \<open>access_monitor\<close> is what users of the access check rely
  on, \<open>refcounted\<close> the pairing of references and releases, \<open>quiet_routines\<close> what handle tables need of the routines
  of object types, and \<open>block_allocator\<close> the contract of page allocation. Each is interpreted on the model's
  operations in the theory that provides them.

  \<^bold>\<open>Interaction.\<close> Handles count references on objects through the operations of \<open>Zi_Object\<close>, and opening a handle
  consults the access check. The journal and the partition table reach storage through \<open>Zi_Block\<close>. The identity
  database validates names with the decoder of \<open>Zi_Unicode\<close> and identifiers with \<open>Zi_Security\<close>.

  \<^bold>\<open>Termination.\<close> Loops over a list or a range are structurally recursive. Loops whose end depends on their data are
  partial functions with value \<^term>\<open>None\<close> if they do not end, and are proved to return: page allocation, the
  walk along a ready queue and the two loops that read a partition table. Scanning of text is recursive with a termination proof, since each
  decoded scalar consumes a byte. No fuel is used.

  \<^bold>\<open>Not proved.\<close> Appending to and removing from an identity database are modelled in full, but that their result is
  again accepted by validation is not proved; the corruption results cover the change of a single byte.

  \<^bold>\<open>Not modelled.\<close> Code whose meaning is the hardware's: architecture support, storage controllers, buses, page
  tables and pools in raw memory, terminal and display. Code whose meaning is concurrent: the dispatcher, locks
  and interprocess communication. Code built on those: processes, start-up, transactions and recovery of the file
  system, and the identity store. Pure code that was not translated: service manifests, the image parser, process
  parameters, the SDK and the host tools.
\<close>

end
